(* ===== verification/Px4_Prelude.thy ===== *)
theory Px4_Prelude
  imports Main "HOL-Library.Word"
begin

text \<open>
  Shared vocabulary of the development: the result type of fallible Rust code, the
  \<open>match ... ? \<close> sequencing of such code, the collections of rewrite rules the
  component theories fill, and the generic facts on lists, maps and words they share.
  Nothing here models a line of the repository.
\<close>

section \<open>Rule collections\<close>

named_theorems step_defs \<open>definitions of the atomic steps of a component\<close>

section \<open>Results\<close>

text \<open>
  A Rust \<open>Result<T, E>\<close> is a sum with the error on the left.
\<close>

abbreviation Err :: "'e \<Rightarrow> 'e + 'a" where
  "Err \<equiv> Inl"

abbreviation Ok :: "'a \<Rightarrow> 'e + 'a" where
  "Ok \<equiv> Inr"

text \<open>The \<open>?\<close> operator: go on with the value, or return the error.\<close>

definition res_bind :: "'e + 'a \<Rightarrow> ('a \<Rightarrow> 'e + 'b) \<Rightarrow> 'e + 'b" where
  "res_bind r f = (case r of Inl e \<Rightarrow> Inl e | Inr x \<Rightarrow> f x)"

lemma res_bind_simps [simp]:
  "res_bind (Err e) f = Err e"
  "res_bind (Ok x) f = f x"
  by (simp_all add: res_bind_def)

lemma res_bind_OkE [elim!]:
  assumes "res_bind r f = Ok y"
  obtains x where "r = Ok x" and "f x = Ok y"
  using assms by (cases r) auto

lemma res_bind_cong [fundef_cong]:
  "r = r' \<Longrightarrow> (\<And>x. r' = Ok x \<Longrightarrow> f x = f' x) \<Longrightarrow> res_bind r f = res_bind r' f'"
  by (cases r') auto

text \<open>\<open>Option::ok_or\<close>.\<close>

definition ok_or :: "'a option \<Rightarrow> 'e \<Rightarrow> 'e + 'a" where
  "ok_or x e = (case x of None \<Rightarrow> Inl e | Some v \<Rightarrow> Inr v)"

lemma ok_or_simps [simp]:
  "ok_or None e = Err e"
  "ok_or (Some v) e = Ok v"
  by (simp_all add: ok_or_def)

lemma ok_or_Ok [simp]: "ok_or x e = Ok v \<longleftrightarrow> x = Some v"
  by (cases x) auto

text \<open>\<open>iter().map(f).collect::<Result<Vec<_>, _>>()\<close>: the first error wins.\<close>

fun map_res :: "('a \<Rightarrow> 'e + 'b) \<Rightarrow> 'a list \<Rightarrow> 'e + 'b list" where
  "map_res f [] = Ok []"
| "map_res f (x # xs) =
     res_bind (f x) (\<lambda>y. res_bind (map_res f xs) (\<lambda>ys. Ok (y # ys)))"

lemma map_res_length: "map_res f xs = Ok ys \<Longrightarrow> length ys = length xs"
  by (induction xs arbitrary: ys) auto

section \<open>Fallible code over a state\<close>

text \<open>
  A method with \<open>&mut self\<close> and a \<open>Result\<close>: it returns its result and the state it
  leaves, also when it fails.
\<close>

type_synonym ('s, 'e, 'a) st_res = "'s \<Rightarrow> ('e + 'a) \<times> 's"

definition st_ok :: "'a \<Rightarrow> ('s, 'e, 'a) st_res" where
  "st_ok x s = (Ok x, s)"

definition st_lift :: "'e + 'a \<Rightarrow> ('s, 'e, 'a) st_res" where
  "st_lift r s = (r, s)"

definition st_bind ::
  "('s, 'e, 'a) st_res \<Rightarrow> ('a \<Rightarrow> ('s, 'e, 'b) st_res) \<Rightarrow> ('s, 'e, 'b) st_res" where
  "st_bind m f s = (case m s of (Inl e, s') \<Rightarrow> (Inl e, s') | (Inr x, s') \<Rightarrow> f x s')"

lemma st_simps [simp]:
  "st_ok x s = (Ok x, s)"
  "st_lift r s = (r, s)"
  by (simp_all add: st_ok_def st_lift_def)

lemma st_bind_Ok:
  "st_bind m f s = (Ok y, s'') \<longleftrightarrow> (\<exists>x s'. m s = (Ok x, s') \<and> f x s' = (Ok y, s''))"
  by (auto simp: st_bind_def split: prod.splits sum.splits)

lemma st_bind_OkE:
  assumes "st_bind m f s = (Ok y, s'')"
  obtains x s' where "m s = (Ok x, s')" and "f x s' = (Ok y, s'')"
  using assms by (auto simp: st_bind_Ok)

lemma st_bind_Err:
  "fst (st_bind m f s) = Err e \<longleftrightarrow>
     fst (m s) = Err e \<or> (\<exists>x s'. m s = (Ok x, s') \<and> fst (f x s') = Err e)"
  by (auto simp: st_bind_def split: prod.splits sum.splits)

section \<open>Lists\<close>

lemma takeWhile_all: "(\<forall>x \<in> set xs. P x) \<Longrightarrow> takeWhile P xs = xs"
  by (simp add: takeWhile_eq_all_conv)

lemma dropWhile_none: "xs = [] \<or> \<not> P (hd xs) \<Longrightarrow> dropWhile P xs = xs"
  by (cases xs) auto

lemma takeWhile_append_stop:
  "(\<forall>x \<in> set xs. P x) \<Longrightarrow> \<not> P y \<Longrightarrow> takeWhile P (xs @ y # ys) = xs"
  by (induction xs) auto

lemma dropWhile_append_stop:
  "(\<forall>x \<in> set xs. P x) \<Longrightarrow> \<not> P y \<Longrightarrow> dropWhile P (xs @ y # ys) = y # ys"
  by (induction xs) auto

lemma sum_list_replicate_map: "sum_list (map (\<lambda>_. c) xs) = length xs * (c :: nat)"
  by (induction xs) auto

section \<open>Bits of a word\<close>

unbundle bit_operations_syntax

lemma word_odd_mult_inj:
  fixes a b p q :: "'w::len word"
  assumes "p * q = 1" and "a * p = b * p"
  shows "a = b"
proof -
  have "a = (a * p) * q" using assms(1) by (simp add: mult.assoc)
  also have "\<dots> = b" using assms by (simp add: mult.assoc)
  finally show ?thesis .
qed

lemma word_xor_right_inj: "(a :: 'w::len word) XOR c = b XOR c \<Longrightarrow> a = b"
proof -
  assume "a XOR c = b XOR c"
  then have "(a XOR c) XOR c = (b XOR c) XOR c" by simp
  then show ?thesis by (simp add: xor.assoc)
qed

lemma word_xor_left_inj: "(c :: 'w::len word) XOR a = c XOR b \<Longrightarrow> a = b"
  by (metis word_xor_right_inj xor.commute)

end
