(* ===== verification/Rust_Str.thy ===== *)
theory Rust_Str
  imports Px4_Prelude
begin

text \<open>
  The part of Rust's \<open>str\<close>, \<open>char\<close> and integer parsing that the code generator
  uses. A Rust \<open>str\<close> is an Isabelle \<open>string\<close> whose characters are the Unicode
  scalar values below 256 (the \<open>.msg\<close> files of PX4 are ASCII); on these texts every
  function below returns what the standard library returns, the two white-space characters
  U+0085 and U+00A0 and the two-byte UTF-8 encodings included. Byte indices of the source
  that come from \<open>find\<close> are character indices here: the code only uses them to cut the
  string at the place found.
\<close>

section \<open>Characters\<close>

definition is_ascii_uppercase :: "char \<Rightarrow> bool" where
  "is_ascii_uppercase c \<longleftrightarrow> 65 \<le> (of_char c :: nat) \<and> (of_char c :: nat) \<le> 90"

definition is_ascii_lowercase :: "char \<Rightarrow> bool" where
  "is_ascii_lowercase c \<longleftrightarrow> 97 \<le> (of_char c :: nat) \<and> (of_char c :: nat) \<le> 122"

definition is_ascii_digit :: "char \<Rightarrow> bool" where
  "is_ascii_digit c \<longleftrightarrow> 48 \<le> (of_char c :: nat) \<and> (of_char c :: nat) \<le> 57"

definition is_ascii_alphanumeric :: "char \<Rightarrow> bool" where
  "is_ascii_alphanumeric c \<longleftrightarrow>
     is_ascii_uppercase c \<or> is_ascii_lowercase c \<or> is_ascii_digit c"

definition to_ascii_lowercase :: "char \<Rightarrow> char" where
  "to_ascii_lowercase c =
     (if is_ascii_uppercase c then char_of ((of_char c :: nat) + 32) else c)"

text \<open>\<open>char::is_whitespace\<close> below U+0100.\<close>

definition is_ws :: "char \<Rightarrow> bool" where
  "is_ws c \<longleftrightarrow>
     (let n = (of_char c :: nat) in 9 \<le> n \<and> n \<le> 13 \<or> n = 32 \<or> n = 133 \<or> n = 160)"

lemmas char_class_defs =
  is_ascii_uppercase_def is_ascii_lowercase_def is_ascii_digit_def
  is_ascii_alphanumeric_def is_ws_def Let_def

lemma of_char_to_ascii_lowercase [simp]:
  "(of_char (to_ascii_lowercase c) :: nat) =
     (if is_ascii_uppercase c then of_char c + 32 else of_char c)"
  by (simp add: to_ascii_lowercase_def is_ascii_uppercase_def)

lemma to_ascii_lowercase_not_upper [simp]: "\<not> is_ascii_uppercase (to_ascii_lowercase c)"
  by (auto simp: is_ascii_uppercase_def)

lemma alnum_not_ws: "is_ascii_alphanumeric c \<Longrightarrow> \<not> is_ws c"
  by (auto simp: char_class_defs)

lemma digit_not_ws: "is_ascii_digit c \<Longrightarrow> \<not> is_ws c"
  by (auto simp: char_class_defs)

section \<open>Trimming and splitting\<close>

definition trim_start :: "string \<Rightarrow> string" where
  "trim_start s = dropWhile is_ws s"

definition trim_end :: "string \<Rightarrow> string" where
  "trim_end s = rev (dropWhile is_ws (rev s))"

definition trim :: "string \<Rightarrow> string" where
  "trim s = trim_end (trim_start s)"

definition strip_prefix :: "string \<Rightarrow> string \<Rightarrow> string option" where
  "strip_prefix p s = (if take (length p) s = p then Some (drop (length p) s) else None)"

definition ends_with :: "string \<Rightarrow> char \<Rightarrow> bool" where
  "ends_with s c \<longleftrightarrow> s \<noteq> [] \<and> last s = c"

text \<open>\<open>str::find(char)\<close>: the place of the first occurrence.\<close>

fun find_char :: "char \<Rightarrow> string \<Rightarrow> nat option" where
  "find_char c [] = None"
| "find_char c (x # xs) = (if x = c then Some 0 else map_option Suc (find_char c xs))"

text \<open>\<open>str::split_whitespace\<close>; the first argument is the word being read.\<close>

fun split_ws_from :: "string \<Rightarrow> string \<Rightarrow> string list" where
  "split_ws_from w [] = (if w = [] then [] else [w])"
| "split_ws_from w (c # cs) =
     (if is_ws c then (if w = [] then split_ws_from [] cs else w # split_ws_from [] cs)
      else split_ws_from (w @ [c]) cs)"

definition split_whitespace :: "string \<Rightarrow> string list" where
  "split_whitespace s = split_ws_from [] s"

text \<open>
  \<open>str::lines\<close>: a line ends at a line feed, or at a carriage return and a line feed; a
  last line without a line feed keeps its carriage return, and an empty one is no line.
\<close>

definition strip_cr :: "string \<Rightarrow> string" where
  "strip_cr l = (if l \<noteq> [] \<and> last l = CHR 0x0D then butlast l else l)"

fun lines_from :: "string \<Rightarrow> string \<Rightarrow> string list" where
  "lines_from l [] = (if l = [] then [] else [l])"
| "lines_from l (c # cs) =
     (if c = CHR 0x0A then strip_cr l # lines_from [] cs else lines_from (l @ [c]) cs)"

definition lines :: "string \<Rightarrow> string list" where
  "lines s = lines_from [] s"

text \<open>\<open>str::split(char)\<close>: every piece, empty ones included.\<close>

fun split_on :: "char \<Rightarrow> string \<Rightarrow> string list" where
  "split_on c [] = [[]]"
| "split_on c (x # xs) =
     (if x = c then [] # split_on c xs
      else case split_on c xs of [] \<Rightarrow> [[x]] | w # ws \<Rightarrow> (x # w) # ws)"

section \<open>Numbers\<close>

definition digit_val :: "char \<Rightarrow> nat" where
  "digit_val c = of_char c - 48"

definition digit_char :: "nat \<Rightarrow> char" where
  "digit_char d = char_of (48 + d)"

definition dec_value :: "string \<Rightarrow> nat" where
  "dec_value ds = foldl (\<lambda>v c. 10 * v + digit_val c) 0 ds"

text \<open>
  \<open>str::parse\<close> at an unsigned type of \<open>w\<close> bits: an optional \<open>+\<close>, then at
  least one digit, then the range check.
\<close>

definition parse_uint :: "nat \<Rightarrow> string \<Rightarrow> nat option" where
  "parse_uint w s =
     (let ds = (case s of [] \<Rightarrow> [] | c # cs \<Rightarrow> if c = CHR ''+'' then cs else s)
      in if ds = [] \<or> \<not> list_all is_ascii_digit ds then None
         else let v = dec_value ds in if v < 2 ^ w then Some v else None)"

text \<open>The \<open>Display\<close> of an unsigned integer.\<close>

fun show_nat :: "nat \<Rightarrow> string" where
  "show_nat n = (if n < 10 then [digit_char n] else show_nat (n div 10) @ [digit_char (n mod 10)])"

declare show_nat.simps [simp del]

section \<open>UTF-8\<close>

text \<open>\<open>str::bytes\<close>: one byte below U+0080, two below U+0100.\<close>

definition utf8 :: "char \<Rightarrow> 8 word list" where
  "utf8 c = (let n = of_char c :: nat in
     if n < 128 then [of_nat n] else [of_nat (192 + n div 64), of_nat (128 + n mod 64)])"

definition bytes :: "string \<Rightarrow> 8 word list" where
  "bytes s = concat (map utf8 s)"

lemma bytes_simps [simp]:
  "bytes [] = []"
  "bytes (s @ t) = bytes s @ bytes t"
  by (simp_all add: bytes_def)

lemma bytes_Cons: "bytes (c # s) = utf8 c @ bytes s"
  by (simp add: bytes_def)

section \<open>Facts\<close>

subsection \<open>Trimming\<close>

lemma trim_Nil [simp]: "trim [] = []"
  by (simp add: trim_def trim_start_def trim_end_def)

lemma trim_start_ws: "(\<forall>c \<in> set p. is_ws c) \<Longrightarrow> trim_start (p @ s) = trim_start s"
  by (simp add: trim_start_def)

lemma trim_end_ws: "(\<forall>c \<in> set p. is_ws c) \<Longrightarrow> trim_end (s @ p) = trim_end s"
proof -
  assume "\<forall>c \<in> set p. is_ws c"
  then have "dropWhile is_ws (rev p @ rev s) = dropWhile is_ws (rev s)"
    by (intro dropWhile_append2) auto
  then show ?thesis by (simp add: trim_end_def)
qed

lemma trim_id:
  assumes "s = [] \<or> \<not> is_ws (hd s) \<and> \<not> is_ws (last s)"
  shows "trim s = s"
  using assms by (auto simp: trim_def trim_start_def trim_end_def hd_rev dropWhile_none)

lemma trim_no_ws: "\<forall>c \<in> set s. \<not> is_ws c \<Longrightarrow> trim s = s"
  by (rule trim_id) auto

lemma trim_start_set: "set (trim_start s) \<subseteq> set s"
  by (auto simp: trim_start_def dest: set_dropWhileD)

lemma trim_end_set: "set (trim_end s) \<subseteq> set s"
  by (auto simp: trim_end_def dest: set_dropWhileD)

lemma trim_set: "set (trim s) \<subseteq> set s"
  unfolding trim_def using trim_start_set trim_end_set by blast

lemma trim_start_hd: "trim_start s \<noteq> [] \<Longrightarrow> \<not> is_ws (hd (trim_start s))"
  unfolding trim_start_def by (rule hd_dropWhile)

lemma trim_end_prefix: "\<exists>p. s = trim_end s @ p \<and> (\<forall>c \<in> set p. is_ws c)"
proof -
  have "s = rev (dropWhile is_ws (rev s)) @ rev (takeWhile is_ws (rev s))"
    by (metis rev_append rev_rev_ident takeWhile_dropWhile_id)
  then show ?thesis
    unfolding trim_end_def by (metis set_rev set_takeWhileD)
qed

lemma trim_hd_last:
  assumes "trim s \<noteq> []"
  shows "\<not> is_ws (hd (trim s))" and "\<not> is_ws (last (trim s))"
proof -
  obtain p where p: "trim_start s = trim s @ p"
    using trim_end_prefix [of "trim_start s"] by (auto simp: trim_def)
  then have "hd (trim_start s) = hd (trim s)" and "trim_start s \<noteq> []"
    using assms by auto
  then show "\<not> is_ws (hd (trim s))"
    using trim_start_hd [of s] by simp
  show "\<not> is_ws (last (trim s))"
    using assms hd_dropWhile [of is_ws "rev (trim_start s)"]
    by (auto simp: trim_def trim_end_def last_rev)
qed

lemma trim_idem [simp]: "trim (trim s) = trim s"
  by (rule trim_id) (use trim_hd_last [of s] in auto)

lemma trim_sandwich:
  assumes "\<forall>c \<in> set p. is_ws c" and "\<forall>c \<in> set q. is_ws c"
    and "s \<noteq> []" and "\<not> is_ws (hd s)" and "\<not> is_ws (last s)"
  shows "trim (p @ s @ q) = s"
proof -
  have "trim_start (p @ s @ q) = s @ q"
    using assms(1,3,4) by (simp add: trim_start_ws) (simp add: trim_start_def dropWhile_none)
  then show ?thesis
    using assms(2,3,5) by (simp add: trim_def trim_end_ws) (simp add: trim_end_def dropWhile_none hd_rev)
qed

lemma trim_leading: "is_ws c \<Longrightarrow> trim (c # s) = trim s"
  by (simp add: trim_def trim_start_def)

lemma trim_trailing: "is_ws c \<Longrightarrow> trim (s @ [c]) = trim s"
proof (cases "\<forall>x \<in> set s. is_ws x")
  case True
  assume "is_ws c"
  with True have "trim_start (s @ [c]) = []" and "trim_start s = []"
    by (auto simp: trim_start_def)
  then show ?thesis by (simp add: trim_def)
next
  case False
  assume c: "is_ws c"
  from False have "trim_start (s @ [c]) = trim_start s @ [c]"
    by (auto simp: trim_start_def dropWhile_append1)
  then show ?thesis using c trim_end_ws [of "[c]"] by (simp add: trim_def)
qed

subsection \<open>Finding a character\<close>

lemma find_char_None [simp]: "find_char c s = None \<longleftrightarrow> c \<notin> set s"
  by (induction s) auto

lemma find_char_notin [simp]: "c \<notin> set s \<Longrightarrow> find_char c s = None"
  by simp

lemma find_char_app:
  "c \<notin> set s \<Longrightarrow> find_char c (s @ c # t) = Some (length s)"
  by (induction s) auto

lemma find_char_Some:
  "find_char c s = Some i \<Longrightarrow> i < length s \<and> s ! i = c \<and> c \<notin> set (take i s)"
proof (induction s arbitrary: i)
  case Nil
  then show ?case by simp
next
  case (Cons x xs)
  then show ?case by (cases i) (auto split: if_splits)
qed

lemma strip_prefix_app [simp]: "strip_prefix p (p @ s) = Some s"
  by (simp add: strip_prefix_def)

lemma strip_prefix_char:
  "strip_prefix [c] s = (case s of [] \<Rightarrow> None | x # xs \<Rightarrow> if x = c then Some xs else None)"
  by (simp add: strip_prefix_def split: list.splits)

subsection \<open>Words of a line\<close>

definition token :: "string \<Rightarrow> bool" where
  "token w \<longleftrightarrow> w \<noteq> [] \<and> (\<forall>c \<in> set w. \<not> is_ws c)"

lemma tokenD: "token w \<Longrightarrow> c \<in> set w \<Longrightarrow> \<not> is_ws c"
  by (simp add: token_def)

lemma split_ws_from_word:
  "\<forall>c \<in> set w. \<not> is_ws c \<Longrightarrow> split_ws_from v (w @ s) = split_ws_from (v @ w) s"
  by (induction w arbitrary: v) auto

lemma split_ws_from_ws:
  "is_ws c \<Longrightarrow> split_ws_from v (c # cs) = (if v = [] then [] else [v]) @ split_ws_from [] cs"
  by simp

lemma split_ws_tokens:
  "(\<forall>c \<in> set v. \<not> is_ws c) \<Longrightarrow> w \<in> set (split_ws_from v s) \<Longrightarrow> token w"
proof (induction s arbitrary: v)
  case Nil
  then show ?case by (auto simp: token_def split: if_splits)
next
  case (Cons c cs)
  show ?case
  proof (cases "is_ws c")
    case True
    then have "w \<in> set (split_ws_from [] cs) \<or> (w = v \<and> v \<noteq> [])"
      using Cons.prems(2) by (simp only: split_ws_from_ws) (auto split: if_splits)
    then show ?thesis
      using Cons.IH [of "[]"] Cons.prems(1) by (auto simp: token_def)
  next
    case False
    then show ?thesis using Cons.IH [of "v @ [c]"] Cons.prems by auto
  qed
qed

lemma split_whitespace_token: "w \<in> set (split_whitespace s) \<Longrightarrow> token w"
  unfolding split_whitespace_def by (rule split_ws_tokens) auto

lemma split_ws_chars: "w \<in> set (split_ws_from v s) \<Longrightarrow> set w \<subseteq> set v \<union> set s"
proof (induction s arbitrary: v)
  case Nil
  then show ?case by (auto split: if_splits)
next
  case (Cons c cs)
  show ?case
  proof (cases "is_ws c")
    case True
    then have "w \<in> set (split_ws_from [] cs) \<or> w = v"
      using Cons.prems by (simp only: split_ws_from_ws) (auto split: if_splits)
    then show ?thesis using Cons.IH [of "[]"] by auto
  next
    case False
    then show ?thesis using Cons.IH [of "v @ [c]"] Cons.prems by auto
  qed
qed

lemma split_whitespace_chars: "w \<in> set (split_whitespace s) \<Longrightarrow> set w \<subseteq> set s"
  using split_ws_chars [of w "[]" s] by (simp add: split_whitespace_def)

lemma split_whitespace_Nil [simp]: "split_whitespace [] = []"
  by (simp add: split_whitespace_def)

lemma split_whitespace_single: "token w \<Longrightarrow> split_whitespace w = [w]"
  using split_ws_from_word [of w "[]" "[]"] by (simp add: split_whitespace_def token_def)

lemma split_whitespace_lead: "is_ws c \<Longrightarrow> split_whitespace (c # s) = split_whitespace s"
  by (simp add: split_whitespace_def)

lemma split_whitespace_Cons:
  "token w \<Longrightarrow> is_ws c \<Longrightarrow> split_whitespace (w @ c # s) = w # split_whitespace s"
  using split_ws_from_word [of w "[]" "c # s"] by (simp add: split_whitespace_def token_def)

lemma split_whitespace_trailing: "is_ws c \<Longrightarrow> split_whitespace (w @ [c]) = split_whitespace w"
proof -
  assume c: "is_ws c"
  have "split_ws_from v (w @ [c]) = split_ws_from v w" for v
    by (induction w arbitrary: v) (use c in auto)
  then show ?thesis by (simp add: split_whitespace_def)
qed

lemma split_whitespace_join:
  "\<forall>w \<in> set ws. token w \<Longrightarrow> split_whitespace (concat (map ((#) (CHR '' '')) ws)) = ws"
proof (induction ws)
  case Nil
  then show ?case by simp
next
  case (Cons w ws)
  have sp: "is_ws (CHR '' '')" by (simp add: is_ws_def)
  show ?case
  proof (cases ws)
    case Nil
    then show ?thesis using Cons.prems sp by (simp add: split_whitespace_lead split_whitespace_single)
  next
    case (Cons v vs)
    then have "concat (map ((#) (CHR '' '')) ws) = CHR '' '' # v @ concat (map ((#) (CHR '' '')) vs)"
      by simp
    then show ?thesis
      using Cons.prems Cons.IH sp
      by (simp add: split_whitespace_lead split_whitespace_Cons)
  qed
qed

subsection \<open>Pieces\<close>

lemma split_on_not_Nil [simp]: "split_on c s \<noteq> []"
  by (induction s) (auto split: list.splits)

lemma split_on_none: "c \<notin> set s \<Longrightarrow> split_on c s = [s]"
  by (induction s) auto

lemma split_on_app: "c \<notin> set t \<Longrightarrow> split_on c (s @ c # t) = split_on c s @ [t]"
  by (induction s) (auto simp: split_on_none split: list.splits)

subsection \<open>Lines\<close>

lemma lines_from_line:
  "CHR 0x0A \<notin> set w \<Longrightarrow> lines_from v (w @ s) = lines_from (v @ w) s"
  by (induction w arbitrary: v) auto

lemma lines_Nil [simp]: "lines [] = []"
  by (simp add: lines_def)

lemma lines_Cons:
  assumes "CHR 0x0A \<notin> set l" and "l = [] \<or> last l \<noteq> CHR 0x0D"
  shows "lines (l @ CHR 0x0A # s) = l # lines s"
proof -
  have "strip_cr l = l" using assms(2) by (auto simp: strip_cr_def)
  then show ?thesis
    using assms(1) lines_from_line [of l "[]" "CHR 0x0A # s"] by (simp add: lines_def)
qed

lemma lines_render:
  "\<forall>l \<in> set ls. CHR 0x0A \<notin> set l \<and> (l = [] \<or> last l \<noteq> CHR 0x0D) \<Longrightarrow>
     lines (concat (map (\<lambda>l. l @ [CHR 0x0A]) ls)) = ls"
  by (induction ls) (auto simp: lines_Cons)

lemma lines_from_no_lf:
  "CHR 0x0A \<notin> set l \<Longrightarrow> w \<in> set (lines_from l s) \<Longrightarrow> CHR 0x0A \<notin> set w"
  by (induction l s arbitrary: w rule: lines_from.induct)
     (auto simp: strip_cr_def split: if_splits dest: in_set_butlastD)

subsection \<open>Numbers\<close>

lemma digit_char_props [simp]:
  assumes "d < 10"
  shows "is_ascii_digit (digit_char d)" and "digit_val (digit_char d) = d"
  using assms by (simp_all add: is_ascii_digit_def digit_char_def digit_val_def)

lemma dec_value_snoc [simp]: "dec_value (ds @ [c]) = 10 * dec_value ds + digit_val c"
  by (simp add: dec_value_def)

lemma dec_value_single [simp]: "dec_value [c] = digit_val c"
  by (simp add: dec_value_def)

lemma show_nat_digits: "list_all is_ascii_digit (show_nat n) \<and> show_nat n \<noteq> []"
proof (induction n rule: show_nat.induct)
  case (1 n)
  then show ?case by (subst (1 2) show_nat.simps) (auto simp: list_all_iff)
qed

lemma dec_value_show_nat [simp]: "dec_value (show_nat n) = n"
proof (induction n rule: show_nat.induct)
  case (1 n)
  then show ?case by (subst show_nat.simps) auto
qed

lemma plus_not_digit: "\<not> is_ascii_digit (CHR ''+'')"
  by (simp add: is_ascii_digit_def)

lemma parse_uint_show_nat:
  assumes "n < 2 ^ w"
  shows "parse_uint w (show_nat n) = Some n"
proof -
  obtain c cs where s: "show_nat n = c # cs"
    using show_nat_digits [of n] by (cases "show_nat n") auto
  then have "c \<noteq> CHR ''+''"
    using show_nat_digits [of n] plus_not_digit by auto
  then show ?thesis
    using assms s show_nat_digits [of n] dec_value_show_nat [of n]
    by (simp add: parse_uint_def Let_def)
qed

lemma parse_uint_bound: "parse_uint w s = Some n \<Longrightarrow> n < 2 ^ w"
  by (auto simp: parse_uint_def Let_def split: if_splits list.splits)

lemma show_nat_chars: "c \<in> set (show_nat n) \<Longrightarrow> is_ascii_digit c"
  using show_nat_digits [of n] by (auto simp: list_all_iff)

text \<open>Definitions that evaluate the string functions on a concrete text.\<close>

lemmas str_eval = char_class_defs trim_def trim_start_def trim_end_def split_whitespace_def
  lines_def strip_cr_def strip_prefix_def ends_with_def parse_uint_def dec_value_def digit_val_def

end
