(* ===== verification/Msg_Model.thy ===== *)
theory Msg_Model
  imports Rust_Str
begin

text \<open>
  \<open>crates/px4-msg-codegen/src/model.rs\<close>: the data model of a parsed \<open>.msg\<close> file,
  the scalar types with their sizes and names, the file-name convention, and the errors.
  The constructors of \<open>Scalar\<close> carry a \<open>T\<close>, because \<open>Char\<close> is taken.
\<close>

section \<open>Scalars\<close>

datatype scalar =
    TBool | TChar | TI8 | TI16 | TI32 | TI64 | TU8 | TU16 | TU32 | TU64 | TF32 | TF64

fun scalar_size :: "scalar \<Rightarrow> nat" where
  "scalar_size TBool = 1"
| "scalar_size TChar = 1"
| "scalar_size TI8 = 1"
| "scalar_size TU8 = 1"
| "scalar_size TI16 = 2"
| "scalar_size TU16 = 2"
| "scalar_size TI32 = 4"
| "scalar_size TU32 = 4"
| "scalar_size TF32 = 4"
| "scalar_size TI64 = 8"
| "scalar_size TU64 = 8"
| "scalar_size TF64 = 8"

fun rust_type :: "scalar \<Rightarrow> string" where
  "rust_type TBool = ''bool''"
| "rust_type TChar = ''u8''"
| "rust_type TI8 = ''i8''"
| "rust_type TI16 = ''i16''"
| "rust_type TI32 = ''i32''"
| "rust_type TI64 = ''i64''"
| "rust_type TU8 = ''u8''"
| "rust_type TU16 = ''u16''"
| "rust_type TU32 = ''u32''"
| "rust_type TU64 = ''u64''"
| "rust_type TF32 = ''f32''"
| "rust_type TF64 = ''f64''"

fun px4_name :: "scalar \<Rightarrow> string" where
  "px4_name TBool = ''bool''"
| "px4_name TChar = ''char''"
| "px4_name TI8 = ''int8''"
| "px4_name TI16 = ''int16''"
| "px4_name TI32 = ''int32''"
| "px4_name TI64 = ''int64''"
| "px4_name TU8 = ''uint8''"
| "px4_name TU16 = ''uint16''"
| "px4_name TU32 = ''uint32''"
| "px4_name TU64 = ''uint64''"
| "px4_name TF32 = ''float32''"
| "px4_name TF64 = ''float64''"

definition scalar_parse :: "string \<Rightarrow> scalar option" where
  "scalar_parse tok =
     (if tok = ''bool'' then Some TBool
      else if tok = ''char'' then Some TChar
      else if tok = ''int8'' then Some TI8
      else if tok = ''int16'' then Some TI16
      else if tok = ''int32'' then Some TI32
      else if tok = ''int64'' then Some TI64
      else if tok = ''uint8'' then Some TU8
      else if tok = ''uint16'' then Some TU16
      else if tok = ''uint32'' then Some TU32
      else if tok = ''uint64'' then Some TU64
      else if tok = ''float32'' then Some TF32
      else if tok = ''float64'' then Some TF64
      else None)"

section \<open>Messages\<close>

datatype field_type =
    Scalar scalar
  | ScalarArray scalar nat
  | Nested string
  | NestedArray string nat

text \<open>
  The token of a field's type, as \<open>message_hash_fields\<close> in \<open>layout.rs\<close> writes it.
\<close>

fun field_token :: "field_type \<Rightarrow> string" where
  "field_token (Scalar s) = px4_name s"
| "field_token (ScalarArray s n) = px4_name s @ ''['' @ show_nat n @ '']''"
| "field_token (Nested name) = name"
| "field_token (NestedArray name n) = name @ ''['' @ show_nat n @ '']''"

record msg_field =
  f_name :: string
  f_ty :: field_type

record msg_const =
  c_ty :: scalar
  c_name :: string
  c_value :: string

record msg_def =
  d_name :: string
  d_snake_name :: string
  d_fields :: "msg_field list"
  d_constants :: "msg_const list"
  d_topics :: "string list"
  d_message_version :: "nat option"

section \<open>File names\<close>

text \<open>
  \<open>camel_to_snake\<close>, with the source's index arithmetic: every look-up is guarded by the
  bounds the source tests.
\<close>

definition needs_underscore :: "string \<Rightarrow> nat \<Rightarrow> bool" where
  "needs_underscore chars i \<longleftrightarrow>
     i > 0 \<and>
     (is_ascii_lowercase (chars ! (i - 1)) \<or>
      is_ascii_uppercase (chars ! (i - 1)) \<and> i + 1 < length chars \<and>
        is_ascii_lowercase (chars ! (i + 1)))"

definition snake_char :: "string \<Rightarrow> nat \<Rightarrow> string" where
  "snake_char chars i =
     (let c = chars ! i in
      if is_ascii_uppercase c
      then (if needs_underscore chars i then ''_'' else '''') @ [to_ascii_lowercase c]
      else [c])"

definition camel_to_snake :: "string \<Rightarrow> string" where
  "camel_to_snake s = concat (map (snake_char s) [0..<length s])"

section \<open>Errors\<close>

datatype parse_error =
    Io string
  | Syntax nat string
  | UnresolvedNested string

text \<open>\<open>impl Display for ParseError\<close>; an \<open>io::Error\<close> is its own text.\<close>

fun display_error :: "parse_error \<Rightarrow> string" where
  "display_error (Io e) = ''io: '' @ e"
| "display_error (Syntax line msg) = ''line '' @ show_nat line @ '': '' @ msg"
| "display_error (UnresolvedNested name) =
     ''unresolved nested type `'' @ name @ ''` (no matching .msg found)''"

section \<open>Facts\<close>

lemma scalar_size_cases: "scalar_size s \<in> {1, 2, 4, 8}"
  by (cases s) auto

lemma scalar_size_pos [simp]: "0 < scalar_size s"
  by (cases s) auto

lemma scalar_parse_px4_name: "scalar_parse (px4_name s) = Some s"
  by (cases s) (simp_all add: scalar_parse_def)

lemma scalar_parse_Some: "scalar_parse t = Some s \<Longrightarrow> t = px4_name s"
  unfolding scalar_parse_def
  by (simp only: option.inject split: if_split_asm)
     (simp_all only: px4_name.simps option.distinct)

lemma px4_name_alnum: "list_all is_ascii_alphanumeric (px4_name s)"
  by (cases s; simp only: px4_name.simps; code_simp)

lemma px4_name_chars: "c \<in> set (px4_name s) \<Longrightarrow> is_ascii_alphanumeric c"
  using px4_name_alnum [of s] by (simp add: list_all_iff)

lemma px4_name_hd: "px4_name s \<noteq> [] \<and> \<not> is_ascii_uppercase (hd (px4_name s))"
  by (cases s) (auto simp: char_class_defs)

lemma px4_name_token: "token (px4_name s)"
  using px4_name_chars alnum_not_ws px4_name_hd by (auto simp: token_def)

text \<open>
  The token of a scalar and its parser are inverse to each other: the parser accepts exactly
  the twelve tokens, and each of them for its own scalar only.
\<close>

lemma scalar_parse_iff: "scalar_parse t = Some s \<longleftrightarrow> t = px4_name s"
  using scalar_parse_px4_name scalar_parse_Some by blast

lemma snake_char_not_upper: "c \<in> set (snake_char s i) \<Longrightarrow> \<not> is_ascii_uppercase c"
  by (auto simp: snake_char_def Let_def split: if_splits) (simp_all add: is_ascii_uppercase_def)

lemma to_ascii_lowercase_id: "\<not> is_ascii_uppercase c \<Longrightarrow> to_ascii_lowercase c = c"
  by (simp add: to_ascii_lowercase_def)

lemma snake_char_erase:
  "filter (\<lambda>c. c \<noteq> CHR ''_'') (snake_char s i) =
   filter (\<lambda>c. c \<noteq> CHR ''_'') [to_ascii_lowercase (s ! i)]"
  by (auto simp: snake_char_def Let_def to_ascii_lowercase_id)

lemma snake_char_id: "\<not> is_ascii_uppercase (s ! i) \<Longrightarrow> snake_char s i = [s ! i]"
  by (simp add: snake_char_def)

lemma camel_to_snake_erase:
  "filter (\<lambda>c. c \<noteq> CHR ''_'') (camel_to_snake s) =
   filter (\<lambda>c. c \<noteq> CHR ''_'') (map to_ascii_lowercase s)"
proof -
  have "filter (\<lambda>c. c \<noteq> CHR ''_'') (camel_to_snake s) =
        concat (map (\<lambda>i. filter (\<lambda>c. c \<noteq> CHR ''_'') [to_ascii_lowercase (s ! i)]) [0..<length s])"
    by (simp add: camel_to_snake_def filter_concat comp_def snake_char_erase del: filter.simps)
  also have "\<dots> = filter (\<lambda>c. c \<noteq> CHR ''_'') (concat (map (\<lambda>i. [to_ascii_lowercase (s ! i)]) [0..<length s]))"
    by (simp only: filter_concat map_map comp_def)
  also have "\<dots> = filter (\<lambda>c. c \<noteq> CHR ''_'') (map to_ascii_lowercase (map ((!) s) [0..<length s]))"
    by (simp add: comp_def)
  finally show ?thesis by (simp only: map_nth)
qed

lemma camel_to_snake_lower: "\<forall>c \<in> set s. \<not> is_ascii_uppercase c \<Longrightarrow> camel_to_snake s = s"
proof -
  assume "\<forall>c \<in> set s. \<not> is_ascii_uppercase c"
  then have "camel_to_snake s = concat (map (\<lambda>i. [s ! i]) [0..<length s])"
    unfolding camel_to_snake_def by (intro arg_cong [where f = concat] map_cong) (auto simp: snake_char_id)
  also have "\<dots> = s" by (simp add: map_nth)
  finally show ?thesis .
qed

lemma camel_to_snake_not_upper: "c \<in> set (camel_to_snake s) \<Longrightarrow> \<not> is_ascii_uppercase c"
  by (auto simp: camel_to_snake_def dest: snake_char_not_upper)

section \<open>Properties\<close>

text \<open>
  \<open>Scalar::parse\<close> is the exact inverse of \<open>Scalar::px4_name\<close>: a token parses to a
  scalar if and only if it is that scalar's PX4 name, so the twelve names are distinct and no
  other token is a scalar type.
\<close>

theorem scalar_parse_inverse:
  "scalar_parse t = Some s \<longleftrightarrow> t = px4_name s"
  by (rule scalar_parse_iff)

text \<open>
  \<open>camel_to_snake\<close> only lowers letters and inserts underscores: its result has no ASCII
  upper-case letter, erasing the underscores gives the lower-cased name without its own
  underscores, and applying it again changes nothing.
\<close>

theorem camel_to_snake_normal:
  "(\<nexists>c. c \<in> set (camel_to_snake s) \<and> is_ascii_uppercase c) \<and>
   filter (\<lambda>c. c \<noteq> CHR ''_'') (camel_to_snake s) =
     filter (\<lambda>c. c \<noteq> CHR ''_'') (map to_ascii_lowercase s) \<and>
   camel_to_snake (camel_to_snake s) = camel_to_snake s"
  using camel_to_snake_not_upper camel_to_snake_erase camel_to_snake_lower by blast

text \<open>
  The doc comment of \<open>camel_to_snake\<close> says that an underscore goes before each upper-case
  letter that follows a lower-case one. The code also splits the last capital off an acronym:
  \<open>GPSInfo\<close> becomes \<open>gps_info\<close>, where no capital follows a lower-case letter.
\<close>

theorem camel_to_snake_acronym:
  "camel_to_snake ''GPSInfo'' = ''gps_info'' \<and>
   \<not> (\<exists>i. i + 1 < length ''GPSInfo'' \<and> is_ascii_lowercase (''GPSInfo'' ! i) \<and>
           is_ascii_uppercase (''GPSInfo'' ! (i + 1)))"
proof
  show "camel_to_snake ''GPSInfo'' = ''gps_info''" by code_simp
  have "list_all (\<lambda>i. \<not> (is_ascii_lowercase (''GPSInfo'' ! i) \<and> is_ascii_uppercase (''GPSInfo'' ! (i + 1)))) [0..<6]"
    by code_simp
  then show "\<not> (\<exists>i. i + 1 < length ''GPSInfo'' \<and> is_ascii_lowercase (''GPSInfo'' ! i) \<and>
           is_ascii_uppercase (''GPSInfo'' ! (i + 1)))"
    by (auto simp: list_all_iff simp del: upt_Suc)
qed

end
