(* ===== verification/Msg_Parser.thy ===== *)
theory Msg_Parser
  imports Msg_Model
begin

text \<open>
  \<open>crates/px4-msg-codegen/src/parser.rs\<close>: the line-based parser of \<open>.msg\<close> files.
  \<open>parse_line\<close> is one pass of the loop of \<open>parse_str\<close> over its three local variables
  (\<open>parse_state\<close>), \<open>parse_lines\<close> the loop with its early return, and \<open>parse_str\<close>
  the whole function. The last sections prove that rendering a parsed message and parsing it
  again gives the same message, and where an error is reported.
\<close>

section \<open>Types of fields\<close>

definition is_camel_case :: "string \<Rightarrow> bool" where
  "is_camel_case s =
     (case s of
        [] \<Rightarrow> False
      | c # _ \<Rightarrow>
          if is_ascii_uppercase c
          then list_all (\<lambda>c. is_ascii_alphanumeric c \<or> c = CHR ''_'') s
          else False)"

text \<open>The code generator runs on the host, where \<open>usize\<close> has 64 bits.\<close>

definition parse_field_type :: "string \<Rightarrow> field_type option" where
  "parse_field_type tok =
     (case find_char (CHR ''['') tok of
        Some open_at \<Rightarrow>
          if \<not> ends_with tok (CHR '']'') then None
          else
            (let base = take open_at tok;
                 n_str = take (length tok - 1 - (open_at + 1)) (drop (open_at + 1) tok)
             in case parse_uint 64 n_str of
                  None \<Rightarrow> None
                | Some n \<Rightarrow>
                    (case scalar_parse base of
                       Some s \<Rightarrow> Some (ScalarArray s n)
                     | None \<Rightarrow>
                         if is_camel_case base then Some (NestedArray base n) else None))
      | None \<Rightarrow>
          (case scalar_parse tok of
             Some s \<Rightarrow> Some (Scalar s)
           | None \<Rightarrow> if is_camel_case tok then Some (Nested tok) else None))"

section \<open>Lines\<close>

record parse_state =
  ps_fields :: "msg_field list"
  ps_constants :: "msg_const list"
  ps_topics :: "string list option"

definition init_state :: parse_state where
  "init_state = \<lparr>ps_fields = [], ps_constants = [], ps_topics = None\<rparr>"

text \<open>\<open># TOPICS\<close>, or an ordinary comment line; \<open>rest\<close> is the text after the \<open>#\<close>.\<close>

definition parse_comment :: "nat \<Rightarrow> string \<Rightarrow> parse_state \<Rightarrow> parse_error + parse_state" where
  "parse_comment lineno rest st =
     (case strip_prefix ''TOPICS'' (trim rest) of
        Some lst \<Rightarrow>
          (let names = split_whitespace lst in
           if names = [] then Err (Syntax lineno ''`# TOPICS` directive with no names'')
           else Ok (st\<lparr>ps_topics := Some names\<rparr>))
      | None \<Rightarrow> Ok st)"

text \<open>\<open>type ident = value\<close>\<close>

definition parse_constant ::
  "nat \<Rightarrow> string \<Rightarrow> string \<Rightarrow> parse_state \<Rightarrow> parse_error + parse_state" where
  "parse_constant lineno lhs rhs st =
     (case split_whitespace lhs of
        [] \<Rightarrow> Err (Syntax lineno ''missing type in constant'')
      | [ty_tok] \<Rightarrow> Err (Syntax lineno ''missing name in constant'')
      | [ty_tok, name_tok] \<Rightarrow>
          res_bind
            (ok_or (scalar_parse ty_tok)
               (Syntax lineno (''constant type must be a scalar, got `'' @ ty_tok @ ''`'')))
            (\<lambda>ty. Ok (st\<lparr>ps_constants := ps_constants st @
                        [\<lparr>c_ty = ty, c_name = name_tok, c_value = rhs\<rparr>]\<rparr>))
      | _ \<Rightarrow> Err (Syntax lineno ''unexpected tokens before `=` in constant''))"

text \<open>\<open>type ident\<close>\<close>

definition parse_field :: "nat \<Rightarrow> string \<Rightarrow> parse_state \<Rightarrow> parse_error + parse_state" where
  "parse_field lineno code st =
     (case split_whitespace code of
        [] \<Rightarrow> Err (Syntax lineno ''empty line after comment strip'')
      | [ty_tok] \<Rightarrow> Err (Syntax lineno ''missing field name'')
      | [ty_tok, name_tok] \<Rightarrow>
          res_bind
            (ok_or (parse_field_type ty_tok)
               (Syntax lineno (''cannot parse field type `'' @ ty_tok @ ''`'')))
            (\<lambda>ty. Ok (st\<lparr>ps_fields := ps_fields st @ [\<lparr>f_name = name_tok, f_ty = ty\<rparr>]\<rparr>))
      | _ \<Rightarrow> Err (Syntax lineno ''unexpected extra tokens in field line''))"

definition parse_code :: "nat \<Rightarrow> string \<Rightarrow> parse_state \<Rightarrow> parse_error + parse_state" where
  "parse_code lineno code st =
     (if code = [] then Ok st
      else case find_char (CHR ''='') code of
             Some eq_idx \<Rightarrow>
               parse_constant lineno (trim (take eq_idx code)) (trim (drop (eq_idx + 1) code)) st
           | None \<Rightarrow> parse_field lineno code st)"

definition strip_comment :: "string \<Rightarrow> string" where
  "strip_comment trimmed =
     (case find_char (CHR ''#'') trimmed of
        Some idx \<Rightarrow> trim (take idx trimmed)
      | None \<Rightarrow> trimmed)"

definition parse_line :: "nat \<Rightarrow> string \<Rightarrow> parse_state \<Rightarrow> parse_error + parse_state" where
  "parse_line lineno raw_line st =
     (let trimmed = trim raw_line in
      case strip_prefix ''#'' trimmed of
        Some rest \<Rightarrow> parse_comment lineno rest st
      | None \<Rightarrow> parse_code lineno (strip_comment trimmed) st)"

fun parse_lines :: "nat \<Rightarrow> string list \<Rightarrow> parse_state \<Rightarrow> parse_error + parse_state" where
  "parse_lines lineno [] st = Ok st"
| "parse_lines lineno (l # ls) st =
     res_bind (parse_line lineno l st) (parse_lines (lineno + 1) ls)"

section \<open>Files\<close>

definition message_version :: "msg_const list \<Rightarrow> nat option" where
  "message_version cs =
     (case find (\<lambda>c. c_name c = ''MESSAGE_VERSION'') cs of
        None \<Rightarrow> None
      | Some c \<Rightarrow> parse_uint 32 (trim (c_value c)))"

definition finish :: "string \<Rightarrow> parse_state \<Rightarrow> msg_def" where
  "finish name st =
     (let snake_name = camel_to_snake name in
      \<lparr>d_name = name,
       d_snake_name = snake_name,
       d_fields = ps_fields st,
       d_constants = ps_constants st,
       d_topics = (case ps_topics st of Some ts \<Rightarrow> ts | None \<Rightarrow> [snake_name]),
       d_message_version = message_version (ps_constants st)\<rparr>)"

definition parse_str :: "string \<Rightarrow> string \<Rightarrow> parse_error + msg_def" where
  "parse_str name text = res_bind (parse_lines 1 (lines text) init_state) (\<lambda>st. Ok (finish name st))"

text \<open>
  \<open>parse_file\<close>. The file system is the function \<open>read_to_string\<close> from paths to
  contents or an I/O error. \<open>file_stem\<close> is \<open>Path::file_stem\<close> on a Unix host: the
  last component (empty and \<open>.\<close> components do not count) without its last extension.
\<close>

definition file_name :: "string \<Rightarrow> string option" where
  "file_name p =
     (let comps = filter (\<lambda>c. c \<noteq> [] \<and> c \<noteq> ''.'') (split_on (CHR ''/'') p)
      in if comps = [] \<or> last comps = ''..'' then None else Some (last comps))"

definition stem_of :: "string \<Rightarrow> string" where
  "stem_of file =
     (if CHR ''.'' \<notin> set (tl file) then file
      else butlast (rev (dropWhile (\<lambda>c. c \<noteq> CHR ''.'') (rev file))))"

definition file_stem :: "string \<Rightarrow> string option" where
  "file_stem p = map_option stem_of (file_name p)"

definition parse_file ::
  "(string \<Rightarrow> string + string) \<Rightarrow> string \<Rightarrow> parse_error + msg_def" where
  "parse_file read_to_string path =
     (case read_to_string path of
        Inl e \<Rightarrow> Err (Io e)
      | Inr text \<Rightarrow>
          res_bind (ok_or (file_stem path) (Syntax 0 (''invalid path: '' @ path)))
            (\<lambda>name. parse_str name text))"

section \<open>Well-formed messages and their rendering\<close>

text \<open>
  What every parsed message satisfies (\<open>wf_msg\<close>) and the plain text of a message
  (\<open>render_msg\<close>): specifications for the theorems below, not code of the repository.
\<close>

fun wf_type :: "field_type \<Rightarrow> bool" where
  "wf_type (Scalar s) = True"
| "wf_type (ScalarArray s n) = (n < 2 ^ 64)"
| "wf_type (Nested name) = is_camel_case name"
| "wf_type (NestedArray name n) = (is_camel_case name \<and> n < 2 ^ 64)"

definition ident_token :: "string \<Rightarrow> bool" where
  "ident_token w \<longleftrightarrow> token w \<and> CHR ''#'' \<notin> set w \<and> CHR ''='' \<notin> set w"

definition wf_field :: "msg_field \<Rightarrow> bool" where
  "wf_field f \<longleftrightarrow> wf_type (f_ty f) \<and> ident_token (f_name f)"

definition wf_const :: "msg_const \<Rightarrow> bool" where
  "wf_const c \<longleftrightarrow> ident_token (c_name c) \<and> trim (c_value c) = c_value c \<and>
     CHR ''#'' \<notin> set (c_value c) \<and> CHR 0x0A \<notin> set (c_value c)"

definition wf_topics :: "string list \<Rightarrow> bool" where
  "wf_topics ts \<longleftrightarrow> ts \<noteq> [] \<and> (\<forall>t \<in> set ts. token t)"

definition wf_state :: "parse_state \<Rightarrow> bool" where
  "wf_state st \<longleftrightarrow> (\<forall>f \<in> set (ps_fields st). wf_field f) \<and>
     (\<forall>c \<in> set (ps_constants st). wf_const c) \<and>
     (\<forall>ts. ps_topics st = Some ts \<longrightarrow> wf_topics ts)"

definition wf_msg :: "msg_def \<Rightarrow> bool" where
  "wf_msg d \<longleftrightarrow> (\<forall>f \<in> set (d_fields d). wf_field f) \<and>
     (\<forall>c \<in> set (d_constants d). wf_const c) \<and>
     d_snake_name d = camel_to_snake (d_name d) \<and>
     (d_topics d = [d_snake_name d] \<or> wf_topics (d_topics d)) \<and>
     d_message_version d = message_version (d_constants d)"

definition render_field :: "msg_field \<Rightarrow> string" where
  "render_field f = field_token (f_ty f) @ '' '' @ f_name f"

definition render_const :: "msg_const \<Rightarrow> string" where
  "render_const c = px4_name (c_ty c) @ '' '' @ c_name c @ '' = '' @ c_value c"

definition render_topics :: "msg_def \<Rightarrow> string list" where
  "render_topics d =
     (if d_topics d = [d_snake_name d] then []
      else [''# TOPICS'' @ concat (map ((#) (CHR '' '')) (d_topics d))])"

definition render_lines :: "msg_def \<Rightarrow> string list" where
  "render_lines d =
     render_topics d @ map render_const (d_constants d) @ map render_field (d_fields d)"

definition render_msg :: "msg_def \<Rightarrow> string" where
  "render_msg d = concat (map (\<lambda>l. l @ [CHR 0x0A]) (render_lines d))"

section \<open>Facts\<close>

subsection \<open>Field types\<close>

lemma camel_chars:
  assumes "is_camel_case s" and "c \<in> set s"
  shows "is_ascii_alphanumeric c \<or> c = CHR ''_''"
  using assms by (auto simp: is_camel_case_def list_all_iff split: list.splits if_splits)

lemma camel_hd: "is_camel_case s \<Longrightarrow> s \<noteq> [] \<and> is_ascii_uppercase (hd s)"
  by (auto simp: is_camel_case_def split: list.splits if_splits)

lemma camel_not_scalar: "is_camel_case s \<Longrightarrow> scalar_parse s = None"
  using px4_name_hd camel_hd by (cases "scalar_parse s") (auto dest: scalar_parse_Some)

lemma plain_chars:
  "is_ascii_alphanumeric c \<Longrightarrow> c \<notin> {CHR ''['', CHR '']'', CHR ''#'', CHR ''='', CHR 0x0A}"
  by (auto simp: char_class_defs)

lemma camel_no_bracket: "is_camel_case s \<Longrightarrow> CHR ''['' \<notin> set s"
  using camel_chars plain_chars by force

lemma px4_name_no_bracket: "CHR ''['' \<notin> set (px4_name s)"
  using px4_name_chars plain_chars by blast

lemma parse_array_token:
  assumes "CHR ''['' \<notin> set base" and "n < 2 ^ 64"
  shows "parse_field_type (base @ ''['' @ show_nat n @ '']'') =
     (case scalar_parse base of
        Some s \<Rightarrow> Some (ScalarArray s n)
      | None \<Rightarrow> if is_camel_case base then Some (NestedArray base n) else None)"
proof -
  let ?tok = "base @ CHR ''['' # show_nat n @ '']''"
  have "find_char (CHR ''['') ?tok = Some (length base)"
    using assms(1) by (rule find_char_app)
  moreover have "ends_with ?tok (CHR '']'')"
    by (simp add: ends_with_def)
  moreover have "take (length ?tok - 1 - (length base + 1)) (drop (length base + 1) ?tok) = show_nat n"
    by simp
  ultimately show ?thesis
    using parse_uint_show_nat [OF assms(2)]
    by (simp add: parse_field_type_def split: option.splits)
qed

lemma parse_plain_token:
  assumes "CHR ''['' \<notin> set tok"
  shows "parse_field_type tok =
     (case scalar_parse tok of
        Some s \<Rightarrow> Some (Scalar s)
      | None \<Rightarrow> if is_camel_case tok then Some (Nested tok) else None)"
proof -
  have "find_char (CHR ''['') tok = None" using assms by simp
  then show ?thesis by (simp only: parse_field_type_def option.case)
qed

lemma parse_field_type_token: "wf_type ty \<Longrightarrow> parse_field_type (field_token ty) = Some ty"
  by (cases ty)
     (simp_all add: parse_plain_token parse_array_token [simplified] px4_name_no_bracket
        camel_no_bracket scalar_parse_px4_name camel_not_scalar)

lemma parse_field_type_wf: "parse_field_type tok = Some ty \<Longrightarrow> wf_type ty"
  by (auto simp: parse_field_type_def Let_def split: option.splits if_splits dest: parse_uint_bound)

subsection \<open>The line of a field, a constant, a topics directive\<close>

lemma space_is_ws [simp]: "is_ws (CHR '' '')"
  by (simp add: is_ws_def)

lemma punct_not_ws [simp]: "\<not> is_ws (CHR ''#'')" "\<not> is_ws (CHR ''='')"
  by (simp_all add: is_ws_def)

lemma field_token_chars:
  assumes "wf_type ty" and "c \<in> set (field_token ty)"
  shows "is_ascii_alphanumeric c \<or> c \<in> {CHR ''_'', CHR ''['', CHR '']''}"
  using assms
  by (cases ty)
     (auto dest: px4_name_chars show_nat_chars camel_chars simp: is_ascii_alphanumeric_def)

lemma field_token_ident: "wf_type ty \<Longrightarrow> ident_token (field_token ty)"
proof -
  assume wf: "wf_type ty"
  have other: "\<not> is_ws c \<and> c \<noteq> CHR ''#'' \<and> c \<noteq> CHR ''=''" if "c \<in> set (field_token ty)" for c
  proof -
    from field_token_chars [OF wf that] show ?thesis
      by (elim disjE) (auto simp: char_class_defs)
  qed
  moreover have "field_token ty \<noteq> []"
    using wf camel_hd px4_name_hd by (cases ty) auto
  ultimately show ?thesis by (auto simp: ident_token_def token_def)
qed

lemma token_hd_last: "token w \<Longrightarrow> w \<noteq> [] \<and> \<not> is_ws (hd w) \<and> \<not> is_ws (last w)"
  by (auto simp: token_def)

lemma two_tokens:
  assumes "token a" and "token b"
  shows "split_whitespace (a @ '' '' @ b) = [a, b]"
  using assms by (simp add: split_whitespace_Cons split_whitespace_single)

lemma parse_line_plain:
  assumes "trim l = l" and "CHR ''#'' \<notin> set l"
  shows "parse_line n l st = parse_code n l st"
proof -
  have "strip_prefix ''#'' l = None"
    using assms(2) by (auto simp: strip_prefix_char split: list.splits)
  moreover have "strip_comment l = l"
    using assms(2) by (simp add: strip_comment_def)
  ultimately show ?thesis using assms(1) by (simp add: parse_line_def)
qed

lemma parse_line_field:
  assumes "wf_field f"
  shows "parse_line n (render_field f) st = Ok (st\<lparr>ps_fields := ps_fields st @ [f]\<rparr>)"
proof -
  let ?t = "field_token (f_ty f)" and ?l = "render_field f"
  from assms have wf: "wf_type (f_ty f)" and t: "ident_token ?t" and nm: "ident_token (f_name f)"
    by (auto simp: wf_field_def intro: field_token_ident)
  then have toks: "token ?t" "token (f_name f)" by (auto simp: ident_token_def)
  have "trim ?l = ?l"
    using token_hd_last [OF toks(1)] token_hd_last [OF toks(2)]
    by (intro trim_id) (auto simp: render_field_def)
  moreover have "CHR ''#'' \<notin> set ?l" and eq: "CHR ''='' \<notin> set ?l" and "?l \<noteq> []"
    using t nm by (auto simp: ident_token_def render_field_def)
  moreover have "split_whitespace ?l = [?t, f_name f]"
    unfolding render_field_def by (rule two_tokens [OF toks])
  ultimately have "parse_line n ?l st = parse_field n ?l st"
    by (simp add: parse_line_plain parse_code_def)
  then show ?thesis
    using \<open>split_whitespace ?l = _\<close> parse_field_type_token [OF wf]
    by (simp add: parse_field_def)
qed

lemma trim_const_line:
  assumes a: "a \<noteq> []" "\<not> is_ws (hd a)" and "trim v = v"
  shows "trim (a @ '' = '' @ v) = a @ '' ='' @ (if v = [] then [] else CHR '' '' # v)"
proof (cases "v = []")
  case True
  have "trim ((a @ '' ='') @ '' '') = a @ '' =''"
    using a trim_sandwich [of "[]" "'' ''" "a @ '' =''"] by simp
  with True show ?thesis by simp
next
  case False
  then have "\<not> is_ws (last v)" using assms(3) trim_hd_last [of v] by simp
  then have "trim (a @ '' = '' @ v) = a @ '' = '' @ v"
    using a False by (intro trim_id) auto
  with False show ?thesis by simp
qed

lemma parse_code_const:
  assumes "CHR ''='' \<notin> set a"
  shows "parse_code n (a @ CHR ''='' # b) st = parse_constant n (trim a) (trim b) st"
  using find_char_app [OF assms, of b] by (simp add: parse_code_def)

lemma parse_line_const:
  assumes "wf_const c"
  shows "parse_line n (render_const c) st = Ok (st\<lparr>ps_constants := ps_constants st @ [c]\<rparr>)"
proof -
  let ?t = "px4_name (c_ty c)" and ?v = "c_value c"
  let ?lhs = "?t @ '' '' @ c_name c"
  let ?rhs = "if ?v = [] then [] else CHR '' '' # ?v"
  let ?l = "?lhs @ '' ='' @ ?rhs"
  from assms have nm: "ident_token (c_name c)" and v: "trim ?v = ?v"
    and hash: "CHR ''#'' \<notin> set ?v" by (auto simp: wf_const_def)
  have toks: "token ?t" "token (c_name c)" using nm px4_name_token by (auto simp: ident_token_def)
  have t: "CHR ''#'' \<notin> set ?t" "CHR ''='' \<notin> set ?t"
    using px4_name_chars plain_chars by blast+
  have trimmed: "trim (render_const c) = ?l"
    using token_hd_last [OF toks(1)] trim_const_line [of ?lhs ?v] v
    by (simp add: render_const_def)
  have "trim ?l = ?l" by (subst trimmed [symmetric], subst trim_idem, rule trimmed)
  moreover have "CHR ''#'' \<notin> set ?l" and "?l \<noteq> []"
    using t nm hash by (auto simp: ident_token_def)
  ultimately have "parse_line n (render_const c) st = parse_code n ?l st"
    using parse_line_plain [of ?l n st] trimmed by (simp add: parse_line_def)
  also have "parse_code n ?l st = parse_constant n (trim (?lhs @ '' '')) (trim ?rhs) st"
    using t nm parse_code_const [of "?lhs @ '' ''" n ?rhs st] by (simp add: ident_token_def)
  also have "trim (?lhs @ '' '') = ?lhs"
    using token_hd_last [OF toks(1)] token_hd_last [OF toks(2)]
      trim_sandwich [of "[]" "'' ''" ?lhs] by simp
  also have "trim ?rhs = ?v" using v by (simp add: trim_leading)
  also have "parse_constant n ?lhs ?v st = Ok (st\<lparr>ps_constants := ps_constants st @ [c]\<rparr>)"
    using two_tokens [OF toks] scalar_parse_px4_name by (simp add: parse_constant_def)
  finally show ?thesis .
qed

lemma parse_line_topics:
  assumes "wf_topics ts"
  shows "parse_line n (''# TOPICS'' @ concat (map ((#) (CHR '' '')) ts)) st =
    Ok (st\<lparr>ps_topics := Some ts\<rparr>)"
proof -
  let ?ws = "concat (map ((#) (CHR '' '')) ts)"
  obtain us u where ts: "ts = us @ [u]" and u: "token u"
    using assms by (cases ts rule: rev_cases) (auto simp: wf_topics_def)
  then have "\<not> is_ws (last ?ws)" and "?ws \<noteq> []"
    using token_hd_last [OF u] by auto
  then have "trim (''# TOPICS'' @ ?ws) = ''# TOPICS'' @ ?ws"
    by (intro trim_id) auto
  moreover have "trim (CHR '' '' # ''TOPICS'' @ ?ws) = ''TOPICS'' @ ?ws"
    using \<open>\<not> is_ws (last ?ws)\<close> \<open>?ws \<noteq> []\<close>
    by (subst trim_leading) (auto intro!: trim_id simp: is_ws_def)
  moreover have "split_whitespace ?ws = ts"
    using assms by (intro split_whitespace_join) (auto simp: wf_topics_def)
  moreover have "ts \<noteq> []" using ts by simp
  ultimately show ?thesis
    using strip_prefix_app [of "''TOPICS''" ?ws]
    by (simp add: parse_line_def strip_prefix_char parse_comment_def)
qed

subsection \<open>Runs of lines\<close>

lemma parse_lines_append:
  "parse_lines n (xs @ ys) st =
     res_bind (parse_lines n xs st) (parse_lines (n + length xs) ys)"
proof (induction xs arbitrary: n st)
  case Nil
  then show ?case by simp
next
  case (Cons x xs)
  then show ?case by (cases "parse_line n x st") auto
qed

lemma parse_lines_fields:
  "\<forall>f \<in> set fs. wf_field f \<Longrightarrow>
     parse_lines n (map render_field fs) st = Ok (st\<lparr>ps_fields := ps_fields st @ fs\<rparr>)"
  by (induction fs arbitrary: n st) (auto simp: parse_line_field)

lemma parse_lines_consts:
  "\<forall>c \<in> set cs. wf_const c \<Longrightarrow>
     parse_lines n (map render_const cs) st = Ok (st\<lparr>ps_constants := ps_constants st @ cs\<rparr>)"
  by (induction cs arbitrary: n st) (auto simp: parse_line_const)

lemma parse_lines_topics:
  assumes "wf_msg d"
  shows "parse_lines n (render_topics d) st =
    Ok (if d_topics d = [d_snake_name d] then st else st\<lparr>ps_topics := Some (d_topics d)\<rparr>)"
  using assms parse_line_topics [of "d_topics d" n st] by (auto simp: render_topics_def wf_msg_def)

lemma parse_render_lines:
  assumes "wf_msg d"
  shows "parse_lines n (render_lines d) init_state =
    Ok \<lparr>ps_fields = d_fields d, ps_constants = d_constants d,
        ps_topics = (if d_topics d = [d_snake_name d] then None else Some (d_topics d))\<rparr>"
proof -
  have "\<forall>f \<in> set (d_fields d). wf_field f" and "\<forall>c \<in> set (d_constants d). wf_const c"
    using assms by (auto simp: wf_msg_def)
  then show ?thesis
    unfolding render_lines_def
    by (simp add: parse_lines_append parse_lines_topics [OF assms] parse_lines_fields
        parse_lines_consts init_state_def)
qed

lemma lf_cr_ws [simp]: "is_ws (CHR 0x0A)" "is_ws (CHR 0x0D)"
  by (simp_all add: is_ws_def)

lemma last_not_ws_cr: "\<not> is_ws (last l) \<Longrightarrow> last l \<noteq> CHR 0x0D"
  by (metis lf_cr_ws(2))

lemma token_no_lf: "token w \<Longrightarrow> CHR 0x0A \<notin> set w"
  by (auto simp: token_def)

lemma render_field_line:
  assumes "wf_field f"
  shows "CHR 0x0A \<notin> set (render_field f) \<and> last (render_field f) \<noteq> CHR 0x0D"
proof -
  have "token (field_token (f_ty f))" and "token (f_name f)"
    using assms field_token_ident by (auto simp: wf_field_def ident_token_def)
  then show ?thesis
    using token_hd_last [of "f_name f"] token_no_lf
    by (auto simp: render_field_def dest: last_not_ws_cr)
qed

lemma render_const_line:
  assumes "wf_const c"
  shows "CHR 0x0A \<notin> set (render_const c) \<and> last (render_const c) \<noteq> CHR 0x0D"
proof -
  have "token (px4_name (c_ty c))" and "token (c_name c)"
    using assms px4_name_token by (auto simp: wf_const_def ident_token_def)
  moreover have "CHR 0x0A \<notin> set (c_value c)" and v: "trim (c_value c) = c_value c"
    using assms by (auto simp: wf_const_def)
  moreover have "c_value c \<noteq> [] \<Longrightarrow> last (c_value c) \<noteq> CHR 0x0D"
    using v trim_hd_last(2) [of "c_value c"] by (auto dest: last_not_ws_cr)
  ultimately show ?thesis
    by (cases "c_value c = []") (auto simp: render_const_def dest: token_no_lf)
qed

lemma render_topics_line:
  assumes "wf_msg d" and "l \<in> set (render_topics d)"
  shows "CHR 0x0A \<notin> set l \<and> last l \<noteq> CHR 0x0D"
proof -
  from assms have l: "l = ''# TOPICS'' @ concat (map ((#) (CHR '' '')) (d_topics d))"
    and wf: "wf_topics (d_topics d)"
    by (auto simp: render_topics_def wf_msg_def split: if_splits)
  then obtain us u where ts: "d_topics d = us @ [u]" and u: "token u"
    by (cases "d_topics d" rule: rev_cases) (auto simp: wf_topics_def)
  have "CHR 0x0A \<notin> set l" using wf l by (auto simp: wf_topics_def dest: token_no_lf)
  moreover have "last l = last u" using l ts token_hd_last [OF u] by simp
  ultimately show ?thesis using token_hd_last [OF u] last_not_ws_cr by metis
qed

lemma lines_render_msg:
  assumes "wf_msg d"
  shows "lines (render_msg d) = render_lines d"
  unfolding render_msg_def
proof (rule lines_render, intro ballI)
  fix l
  assume "l \<in> set (render_lines d)"
  then have "CHR 0x0A \<notin> set l \<and> last l \<noteq> CHR 0x0D"
    using assms render_topics_line [OF assms] render_field_line render_const_line
    by (auto simp: render_lines_def wf_msg_def)
  then show "CHR 0x0A \<notin> set l \<and> (l = [] \<or> last l \<noteq> CHR 0x0D)" by blast
qed

lemma parse_str_render:
  assumes "wf_msg d"
  shows "parse_str (d_name d) (render_msg d) = Ok d"
proof -
  let ?st = "\<lparr>ps_fields = d_fields d, ps_constants = d_constants d,
      ps_topics = (if d_topics d = [d_snake_name d] then None else Some (d_topics d))\<rparr>"
  have "parse_str (d_name d) (render_msg d) = Ok (finish (d_name d) ?st)"
    using parse_render_lines [OF assms, of 1] by (simp add: parse_str_def lines_render_msg [OF assms])
  also have "finish (d_name d) ?st = d"
    using assms by (intro msg_def.equality) (auto simp: finish_def wf_msg_def Let_def)
  finally show ?thesis .
qed

subsection \<open>What the parser returns\<close>

lemma ident_tokenI:
  "w \<in> set (split_whitespace l) \<Longrightarrow> CHR ''#'' \<notin> set l \<Longrightarrow> CHR ''='' \<notin> set l \<Longrightarrow> ident_token w"
  using split_whitespace_token split_whitespace_chars unfolding ident_token_def by blast

lemma parse_field_wf:
  assumes "parse_field n code st = Ok st'" and "wf_state st"
    and "CHR ''#'' \<notin> set code" and "CHR ''='' \<notin> set code"
  shows "wf_state st'"
proof -
  from assms(1) obtain a b ty where sp: "split_whitespace code = [a, b]"
    and ty: "parse_field_type a = Some ty"
    and st': "st' = st\<lparr>ps_fields := ps_fields st @ [\<lparr>f_name = b, f_ty = ty\<rparr>]\<rparr>"
    by (auto simp: parse_field_def split: list.splits)
  have "ident_token b" using sp assms(3,4) by (intro ident_tokenI [of b code]) auto
  then show ?thesis
    using assms(2) parse_field_type_wf [OF ty] by (auto simp: st' wf_state_def wf_field_def)
qed

lemma parse_constant_wf:
  assumes "parse_constant n lhs rhs st = Ok st'" and "wf_state st"
    and "CHR ''#'' \<notin> set lhs" and "CHR ''='' \<notin> set lhs"
    and "trim rhs = rhs" and "CHR ''#'' \<notin> set rhs" and "CHR 0x0A \<notin> set rhs"
  shows "wf_state st'"
proof -
  from assms(1) obtain a b ty where sp: "split_whitespace lhs = [a, b]"
    and st': "st' = st\<lparr>ps_constants := ps_constants st @ [\<lparr>c_ty = ty, c_name = b, c_value = rhs\<rparr>]\<rparr>"
    by (auto simp: parse_constant_def split: list.splits)
  have "ident_token b" using sp assms(3,4) by (intro ident_tokenI [of b lhs]) auto
  then show ?thesis
    using assms(2,5-7) by (auto simp: st' wf_state_def wf_const_def)
qed

lemma set_take_drop_sub: "set (trim (take i s)) \<subseteq> set s" "set (trim (drop i s)) \<subseteq> set s"
  using trim_set set_take_subset set_drop_subset by (meson subset_trans)+

lemma parse_code_wf:
  assumes "parse_code n code st = Ok st'" and "wf_state st"
    and "CHR ''#'' \<notin> set code" and "CHR 0x0A \<notin> set code"
  shows "wf_state st'"
proof (cases "find_char (CHR ''='') code")
  case None
  then show ?thesis
    using assms parse_field_wf [of n code st st'] by (auto simp: parse_code_def split: if_splits)
next
  case (Some i)
  let ?lhs = "trim (take i code)" and ?rhs = "trim (drop (i + 1) code)"
  have "CHR ''='' \<notin> set ?lhs" using find_char_Some [OF Some] trim_set [of "take i code"] by blast
  moreover have "CHR ''#'' \<notin> set ?lhs" "CHR ''#'' \<notin> set ?rhs" "CHR 0x0A \<notin> set ?rhs"
    using assms(3,4) set_take_drop_sub by blast+
  moreover have "code \<noteq> []" using Some by auto
  ultimately show ?thesis
    using assms Some parse_constant_wf [of n ?lhs ?rhs st st'] by (simp add: parse_code_def)
qed

lemma strip_comment_props:
  "CHR ''#'' \<notin> set (strip_comment l)" "set (strip_comment l) \<subseteq> set l"
proof -
  show "CHR ''#'' \<notin> set (strip_comment l)"
    using find_char_Some [of "CHR ''#''" l] trim_set [of "take i l" for i]
    by (fastforce simp: strip_comment_def split: option.splits)
  show "set (strip_comment l) \<subseteq> set l"
    using set_take_drop_sub by (auto simp: strip_comment_def split: option.splits)
qed

lemma parse_comment_wf:
  "parse_comment n rest st = Ok st' \<Longrightarrow> wf_state st \<Longrightarrow> wf_state st'"
  by (auto simp: parse_comment_def Let_def wf_state_def wf_topics_def split: option.splits if_splits
      dest: split_whitespace_token)

lemma parse_line_wf:
  assumes "parse_line n l st = Ok st'" and "wf_state st" and "CHR 0x0A \<notin> set l"
  shows "wf_state st'"
proof (cases "strip_prefix ''#'' (trim l)")
  case None
  have "CHR 0x0A \<notin> set (strip_comment (trim l))"
    using assms(3) strip_comment_props(2) trim_set by blast
  then show ?thesis
    using assms None parse_code_wf strip_comment_props(1) by (auto simp: parse_line_def)
next
  case (Some r)
  then show ?thesis using assms parse_comment_wf by (auto simp: parse_line_def)
qed

lemma parse_lines_wf:
  "parse_lines n ls st = Ok st' \<Longrightarrow> wf_state st \<Longrightarrow> \<forall>l \<in> set ls. CHR 0x0A \<notin> set l \<Longrightarrow> wf_state st'"
  by (induction ls arbitrary: n st) (auto dest: parse_line_wf)

lemma lines_no_lf: "l \<in> set (lines s) \<Longrightarrow> CHR 0x0A \<notin> set l"
  unfolding lines_def by (rule lines_from_no_lf) auto

lemma parse_str_wf_msg:
  assumes "parse_str name text = Ok d"
  shows "wf_msg d" and "d_name d = name"
proof -
  from assms obtain st where st: "parse_lines 1 (lines text) init_state = Ok st"
    and d: "d = finish name st" by (auto simp: parse_str_def)
  have "wf_state init_state" by (simp add: wf_state_def init_state_def)
  then have "wf_state st"
    using parse_lines_wf [OF st] lines_no_lf by blast
  then show "wf_msg d"
    by (auto simp: d wf_msg_def finish_def Let_def wf_state_def split: option.splits)
  show "d_name d = name" by (simp add: d finish_def Let_def)
qed

subsection \<open>Where an error is reported\<close>

lemma parse_line_error:
  "parse_line n l st = Err e \<Longrightarrow> \<exists>m. e = Syntax n m"
  by (auto simp: parse_line_def parse_comment_def parse_code_def parse_constant_def parse_field_def
      Let_def ok_or_def split: option.splits list.splits if_splits)

lemma parse_lines_error:
  "parse_lines n ls st = Err e \<Longrightarrow>
     \<exists>i m st'. i < length ls \<and> e = Syntax (n + i) m \<and>
       parse_lines n (take i ls) st = Ok st' \<and> parse_line (n + i) (ls ! i) st' = Err e"
proof (induction ls arbitrary: n st)
  case Nil
  then show ?case by simp
next
  case (Cons l ls)
  show ?case
  proof (cases "parse_line n l st")
    case (Inl e')
    then show ?thesis
      using Cons.prems parse_line_error [OF Inl] by (intro exI [of _ 0]) auto
  next
    case (Inr st1)
    with Cons.prems have "parse_lines (n + 1) ls st1 = Err e" by simp
    from Cons.IH [OF this] obtain i m st' where
      "i < length ls" "e = Syntax (n + 1 + i) m"
      "parse_lines (n + 1) (take i ls) st1 = Ok st'" "parse_line (n + 1 + i) (ls ! i) st' = Err e"
      by blast
    with Inr show ?thesis by (intro exI [of _ "Suc i"]) auto
  qed
qed

subsection \<open>Comments\<close>

lemma parse_line_trailing_comment:
  assumes "CHR ''#'' \<notin> set l" and "trim l \<noteq> []"
  shows "parse_line n (l @ CHR ''#'' # cmt) st = parse_line n l st"
proof -
  let ?s = "trim_start l"
  have ne: "?s \<noteq> []" using assms(2) by (auto simp: trim_def trim_end_def)
  then have ts: "trim_start (l @ CHR ''#'' # cmt) = ?s @ CHR ''#'' # cmt"
    unfolding trim_start_def by (simp add: dropWhile_append)
  obtain q where q: "?s @ CHR ''#'' # cmt = trim_end (?s @ CHR ''#'' # cmt) @ q" "\<forall>c \<in> set q. is_ws c"
    using trim_end_prefix by metis
  have "length q \<le> length cmt"
  proof (rule ccontr)
    assume "\<not> length q \<le> length cmt"
    then have "\<exists>r. q = r @ CHR ''#'' # cmt"
      using q(1) by (auto simp: append_eq_append_conv2 append_eq_Cons_conv Cons_eq_append_conv)
    then show False using q(2) by auto
  qed
  then have "trim_end (?s @ CHR ''#'' # cmt) = ?s @ CHR ''#'' # take (length cmt - length q) cmt"
    using arg_cong [OF q(1), of "take (length ?s + 1 + (length cmt - length q))"]
      arg_cong [OF q(1), of length] by (simp add: Suc_diff_le)
  then obtain r where r: "trim_end (?s @ CHR ''#'' # cmt) = ?s @ CHR ''#'' # r"
    by blast
  have trimmed: "trim (l @ CHR ''#'' # cmt) = ?s @ CHR ''#'' # r"
    by (simp add: trim_def ts r)
  have no_hash: "CHR ''#'' \<notin> set ?s" "CHR ''#'' \<notin> set (trim l)"
    using assms(1) trim_start_set trim_set by blast+
  have "trim ?s = trim l"
    by (simp add: trim_def trim_start_def)
  then have "strip_comment (?s @ CHR ''#'' # r) = trim l"
    using find_char_app [OF no_hash(1), of r] by (simp add: strip_comment_def)
  moreover have "strip_comment (trim l) = trim l"
    using no_hash(2) by (simp add: strip_comment_def)
  moreover have "strip_prefix ''#'' (?s @ CHR ''#'' # r) = None" and "strip_prefix ''#'' (trim l) = None"
    using ne no_hash by (auto simp: strip_prefix_char Cons_eq_append_conv append_eq_Cons_conv split: list.splits)
  ultimately show ?thesis by (simp add: parse_line_def trimmed)
qed

text \<open>Definitions that evaluate the parser on a concrete text.\<close>

lemmas parser_eval = str_eval parse_str_def parse_line_def parse_comment_def parse_code_def
  parse_constant_def parse_field_def parse_field_type_def is_camel_case_def scalar_parse_def
  strip_comment_def init_state_def finish_def message_version_def camel_to_snake_def snake_char_def
  needs_underscore_def to_ascii_lowercase_def char_of_def bit_Suc_0_iff

section \<open>Properties\<close>

text \<open>
  C20: whatever \<open>parse_str\<close> accepts, rendering the message it returns as plain \<open>.msg\<close> text
  (the topics directive, one line per constant, one line per field) and parsing that text again
  returns the same message: names, types, array lengths, values, topics and version survive.
\<close>

theorem parse_render_roundtrip:
  assumes "parse_str name text = Ok d"
  shows "parse_str name (render_msg d) = Ok d"
  using parse_str_render parse_str_wf_msg [OF assms] by blast

theorem parse_render_roundtrip_witness:
  "\<exists>d. parse_str ''VehicleOdometry''
        (''uint32 MESSAGE_VERSION = 3 # v'' @ [CHR 0x0A] @ ''float32[3] position'' @ [CHR 0x0A]) = Ok d \<and>
       parse_str ''VehicleOdometry'' (render_msg d) = Ok d \<and> d_message_version d = Some 3 \<and>
       length (d_fields d) = 1"
proof -
  let ?t = "''uint32 MESSAGE_VERSION = 3 # v'' @ [CHR 0x0A] @ ''float32[3] position'' @ [CHR 0x0A]"
  let ?d = "\<lparr>d_name = ''VehicleOdometry'', d_snake_name = ''vehicle_odometry'',
      d_fields = [\<lparr>f_name = ''position'', f_ty = ScalarArray TF32 3\<rparr>],
      d_constants = [\<lparr>c_ty = TU32, c_name = ''MESSAGE_VERSION'', c_value = ''3''\<rparr>],
      d_topics = [''vehicle_odometry''], d_message_version = Some 3\<rparr>"
  have "parse_str ''VehicleOdometry'' ?t = Ok ?d"
    by (simp add: parser_eval)
  with parse_render_roundtrip [OF this] show ?thesis by auto
qed

text \<open>
  C22: what \<open>parse_str\<close> accepts is well formed, whatever the text: every field has a type the model knows (a nested
  type by a camel-case name, an array length that fits \<open>usize\<close>) whose printed token is that type again, names are
  single tokens without comment or assignment characters, constants have a trimmed value, and there is at least one topic.
\<close>

theorem parser_output_typed:
  assumes "parse_str name text = Ok d"
  shows "wf_msg d \<and> d_name d = name \<and> d_topics d \<noteq> [] \<and>
    list_all (\<lambda>f. wf_type (f_ty f) \<and> parse_field_type (field_token (f_ty f)) = Some (f_ty f)) (d_fields d)"
proof -
  have "wf_msg d" by (rule parse_str_wf_msg [OF assms])
  moreover from this have "d_topics d \<noteq> []" by (auto simp: wf_msg_def wf_topics_def)
  ultimately show ?thesis
    using parse_str_wf_msg(2) [OF assms] parse_field_type_token
    by (auto simp: list_all_iff wf_msg_def wf_field_def)
qed

theorem parser_output_typed_witness:
  "\<exists>d. parse_str ''Track'' ''Point[2] points'' = Ok d \<and> d_fields d = [\<lparr>f_name = ''points'', f_ty = NestedArray ''Point'' 2\<rparr>] \<and>
     wf_msg d \<and> d_topics d \<noteq> []"
proof -
  let ?d = "\<lparr>d_name = ''Track'', d_snake_name = ''track'', d_fields = [\<lparr>f_name = ''points'', f_ty = NestedArray ''Point'' 2\<rparr>],
      d_constants = [], d_topics = [''track''], d_message_version = None\<rparr>"
  have "parse_str ''Track'' ''Point[2] points'' = Ok ?d" by (simp add: parser_eval)
  with parser_output_typed [OF this] show ?thesis by auto
qed

text \<open>
  A field type that the parser accepts is well formed (a camel-case nested name, an array
  length that fits \<open>usize\<close>), and the token that \<open>message_hash\<close> prints for it parses to the
  same type: the hashed field string determines the types of the fields.
\<close>

theorem field_type_roundtrip:
  assumes "parse_field_type tok = Some ty"
  shows "wf_type ty \<and> parse_field_type (field_token ty) = Some ty"
  using parse_field_type_wf [OF assms] parse_field_type_token by blast

theorem field_type_roundtrip_witness:
  "parse_field_type ''PositionSetpoint[+03]'' = Some (NestedArray ''PositionSetpoint'' 3) \<and>
   parse_field_type (field_token (NestedArray ''PositionSetpoint'' 3)) =
     Some (NestedArray ''PositionSetpoint'' 3)"
proof -
  have "parse_field_type ''PositionSetpoint[+03]'' = Some (NestedArray ''PositionSetpoint'' 3)"
    by (simp add: parser_eval)
  with field_type_roundtrip [OF this] show ?thesis by blast
qed

text \<open>
  C21: an error of \<open>parse_str\<close> is a syntax error at the first faulty line: its line number is a
  line of the text (counted from 1), all lines before it parse, and that line, parsed alone in the
  state they leave, is what raises it.
\<close>

theorem parse_error_first_line:
  assumes "parse_str name text = Err e"
  shows "\<exists>i m st. e = Syntax (i + 1) m \<and> i < length (lines text) \<and>
    parse_lines 1 (take i (lines text)) init_state = Ok st \<and>
    parse_line (i + 1) (lines text ! i) st = Err e"
proof -
  have "parse_lines 1 (lines text) init_state = Err e"
    using assms by (cases "parse_lines 1 (lines text) init_state") (auto simp: parse_str_def)
  then show ?thesis using parse_lines_error [of 1 "lines text" init_state e] by fastforce
qed

theorem parse_error_first_line_witness:
  "parse_str ''M'' (''uint8 a'' @ [CHR 0x0A] @ ''uint9 b'') =
     Err (Syntax 2 ''cannot parse field type `uint9`'') \<and>
   (\<exists>i m st. Syntax 2 ''cannot parse field type `uint9`'' = Syntax (i + 1) m \<and>
     i < length (lines (''uint8 a'' @ [CHR 0x0A] @ ''uint9 b'')) \<and>
     parse_lines 1 (take i (lines (''uint8 a'' @ [CHR 0x0A] @ ''uint9 b''))) init_state = Ok st \<and>
     parse_line (i + 1) (lines (''uint8 a'' @ [CHR 0x0A] @ ''uint9 b'') ! i) st =
       Err (Syntax 2 ''cannot parse field type `uint9`''))"
proof -
  have "parse_str ''M'' (''uint8 a'' @ [CHR 0x0A] @ ''uint9 b'') =
      Err (Syntax 2 ''cannot parse field type `uint9`'')"
    by (simp add: parser_eval)
  with parse_error_first_line [OF this] show ?thesis by blast
qed

text \<open>
  A trailing comment changes nothing: on a line with code and no \<open>#\<close>, appending \<open>#\<close>
  and any text gives the same result, error or state, as the line alone.
\<close>

theorem trailing_comment_ignored:
  assumes "CHR ''#'' \<notin> set l" and "trim l \<noteq> []"
  shows "parse_line n (l @ CHR ''#'' # cmt) st = parse_line n l st"
  using assms by (rule parse_line_trailing_comment)

theorem trailing_comment_ignored_witness:
  "parse_line 4 (''uint8 x '' @ CHR ''#'' # '' a = b'') init_state =
     Ok (init_state\<lparr>ps_fields := [\<lparr>f_name = ''x'', f_ty = Scalar TU8\<rparr>]\<rparr>)"
proof -
  have "CHR ''#'' \<notin> set ''uint8 x ''" and "trim ''uint8 x '' \<noteq> []"
    by (simp_all add: parser_eval)
  from trailing_comment_ignored [OF this, of 4 "'' a = b''" init_state]
  have "parse_line 4 (''uint8 x '' @ CHR ''#'' # '' a = b'') init_state =
      parse_line 4 ''uint8 x '' init_state" .
  also have "\<dots> = Ok (init_state\<lparr>ps_fields := [\<lparr>f_name = ''x'', f_ty = Scalar TU8\<rparr>]\<rparr>)"
    by (simp add: parser_eval)
  finally show ?thesis .
qed

end
