(* ===== verification/Msg_Layout.thy ===== *)
theory Msg_Layout
  imports Msg_Parser "HOL-Library.Multiset"
begin

text \<open>
  \<open>crates/px4-msg-codegen/src/layout.rs\<close>: the message hash, the file look-up and the struct
  layout with its cache. \<open>usize\<close> is a \<open>nat\<close> below \<open>2 ^ 64\<close>; an addition or a
  multiplication that leaves that range is the panic of a build with overflow checks
  (\<open>Overflow\<close>). The recursion over nested messages follows files, which may refer to each
  other in a circle, so it takes fuel: \<open>NoFuel\<close> is a recursion that has not ended. The file
  system is a record of functions.
\<close>

section \<open>FNV-1a\<close>

definition fnv_offset :: "32 word" where
  "fnv_offset = 0x811c9dc5"

definition fnv_prime :: "32 word" where
  "fnv_prime = 0x01000193"

definition fnv_step :: "32 word \<Rightarrow> 8 word \<Rightarrow> 32 word" where
  "fnv_step hash b = (hash XOR ucast b) * fnv_prime"

definition fnv1a_32 :: "string \<Rightarrow> 32 word" where
  "fnv1a_32 data = foldl fnv_step fnv_offset (bytes data)"

section \<open>Data\<close>

datatype laid_out_field =
    Real msg_field
  | Padding nat nat

record laid_out_msg =
  l_name :: string
  l_snake_name :: string
  l_fields :: "laid_out_field list"
  l_constants :: "msg_const list"
  l_topics :: "string list"
  l_size :: nat
  l_message_hash :: "32 word"

datatype gen_error =
    ParseErr parse_error
  | Overflow
  | NoFuel

type_synonym cache = "string \<rightharpoonup> laid_out_msg"

record files =
  is_file :: "string \<Rightarrow> bool"
  read_to_string :: "string \<Rightarrow> string + string"

section \<open>Numbers and files\<close>

definition usize_add :: "nat \<Rightarrow> nat \<Rightarrow> gen_error + nat" where
  "usize_add a b = (if a + b < 2 ^ 64 then Ok (a + b) else Err Overflow)"

definition usize_mul :: "nat \<Rightarrow> nat \<Rightarrow> gen_error + nat" where
  "usize_mul a b = (if a * b < 2 ^ 64 then Ok (a * b) else Err Overflow)"

definition ALIGN_TO :: nat where
  "ALIGN_TO = 8"

definition align_gap :: "nat \<Rightarrow> nat \<Rightarrow> nat" where
  "align_gap pos align = (let rem = pos mod align in if rem = 0 then 0 else align - rem)"

text \<open>\<open>Path::join\<close>.\<close>

definition path_join :: "string \<Rightarrow> string \<Rightarrow> string" where
  "path_join dir file =
     (if file \<noteq> [] \<and> hd file = CHR ''/'' \<or> dir = [] then file
      else if last dir = CHR ''/'' then dir @ file
      else dir @ ''/'' @ file)"

fun find_in :: "files \<Rightarrow> string list \<Rightarrow> string \<Rightarrow> string option" where
  "find_in fs [] file = None"
| "find_in fs (dir # dirs) file =
     (let p = path_join dir file in if is_file fs p then Some p else find_in fs dirs file)"

definition find_msg :: "files \<Rightarrow> string list \<Rightarrow> string \<Rightarrow> gen_error + string" where
  "find_msg fs search name =
     ok_or (find_in fs search (name @ ''.msg'')) (ParseErr (UnresolvedNested name))"

definition parse_at :: "files \<Rightarrow> string \<Rightarrow> gen_error + msg_def" where
  "parse_at fs path =
     (case parse_file (read_to_string fs) path of Inl e \<Rightarrow> Err (ParseErr e) | Inr d \<Rightarrow> Ok d)"

definition load_msg :: "files \<Rightarrow> string list \<Rightarrow> string \<Rightarrow> gen_error + msg_def" where
  "load_msg fs search name = res_bind (find_msg fs search name) (parse_at fs)"

section \<open>The message hash\<close>

definition hash_line :: "msg_field \<Rightarrow> string" where
  "hash_line f = field_token (f_ty f) @ '' '' @ f_name f @ [CHR 0x0A]"

fun nested_name :: "field_type \<Rightarrow> string option" where
  "nested_name (Nested name) = Some name"
| "nested_name (NestedArray name n) = Some name"
| "nested_name ty = None"

text \<open>
  \<open>message_hash_fields\<close> appends to its \<open>out\<close> argument; here it returns what it appends.
\<close>

fun message_hash_fields ::
  "files \<Rightarrow> string list \<Rightarrow> nat \<Rightarrow> msg_field list \<Rightarrow> gen_error + string" where
  "message_hash_fields fs search k [] = Ok []"
| "message_hash_fields fs search k (f # rest) =
     res_bind
       (case nested_name (f_ty f) of
          None \<Rightarrow> Ok []
        | Some name \<Rightarrow>
            res_bind (load_msg fs search name)
              (\<lambda>nested. case k of
                 0 \<Rightarrow> Err NoFuel
               | Suc k' \<Rightarrow> message_hash_fields fs search k' (d_fields nested)))
       (\<lambda>inner. res_bind (message_hash_fields fs search k rest)
          (\<lambda>tail. Ok (hash_line f @ inner @ tail)))"

definition message_hash :: "files \<Rightarrow> string list \<Rightarrow> nat \<Rightarrow> msg_def \<Rightarrow> gen_error + 32 word" where
  "message_hash fs search k def =
     res_bind (message_hash_fields fs search k (d_fields def)) (\<lambda>s. Ok (fnv1a_32 s))"

section \<open>The layout\<close>

fun field_sort_size :: "field_type \<Rightarrow> nat" where
  "field_sort_size (Scalar s) = scalar_size s"
| "field_sort_size (ScalarArray s n) = scalar_size s"
| "field_sort_size (Nested name) = 0"
| "field_sort_size (NestedArray name n) = 0"

text \<open>
  The functions below take \<open>nested\<close>, the layout of a message by its name
  (\<open>layout_by_name\<close> with the remaining fuel).
\<close>

type_synonym nested_layout = "string \<Rightarrow> (cache, gen_error, laid_out_msg) st_res"

fun field_total_size ::
  "nested_layout \<Rightarrow> field_type \<Rightarrow> (cache, gen_error, nat) st_res" where
  "field_total_size nested (Scalar s) = st_ok (scalar_size s)"
| "field_total_size nested (ScalarArray s n) = st_lift (usize_mul (scalar_size s) n)"
| "field_total_size nested (Nested name) =
     st_bind (nested name) (\<lambda>l. st_ok (l_size l))"
| "field_total_size nested (NestedArray name n) =
     st_bind (nested name) (\<lambda>l. st_lift (usize_mul (l_size l) n))"

record place =
  p_out :: "laid_out_field list"
  p_size :: nat
  p_pad :: nat

text \<open>Push \<open>pad\<close> bytes of padding, if any.\<close>

definition push_padding :: "nat \<Rightarrow> place \<Rightarrow> gen_error + place" where
  "push_padding pad p =
     (if pad > 0
      then res_bind (usize_add (p_size p) pad)
             (\<lambda>sz. Ok \<lparr>p_out = p_out p @ [Padding (p_pad p) pad], p_size = sz, p_pad = p_pad p + 1\<rparr>)
      else Ok p)"

definition push_real :: "msg_field \<Rightarrow> nat \<Rightarrow> place \<Rightarrow> gen_error + place" where
  "push_real field field_size p =
     res_bind (usize_add (p_size p) field_size)
       (\<lambda>sz. Ok (p\<lparr>p_out := p_out p @ [Real field], p_size := sz\<rparr>))"

definition place_field ::
  "nested_layout \<Rightarrow> msg_field \<Rightarrow> place \<Rightarrow> (cache, gen_error, place) st_res" where
  "place_field nested field p =
     st_bind (field_total_size nested (f_ty field))
       (\<lambda>field_size. st_lift
          (res_bind
             (if nested_name (f_ty field) \<noteq> None
              then push_padding (align_gap (p_size p) ALIGN_TO) p
              else Ok p)
             (push_real field field_size)))"

fun place_fields ::
  "nested_layout \<Rightarrow> msg_field list \<Rightarrow> place \<Rightarrow> (cache, gen_error, place) st_res" where
  "place_fields nested [] p = st_ok p"
| "place_fields nested (f # fs) p = st_bind (place_field nested f p) (place_fields nested fs)"

text \<open>\<open>sort_by(|a, b| b.0.cmp(&a.0))\<close> is a stable sort on the negated size.\<close>

definition sort_fields :: "msg_field list \<Rightarrow> msg_field list" where
  "sort_fields fds =
     (let sized = map (\<lambda>f. (field_sort_size (f_ty f), f)) fds
      in map snd (sort_key (\<lambda>p. - int (fst p)) sized))"

definition empty_place :: place where
  "empty_place = \<lparr>p_out = [], p_size = 0, p_pad = 0\<rparr>"

definition place_all ::
  "nested_layout \<Rightarrow> msg_field list \<Rightarrow> (cache, gen_error, place) st_res" where
  "place_all nested fds =
     st_bind (place_fields nested (sort_fields fds) empty_place)
       (\<lambda>p. st_lift (push_padding (align_gap (p_size p) ALIGN_TO) p))"

definition laid_out :: "msg_def \<Rightarrow> place \<Rightarrow> 32 word \<Rightarrow> laid_out_msg" where
  "laid_out def p h =
     \<lparr>l_name = d_name def, l_snake_name = d_snake_name def, l_fields = p_out p,
      l_constants = d_constants def, l_topics = d_topics def, l_size = p_size p,
      l_message_hash = h\<rparr>"

definition cache_insert :: "string \<Rightarrow> laid_out_msg \<Rightarrow> (cache, gen_error, laid_out_msg) st_res" where
  "cache_insert name l c = (Ok l, c(name \<mapsto> l))"

definition layout_body ::
  "files \<Rightarrow> string list \<Rightarrow> nat \<Rightarrow> nested_layout \<Rightarrow> msg_def \<Rightarrow>
     (cache, gen_error, laid_out_msg) st_res" where
  "layout_body fs search k nested def =
     st_bind (place_all nested (d_fields def))
       (\<lambda>p. st_bind (st_lift (message_hash fs search k def))
          (\<lambda>h. cache_insert (d_name def) (laid_out def p h)))"

fun layout_by_name ::
  "files \<Rightarrow> string list \<Rightarrow> nat \<Rightarrow> string \<Rightarrow> (cache, gen_error, laid_out_msg) st_res" where
  "layout_by_name fs search 0 name c = (Err NoFuel, c)"
| "layout_by_name fs search (Suc k) name c =
     (case c name of
        Some cached \<Rightarrow> (Ok cached, c)
      | None \<Rightarrow>
          (case load_msg fs search name of
             Inl e \<Rightarrow> (Err e, c)
           | Inr def \<Rightarrow> layout_body fs search k (layout_by_name fs search k) def c))"

definition layout ::
  "files \<Rightarrow> string list \<Rightarrow> nat \<Rightarrow> msg_def \<Rightarrow> (cache, gen_error, laid_out_msg) st_res" where
  "layout fs search k def = layout_body fs search k (layout_by_name fs search k) def"

text \<open>\<open>rust_type_for\<close>: the type text of a field of the generated struct.\<close>

fun rust_type_for :: "field_type \<Rightarrow> string" where
  "rust_type_for (Scalar s) = rust_type s"
| "rust_type_for (ScalarArray s n) = ''['' @ rust_type s @ ''; '' @ show_nat n @ '']''"
| "rust_type_for (Nested name) = name"
| "rust_type_for (NestedArray name n) = ''['' @ name @ ''; '' @ show_nat n @ '']''"

end
