(* ===== verification/Layout_Facts.thy ===== *)
theory Layout_Facts
  imports Msg_Layout
begin

text \<open>
  The resolver of \<open>layout.rs\<close> against the files: the file of a message has the message's name, the
  cache holds only what the files alone give, and more fuel changes no result. The properties
  stand in \<open>Layout_Repr\<close>.
\<close>

section \<open>Numbers\<close>

lemma usize_add_Ok [simp]: "usize_add a b = Ok c \<longleftrightarrow> c = a + b \<and> a + b < 2 ^ 64"
  by (auto simp: usize_add_def)

lemma usize_mul_Ok [simp]: "usize_mul a b = Ok c \<longleftrightarrow> c = a * b \<and> a * b < 2 ^ 64"
  by (auto simp: usize_mul_def)

lemma align_gap_lt: "0 < a \<Longrightarrow> align_gap p a < a"
  by (auto simp: align_gap_def Let_def)

lemma align_gap_dvd: "0 < a \<Longrightarrow> a dvd p + align_gap p a"
proof -
  assume a: "0 < a"
  have eq: "p + (a - p mod a) = (p - p mod a) + a"
    using mod_less_divisor [OF a, of p] mod_less_eq_dividend [of p a] by linarith
  have "a dvd p + (a - p mod a)" unfolding eq by (intro dvd_add dvd_refl dvd_minus_mod)
  then show ?thesis by (cases "p mod a = 0") (simp_all add: align_gap_def Let_def mod_eq_0_iff_dvd)
qed

lemma align_gap_0: "0 < a \<Longrightarrow> align_gap p a = 0 \<longleftrightarrow> a dvd p"
proof -
  assume "0 < a"
  then have "p mod a < a" by simp
  then show ?thesis by (auto simp: align_gap_def Let_def mod_eq_0_iff_dvd)
qed

section \<open>The file of a message\<close>

lemma camel_file_chars:
  assumes "is_camel_case name"
  shows "CHR ''/'' \<notin> set name" and "CHR ''.'' \<notin> set name"
proof -
  have "\<not> (is_ascii_alphanumeric (CHR ''/'') \<or> CHR ''/'' = CHR ''_'')"
    "\<not> (is_ascii_alphanumeric (CHR ''.'') \<or> CHR ''.'' = CHR ''_'')"
    by (simp_all add: char_class_defs)
  then show "CHR ''/'' \<notin> set name" and "CHR ''.'' \<notin> set name"
    using camel_chars [OF assms] by blast+
qed

lemma stem_of_msg:
  assumes "is_camel_case name"
  shows "stem_of (name @ ''.msg'') = name"
proof -
  have ne: "name \<noteq> []" and dot: "CHR ''.'' \<notin> set name"
    using camel_hd [OF assms] camel_file_chars [OF assms] by auto
  have "dropWhile (\<lambda>c. c \<noteq> CHR ''.'') (rev (name @ ''.msg'')) = CHR ''.'' # rev name"
    by simp
  moreover have "CHR ''.'' \<in> set (tl (name @ ''.msg''))" using ne by (cases name) auto
  ultimately show ?thesis by (simp add: stem_of_def)
qed

lemma split_on_last:
  assumes "CHR ''/'' \<notin> set t"
  shows "\<exists>pre. split_on (CHR ''/'') (path_join dir t) = pre @ [t]"
proof (cases "t \<noteq> [] \<and> hd t = CHR ''/'' \<or> dir = []")
  case True
  then have "dir = []" using assms by (cases t) auto
  with assms show ?thesis by (simp add: path_join_def split_on_none)
next
  case False
  show ?thesis
  proof (cases "last dir = CHR ''/''")
    case True
    with False have "path_join dir t = butlast dir @ CHR ''/'' # t"
      by (simp add: path_join_def) (metis append_butlast_last_id append_Cons append_Nil append_assoc)
    then show ?thesis by (simp add: split_on_app [OF assms])
  next
    case no: False
    from False no have "path_join dir t = dir @ CHR ''/'' # t" by (simp add: path_join_def)
    then show ?thesis by (simp add: split_on_app [OF assms])
  qed
qed

lemma file_stem_join:
  assumes "is_camel_case name"
  shows "file_stem (path_join dir (name @ ''.msg'')) = Some name"
proof -
  let ?t = "name @ ''.msg''"
  have "CHR ''/'' \<notin> set ?t" using camel_file_chars [OF assms] by simp
  from split_on_last [OF this, of dir] obtain pre
    where "split_on (CHR ''/'') (path_join dir ?t) = pre @ [?t]" by blast
  moreover have "?t \<noteq> []" "?t \<noteq> ''.''" "?t \<noteq> ''..''"
    by (cases name rule: rev_cases; simp)+
  ultimately have "file_name (path_join dir ?t) = Some ?t"
    by (simp add: file_name_def Let_def)
  then show ?thesis by (simp only: file_stem_def option.map stem_of_msg [OF assms])
qed

lemma find_in_join: "find_in fs dirs file = Some p \<Longrightarrow> \<exists>dir \<in> set dirs. p = path_join dir file"
  by (induction dirs) (auto simp: Let_def split: if_splits)

lemma load_msg_Ok:
  assumes "load_msg fs search name = Ok d" and "is_camel_case name"
  shows "d_name d = name \<and> wf_msg d"
proof -
  from assms(1) obtain p where p: "find_in fs search (name @ ''.msg'') = Some p"
    and d: "parse_at fs p = Ok d"
    by (auto simp: load_msg_def find_msg_def)
  from find_in_join [OF p] obtain dir where "p = path_join dir (name @ ''.msg'')" by blast
  then have "file_stem p = Some name" using file_stem_join [OF assms(2)] by simp
  with d show ?thesis
    by (auto simp: parse_at_def parse_file_def parse_str_wf_msg split: sum.splits)
qed

section \<open>The resolver without its cache\<close>

text \<open>
  \<open>layout_pre\<close> is \<open>layout_body\<close> before it fills the cache; \<open>pure_by_name\<close> lays a
  message out from the files alone.
\<close>

definition layout_pre ::
  "files \<Rightarrow> string list \<Rightarrow> nat \<Rightarrow> nested_layout \<Rightarrow> msg_def \<Rightarrow>
     (cache, gen_error, laid_out_msg) st_res" where
  "layout_pre fs search k nested def =
     st_bind (place_all nested (d_fields def))
       (\<lambda>p. st_bind (st_lift (message_hash fs search k def)) (\<lambda>h. st_ok (laid_out def p h)))"

definition from_files :: "(string \<Rightarrow> gen_error + laid_out_msg) \<Rightarrow> nested_layout" where
  "from_files r name c = (r name, c)"

fun pure_by_name :: "files \<Rightarrow> string list \<Rightarrow> nat \<Rightarrow> string \<Rightarrow> gen_error + laid_out_msg" where
  "pure_by_name fs search 0 name = Err NoFuel"
| "pure_by_name fs search (Suc k) name =
     res_bind (load_msg fs search name)
       (\<lambda>def. fst (layout_pre fs search k (from_files (pure_by_name fs search k)) def Map.empty))"

lemma layout_body_pre:
  "layout_body fs search k nested def =
     st_bind (layout_pre fs search k nested def) (cache_insert (d_name def))"
  by (rule ext) (simp add: layout_body_def layout_pre_def st_bind_def split: prod.split sum.split)

text \<open>
  A computation \<open>m1\<close> over states in \<open>I\<close> is simulated by \<open>m2 k\<close>, for every large enough
  \<open>k\<close>, over states in \<open>J\<close>: \<open>m1\<close> stays in \<open>I\<close>, and whenever it succeeds, \<open>m2 k\<close> succeeds
  with the same value.
\<close>

definition simulates ::
  "('c \<Rightarrow> bool) \<Rightarrow> ('d \<Rightarrow> bool) \<Rightarrow> ('c, 'e, 'a) st_res \<Rightarrow> (nat \<Rightarrow> ('d, 'e, 'a) st_res) \<Rightarrow> bool" where
  "simulates I J m1 m2 \<longleftrightarrow>
     (\<forall>c r c'. I c \<longrightarrow> m1 c = (r, c') \<longrightarrow>
        I c' \<and> (\<forall>x. r = Ok x \<longrightarrow> (\<exists>K. \<forall>k \<ge> K. \<forall>d. J d \<longrightarrow> (\<exists>d'. m2 k d = (Ok x, d') \<and> J d'))))"

lemma simulates_inv: "simulates I J m1 m2 \<Longrightarrow> I c \<Longrightarrow> m1 c = (r, c') \<Longrightarrow> I c'"
  by (auto simp: simulates_def)

lemma simulates_at:
  assumes "simulates I J m1 m2" and "I c" and "m1 c = (Ok x, c')"
  shows "\<exists>K. \<forall>k \<ge> K. \<forall>d. J d \<longrightarrow> (\<exists>d'. m2 k d = (Ok x, d') \<and> J d')"
  using assms unfolding simulates_def by metis

lemma simulates_const:
  assumes "simulates I J m1 (\<lambda>_. m2)" and "I c" and "m1 c = (Ok x, c')" and "J d"
  shows "\<exists>d'. m2 d = (Ok x, d') \<and> J d'"
  using simulates_at [OF assms(1-3)] assms(4) by (meson order_refl)

lemma simulatesD:
  assumes "simulates I J m1 m2" and "I c" and "m1 c = (Ok x, c')"
  obtains K where "\<And>k d. K \<le> k \<Longrightarrow> J d \<Longrightarrow> \<exists>d'. m2 k d = (Ok x, d') \<and> J d'"
  using assms unfolding simulates_def by metis

lemma simulatesI:
  assumes "\<And>c r c'. I c \<Longrightarrow> m1 c = (r, c') \<Longrightarrow> I c'"
    and "\<And>c x c'. I c \<Longrightarrow> m1 c = (Ok x, c') \<Longrightarrow>
           \<exists>K. \<forall>k \<ge> K. \<forall>d. J d \<longrightarrow> (\<exists>d'. m2 k d = (Ok x, d') \<and> J d')"
  shows "simulates I J m1 m2"
  unfolding simulates_def using assms by blast

lemma sim_ok: "simulates I J (st_ok x) (\<lambda>k. st_ok x)"
  by (simp add: simulates_def)

lemma sim_lift:
  assumes "\<And>x. r = Ok x \<Longrightarrow> \<exists>K. \<forall>k \<ge> K. r' k = Ok x"
  shows "simulates I J (st_lift r) (\<lambda>k. st_lift (r' k))"
  using assms by (fastforce simp: simulates_def)

lemma sim_lift_same: "simulates I J (st_lift r) (\<lambda>k. st_lift r)"
  by (rule sim_lift) auto

lemma sim_bind:
  assumes m: "simulates I J m1 m2" and f: "\<And>x. simulates I J (f1 x) (\<lambda>k. f2 k x)"
  shows "simulates I J (st_bind m1 f1) (\<lambda>k. st_bind (m2 k) (f2 k))"
proof (rule simulatesI)
  fix c r c''
  assume c: "I c" and r: "st_bind m1 f1 c = (r, c'')"
  obtain q c' where q: "m1 c = (q, c')" by fastforce
  have c': "I c'" using simulates_inv [OF m c q] .
  show "I c''"
  proof (cases q)
    case (Inl e)
    with r q c' show ?thesis by (simp add: st_bind_def)
  next
    case (Inr x)
    with r q have "f1 x c' = (r, c'')" by (simp add: st_bind_def)
    then show ?thesis by (rule simulates_inv [OF f c'])
  qed
next
  fix c y c''
  assume c: "I c" and "st_bind m1 f1 c = (Ok y, c'')"
  then obtain x c' where m1: "m1 c = (Ok x, c')" and f1: "f1 x c' = (Ok y, c'')"
    by (auto simp: st_bind_Ok)
  from simulatesD [OF m c m1] obtain K
    where K: "\<And>k d. K \<le> k \<Longrightarrow> J d \<Longrightarrow> \<exists>d'. m2 k d = (Ok x, d') \<and> J d'" by blast
  from simulatesD [OF f simulates_inv [OF m c m1] f1] obtain L
    where L: "\<And>k d. L \<le> k \<Longrightarrow> J d \<Longrightarrow> \<exists>d'. f2 k x d = (Ok y, d') \<and> J d'" by blast
  have "\<exists>d'. st_bind (m2 k) (f2 k) d = (Ok y, d') \<and> J d'" if "max K L \<le> k" and "J d" for k d
    using K [of k d] L [of k] that by (auto simp: st_bind_Ok)
  then show "\<exists>K. \<forall>k \<ge> K. \<forall>d. J d \<longrightarrow> (\<exists>d'. st_bind (m2 k) (f2 k) d = (Ok y, d') \<and> J d')"
    by blast
qed

lemmas sim_intros = sim_bind sim_ok sim_lift_same

lemma sim_field_total_size:
  assumes "\<And>name. nested_name ty = Some name \<Longrightarrow> simulates I J (n1 name) (\<lambda>k. n2 k name)"
  shows "simulates I J (field_total_size n1 ty) (\<lambda>k. field_total_size (n2 k) ty)"
  using assms by (cases ty) (auto intro!: sim_intros)

definition nested_in :: "msg_field list \<Rightarrow> string set" where
  "nested_in fds = {name. \<exists>f \<in> set fds. nested_name (f_ty f) = Some name}"

lemma sim_place_fields:
  assumes "\<And>name. name \<in> nested_in fds \<Longrightarrow> simulates I J (n1 name) (\<lambda>k. n2 k name)"
  shows "simulates I J (place_fields n1 fds p) (\<lambda>k. place_fields (n2 k) fds p)"
  using assms
proof (induction fds arbitrary: p)
  case Nil
  show ?case by (simp only: place_fields.simps sim_ok)
next
  case (Cons f fds)
  have "simulates I J (place_field n1 f p) (\<lambda>k. place_field (n2 k) f p)"
    unfolding place_field_def using Cons.prems
    by (intro sim_intros sim_field_total_size) (auto simp: nested_in_def)
  moreover have "simulates I J (place_fields n1 fds p) (\<lambda>k. place_fields (n2 k) fds p)" for p
    using Cons by (auto simp: nested_in_def)
  ultimately show ?case by (simp add: sim_bind)
qed

lemma set_sort_fields [simp]: "set (sort_fields fds) = set fds"
  by (auto simp: sort_fields_def Let_def image_comp)

lemma nested_in_sort [simp]: "nested_in (sort_fields fds) = nested_in fds"
  by (simp add: nested_in_def)

lemma sim_place_all:
  assumes "\<And>name. name \<in> nested_in fds \<Longrightarrow> simulates I J (n1 name) (\<lambda>k. n2 k name)"
  shows "simulates I J (place_all n1 fds) (\<lambda>k. place_all (n2 k) fds)"
  unfolding place_all_def using assms by (intro sim_intros sim_place_fields) auto

definition hash_nested :: "files \<Rightarrow> string list \<Rightarrow> nat \<Rightarrow> msg_field \<Rightarrow> gen_error + string" where
  "hash_nested fs search k f =
     (case nested_name (f_ty f) of
        None \<Rightarrow> Ok []
      | Some name \<Rightarrow>
          res_bind (load_msg fs search name)
            (\<lambda>nested. case k of
               0 \<Rightarrow> Err NoFuel
             | Suc k' \<Rightarrow> message_hash_fields fs search k' (d_fields nested)))"

lemma message_hash_fields_Cons:
  "message_hash_fields fs search k (f # rest) =
     res_bind (hash_nested fs search k f)
       (\<lambda>inner. res_bind (message_hash_fields fs search k rest)
          (\<lambda>tail. Ok (hash_line f @ inner @ tail)))"
  by (simp add: hash_nested_def)

lemma message_hash_fields_step:
  assumes "\<And>f s. hash_nested fs search k f = Ok s \<Longrightarrow> hash_nested fs search k' f = Ok s"
  shows "message_hash_fields fs search k fds = Ok s \<Longrightarrow> message_hash_fields fs search k' fds = Ok s"
  by (induction fds arbitrary: s)
     (auto simp: message_hash_fields_Cons dest: assms simp del: message_hash_fields.simps(2))

lemma hash_nested_Suc: "hash_nested fs search k f = Ok s \<Longrightarrow> hash_nested fs search (Suc k) f = Ok s"
proof (induction k arbitrary: f s)
  case 0
  then show ?case by (auto simp: hash_nested_def split: option.splits)
next
  case (Suc k)
  then show ?case
    using message_hash_fields_step [of fs search k "Suc k", OF Suc.IH]
    by (auto simp: hash_nested_def split: option.splits simp del: message_hash_fields.simps)
qed

lemma message_hash_fields_mono:
  "message_hash_fields fs search k fds = Ok s \<Longrightarrow> k \<le> k' \<Longrightarrow>
   message_hash_fields fs search k' fds = Ok s"
  by (rotate_tac 1, induction rule: dec_induct)
     (auto intro: message_hash_fields_step [OF hash_nested_Suc])

lemma message_hash_mono:
  "message_hash fs search k d = Ok h \<Longrightarrow> k \<le> k' \<Longrightarrow> message_hash fs search k' d = Ok h"
  by (auto simp: message_hash_def dest: message_hash_fields_mono)

lemma sim_layout_pre:
  assumes "\<And>name. name \<in> nested_in (d_fields d) \<Longrightarrow> simulates I J (n1 name) (\<lambda>k. n2 k name)"
    and "\<exists>K. \<forall>j \<ge> K. k \<le> g j"
  shows "simulates I J (layout_pre fs search k n1 d) (\<lambda>j. layout_pre fs search (g j) (n2 j) d)"
proof -
  have "\<exists>K. \<forall>j \<ge> K. message_hash fs search (g j) d = Ok h" if "message_hash fs search k d = Ok h" for h
    using assms(2) message_hash_mono [OF that] by blast
  then have "simulates I J (st_lift (message_hash fs search k d)) (\<lambda>j. st_lift (message_hash fs search (g j) d))"
    by (rule sim_lift)
  then show ?thesis
    unfolding layout_pre_def using assms(1) by (intro sim_intros sim_place_all)
qed

section \<open>More fuel, and the cache\<close>

lemma layout_pre_from_files:
  "layout_pre fs search k (from_files r) d c = (fst (layout_pre fs search k (from_files r) d Map.empty), c)"
proof -
  have size: "field_total_size (from_files r) ty c = (fst (field_total_size (from_files r) ty Map.empty), c)" for ty c
    by (cases ty) (simp_all add: st_bind_def from_files_def split: sum.split)
  have place: "place_field (from_files r) f p c = (fst (place_field (from_files r) f p Map.empty), c)" for f p c
    unfolding place_field_def st_bind_def
    by (subst (1 2) size) (simp split: sum.split)
  have places: "place_fields (from_files r) fds p c = (fst (place_fields (from_files r) fds p Map.empty), c)" for fds p c
  proof (induction fds arbitrary: p)
    case (Cons f fds)
    show ?case
      using place [of f p c] place [of f p Map.empty] Cons
      by (cases "fst (place_field (from_files r) f p Map.empty)") (auto simp: st_bind_def split: prod.splits)
  qed simp
  show ?thesis
    unfolding layout_pre_def place_all_def st_bind_def
    by (subst (1 2) places) (simp split: sum.split)
qed

lemma pure_by_name_step: "pure_by_name fs search k name = Ok l \<Longrightarrow> pure_by_name fs search (Suc k) name = Ok l"
proof (induction k arbitrary: name l)
  case (Suc k)
  let ?n1 = "from_files (pure_by_name fs search k)"
  let ?n2 = "from_files (pure_by_name fs search (Suc k))"
  from Suc.prems obtain d where d: "load_msg fs search name = Ok d"
    and l: "fst (layout_pre fs search k ?n1 d Map.empty) = Ok l"
    unfolding pure_by_name.simps by blast
  have "simulates (\<lambda>_. True) (\<lambda>_. True) (?n1 n) (\<lambda>_. ?n2 n)" for n
    using Suc.IH by (auto simp: simulates_def from_files_def simp del: pure_by_name.simps)
  then have sim: "simulates (\<lambda>_. True) (\<lambda>_. True) (layout_pre fs search k ?n1 d)
      (\<lambda>_ :: nat. layout_pre fs search (Suc k) ?n2 d)"
    by (intro sim_layout_pre) auto
  have run: "layout_pre fs search k ?n1 d Map.empty = (Ok l, Map.empty)"
    by (subst layout_pre_from_files) (simp only: l)
  obtain d' where "layout_pre fs search (Suc k) ?n2 d Map.empty = (Ok l, d')"
    using simulates_const [OF sim TrueI run TrueI, of Map.empty] by blast
  then show ?case unfolding pure_by_name.simps(2) [of _ _ "Suc k"] by (simp only: d res_bind_simps fst_conv)
qed simp

lemma pure_by_name_mono:
  "k \<le> k' \<Longrightarrow> pure_by_name fs search k name = Ok l \<Longrightarrow> pure_by_name fs search k' name = Ok l"
  by (induction rule: dec_induct) (simp_all only: pure_by_name_step)

lemma pure_by_name_above:
  "pure_by_name fs search k name = Ok l \<Longrightarrow> \<exists>K. \<forall>j \<ge> K. pure_by_name fs search j name = Ok l"
  by (rule exI [of _ k], intro allI impI, rule pure_by_name_mono)

lemma pure_by_name_unique:
  "pure_by_name fs search k name = Ok l \<Longrightarrow> pure_by_name fs search k' name = Ok l' \<Longrightarrow> l = l'"
  using pure_by_name_mono [of k k'] pure_by_name_mono [of k' k] by (cases "k \<le> k'") fastforce+

definition good_cache :: "files \<Rightarrow> string list \<Rightarrow> cache \<Rightarrow> bool" where
  "good_cache fs search c \<longleftrightarrow> (\<forall>n l. c n = Some l \<longrightarrow> (\<exists>k. pure_by_name fs search k n = Ok l))"

lemma good_cache_empty: "good_cache fs search Map.empty"
  by (simp add: good_cache_def)

lemma good_cache_insert:
  "good_cache fs search c \<Longrightarrow> pure_by_name fs search k n = Ok l \<Longrightarrow> good_cache fs search (c(n \<mapsto> l))"
  by (auto simp: good_cache_def)

lemma wf_msg_nested: "wf_msg d \<Longrightarrow> name \<in> nested_in (d_fields d) \<Longrightarrow> is_camel_case name"
proof -
  assume "wf_msg d" and "name \<in> nested_in (d_fields d)"
  then obtain f :: msg_field where "wf_type (f_ty f)" and "nested_name (f_ty f) = Some name"
    unfolding nested_in_def wf_msg_def wf_field_def mem_Collect_eq by blast
  then show ?thesis by (cases "f_ty f") auto
qed

text \<open>What the cached resolver returns is what the files alone give.\<close>

lemma layout_by_name_None:
  assumes "c name = None" and "load_msg fs search name = Ok d" and "d_name d = name"
  shows "layout_by_name fs search (Suc k) name c =
     (case layout_pre fs search k (layout_by_name fs search k) d c of
        (Inl e, c') \<Rightarrow> (Err e, c')
      | (Inr l, c') \<Rightarrow> (Ok l, c'(name \<mapsto> l)))"
  using assms by (simp add: layout_body_pre st_bind_def cache_insert_def [abs_def])

lemma pure_by_name_Suc:
  assumes "load_msg fs search name = Ok d"
    and "layout_pre fs search j (from_files (pure_by_name fs search j)) d Map.empty = (Ok l, c)"
  shows "pure_by_name fs search (Suc j) name = Ok l"
  using assms by simp

lemma layout_pre_pure:
  assumes sim: "simulates (good_cache fs search) (\<lambda>_. True) m
      (\<lambda>j. layout_pre fs search j (from_files (pure_by_name fs search j)) d)"
    and "load_msg fs search name = Ok d" and "good_cache fs search c" and "m c = (Ok l, c')"
  shows "\<exists>K. \<forall>j \<ge> K. pure_by_name fs search j name = Ok l"
proof -
  from simulates_at [OF sim assms(3,4)] obtain K where "\<forall>k \<ge> K. \<forall>c. True \<longrightarrow>
      (\<exists>c'. layout_pre fs search k (from_files (pure_by_name fs search k)) d c = (Ok l, c') \<and> True)" ..
  then have "\<exists>c'. layout_pre fs search K (from_files (pure_by_name fs search K)) d Map.empty = (Ok l, c')"
    by (simp only: order_refl simp_thms)
  then obtain c' where "layout_pre fs search K (from_files (pure_by_name fs search K)) d Map.empty = (Ok l, c')" ..
  then have "pure_by_name fs search (Suc K) name = Ok l"
    by (rule pure_by_name_Suc [OF assms(2)])
  then show ?thesis by (rule pure_by_name_above)
qed

lemma cached_sim_step:
  assumes camel: "is_camel_case name"
    and sim: "\<And>d. load_msg fs search name = Ok d \<Longrightarrow>
      simulates (good_cache fs search) (\<lambda>_. True) (layout_pre fs search k (layout_by_name fs search k) d)
      (\<lambda>j. layout_pre fs search j (from_files (pure_by_name fs search j)) d)"
    and c: "good_cache fs search c" and r: "layout_by_name fs search (Suc k) name c = (r, c')"
  shows "good_cache fs search c' \<and>
      (\<forall>l. r = Ok l \<longrightarrow> (\<exists>K. \<forall>j \<ge> K. pure_by_name fs search j name = Ok l))"
proof (cases "c name")
  case (Some l')
  with c obtain j where "pure_by_name fs search j name = Ok l'" unfolding good_cache_def by blast
  then have "\<exists>K. \<forall>j \<ge> K. pure_by_name fs search j name = Ok l'" by (rule pure_by_name_above)
  moreover have "r = Ok l'" "c' = c" using Some r by simp_all
  ultimately show ?thesis using c by blast
next
  case None
  show ?thesis
  proof (cases "load_msg fs search name")
    case (Inl e)
    then have "r = Err e" "c' = c" using None r by simp_all
    with c show ?thesis by simp
  next
    case d: (Inr d)
    obtain q c1 where q: "layout_pre fs search k (layout_by_name fs search k) d c = (q, c1)" by fastforce
    have c1: "good_cache fs search c1" using simulates_inv [OF sim [OF d] c q] .
    have "d_name d = name" using load_msg_Ok [OF d camel] by simp
    then have run: "(r, c') = (case (q, c1) of (Inl e, c') \<Rightarrow> (Err e, c') | (Inr l, c') \<Rightarrow> (Ok l, c'(name \<mapsto> l)))"
      using layout_by_name_None [of c name fs search d k] None d q r by (simp only:)
    show ?thesis
    proof (cases q)
      case (Inl e)
      with run c1 show ?thesis by simp
    next
      case (Inr l)
      obtain K where K: "\<forall>j \<ge> K. pure_by_name fs search j name = Ok l"
        using layout_pre_pure [OF sim [OF d] d c q [unfolded Inr]] by blast
      have "good_cache fs search (c1(name \<mapsto> l))"
        using K by (intro good_cache_insert [OF c1, of K]) blast
      moreover have "r = Ok l" "c' = c1(name \<mapsto> l)" using run Inr by simp_all
      ultimately show ?thesis using K by blast
    qed
  qed
qed

lemma cached_sim:
  "is_camel_case name \<Longrightarrow>
   simulates (good_cache fs search) (\<lambda>_ :: cache. True) (layout_by_name fs search k name)
     (\<lambda>j. from_files (pure_by_name fs search j) name)"
proof (induction k arbitrary: name)
  case 0
  show ?case by (auto simp: simulates_def)
next
  case (Suc k)
  have sim: "simulates (good_cache fs search) (\<lambda>_. True) (layout_pre fs search k (layout_by_name fs search k) d)
      (\<lambda>j. layout_pre fs search j (from_files (pure_by_name fs search j)) d)"
    if "load_msg fs search name = Ok d" for d
  proof (rule sim_layout_pre)
    fix n assume "n \<in> nested_in (d_fields d)"
    then have "is_camel_case n" using wf_msg_nested load_msg_Ok [OF that Suc.prems] by blast
    then show "simulates (good_cache fs search) (\<lambda>_. True) (layout_by_name fs search k n)
      (\<lambda>j. from_files (pure_by_name fs search j) n)" by (rule Suc.IH)
  qed blast
  show ?case
    unfolding simulates_def from_files_def using cached_sim_step [OF Suc.prems sim] by blast
qed

text \<open>And the other way: what the files give, the resolver returns from any good cache.\<close>

lemma pure_sim:
  "is_camel_case name \<Longrightarrow>
   simulates (\<lambda>_ :: cache. True) (good_cache fs search) (from_files (pure_by_name fs search k) name)
     (\<lambda>_. layout_by_name fs search k name)"
proof (induction k arbitrary: name)
  case 0
  show ?case by (simp add: simulates_def from_files_def)
next
  case (Suc k)
  have "\<exists>c'. layout_by_name fs search (Suc k) name c = (Ok l, c') \<and> good_cache fs search c'"
    if l: "pure_by_name fs search (Suc k) name = Ok l" and c: "good_cache fs search c" for l c
  proof (cases "c name")
    case (Some l')
    with c obtain j where "pure_by_name fs search j name = Ok l'" unfolding good_cache_def by blast
    then have "l' = l" using pure_by_name_unique l by blast
    with Some c show ?thesis by simp
  next
    case None
    from l obtain d where d: "load_msg fs search name = Ok d"
      and pre: "fst (layout_pre fs search k (from_files (pure_by_name fs search k)) d Map.empty) = Ok l"
      unfolding pure_by_name.simps by blast
    have sim: "simulates (\<lambda>_. True) (good_cache fs search)
        (layout_pre fs search k (from_files (pure_by_name fs search k)) d)
        (\<lambda>_. layout_pre fs search k (layout_by_name fs search k) d)"
    proof (rule sim_layout_pre)
      fix n assume "n \<in> nested_in (d_fields d)"
      then have "is_camel_case n" using wf_msg_nested load_msg_Ok [OF d Suc.prems] by blast
      then show "simulates (\<lambda>_. True) (good_cache fs search) (from_files (pure_by_name fs search k) n)
        (\<lambda>_. layout_by_name fs search k n)" by (rule Suc.IH)
    qed blast
    have run: "layout_pre fs search k (from_files (pure_by_name fs search k)) d Map.empty = (Ok l, Map.empty)"
      by (subst layout_pre_from_files) (simp only: pre)
    have "\<exists>c'. layout_pre fs search k (layout_by_name fs search k) d c = (Ok l, c') \<and> good_cache fs search c'"
      by (rule simulates_const [where I = "\<lambda>_. True", OF sim _ run]) (simp_all only: c)
    then obtain c' where "layout_pre fs search k (layout_by_name fs search k) d c = (Ok l, c')"
      and c': "good_cache fs search c'" by blast
    then have "layout_by_name fs search (Suc k) name c = (Ok l, c'(name \<mapsto> l))"
      using layout_by_name_None [of c name fs search d k] None d load_msg_Ok [OF d Suc.prems]
      by (simp del: layout_by_name.simps)
    with good_cache_insert [OF c' l] show ?thesis by blast
  qed
  then show ?case unfolding simulates_def from_files_def by blast
qed

text \<open>
  \<open>resolves\<close>: a fresh resolver lays the message out. \<open>resolver_cache\<close>: a cache some sequence
  of calls of \<open>layout_by_name\<close>, failing ones included, leaves.
\<close>

definition resolves :: "files \<Rightarrow> string list \<Rightarrow> string \<Rightarrow> laid_out_msg \<Rightarrow> bool" where
  "resolves fs search name l \<longleftrightarrow>
     is_camel_case name \<and> (\<exists>k c'. layout_by_name fs search k name Map.empty = (Ok l, c'))"

inductive resolver_cache :: "files \<Rightarrow> string list \<Rightarrow> cache \<Rightarrow> bool" for fs search where
  resolver_new: "resolver_cache fs search Map.empty"
| resolver_call: "resolver_cache fs search c \<Longrightarrow> is_camel_case name \<Longrightarrow>
     layout_by_name fs search k name c = (r, c') \<Longrightarrow> resolver_cache fs search c'"

lemma cached_pure:
  assumes "is_camel_case name" and "good_cache fs search c" and "layout_by_name fs search k name c = (Ok l, c')"
  shows "\<exists>j. pure_by_name fs search j name = Ok l"
  using simulates_at [OF cached_sim [OF assms(1)] assms(2,3)] by (auto simp: from_files_def)

lemma pure_cached:
  assumes "is_camel_case name" and "good_cache fs search c" and "pure_by_name fs search k name = Ok l"
  shows "\<exists>c'. layout_by_name fs search k name c = (Ok l, c')"
proof -
  have "from_files (pure_by_name fs search k) name Map.empty = (Ok l, Map.empty)"
    by (simp only: from_files_def assms(3))
  from simulates_const [OF pure_sim [OF assms(1)], OF TrueI this assms(2)]
  show ?thesis by blast
qed

lemma resolver_cache_good: "resolver_cache fs search c \<Longrightarrow> good_cache fs search c"
proof (induction rule: resolver_cache.induct)
  case resolver_new
  show ?case by (rule good_cache_empty)
next
  case (resolver_call c name k r c')
  show ?case by (rule simulates_inv [OF cached_sim [OF resolver_call.hyps(2)] resolver_call.IH resolver_call.hyps(3)])
qed

lemma resolves_pure:
  "resolves fs search name l \<longleftrightarrow> is_camel_case name \<and> (\<exists>k. pure_by_name fs search k name = Ok l)"
  unfolding resolves_def using cached_pure [OF _ good_cache_empty] pure_cached [OF _ good_cache_empty] by blast

lemma resolves_cached:
  assumes "resolver_cache fs search c" and "is_camel_case name"
  shows "(\<exists>k c'. layout_by_name fs search k name c = (Ok l, c')) \<longleftrightarrow> resolves fs search name l"
  unfolding resolves_pure
  using cached_pure [OF assms(2) resolver_cache_good [OF assms(1)]]
    pure_cached [OF assms(2) resolver_cache_good [OF assms(1)]] assms(2) by blast

end
