(* ===== verification/Layout_Repr.thy ===== *)
theory Layout_Repr
  imports Layout_Facts
begin

text \<open>
  What the layout is for: the struct the emitter writes is \<open>#[repr(C)]\<close>, and its size as
  rustc computes it must be the size PX4 uses. \<open>repr_c\<close> is the layout algorithm of
  \<open>repr(C)\<close> structs; the alignment of a scalar is a parameter, and \<open>env\<close> gives the size and
  the alignment rustc has for each emitted struct.
\<close>

section \<open>The sort\<close>

abbreviation sort_size :: "msg_field \<Rightarrow> nat" where
  "sort_size f \<equiv> field_sort_size (f_ty f)"

lemma sort_fields_key: "sort_fields fds = sort_key (\<lambda>f. - int (sort_size f)) fds"
proof -
  have eq: "insort_key (\<lambda>p. - int (fst p)) (sort_size f, f) (map (\<lambda>f. (sort_size f, f)) gs) =
      map (\<lambda>f. (sort_size f, f)) (insort_key (\<lambda>f. - int (sort_size f)) f gs)" for f gs
    by (induction gs) auto
  have "sort_key (\<lambda>p. - int (fst p)) (map (\<lambda>f. (sort_size f, f)) fds) =
      map (\<lambda>f. (sort_size f, f)) (sort_key (\<lambda>f. - int (sort_size f)) fds)"
    by (induction fds) (simp_all add: eq)
  then show ?thesis by (simp add: sort_fields_def comp_def)
qed

lemma mset_sort_fields [simp]: "mset (sort_fields fds) = mset fds"
  by (simp add: sort_fields_key)

lemma sorted_sort_fields: "sorted_wrt (\<lambda>f g. sort_size g \<le> sort_size f) (sort_fields fds)"
proof -
  have "sorted (map (\<lambda>f. - int (sort_size f)) (sort_fields fds))"
    by (simp add: sort_fields_key)
  then show ?thesis by (simp add: sorted_wrt_map)
qed

lemma stable_sort_fields:
  "filter (\<lambda>f. sort_size f = s) (sort_fields fds) = filter (\<lambda>f. sort_size f = s) fds"
proof -
  have eq: "(\<lambda>f :: msg_field. sort_size f = s) = (\<lambda>f. - int (sort_size f) = - int s)"
    by auto
  show ?thesis unfolding sort_fields_key eq by (rule sort_key_stable)
qed

section \<open>The layout of a \<open>repr(C)\<close> struct\<close>

definition round_up :: "nat \<Rightarrow> nat \<Rightarrow> nat" where
  "round_up p a = p + align_gap p a"

fun type_size :: "(string \<Rightarrow> nat \<times> nat) \<Rightarrow> field_type \<Rightarrow> nat" where
  "type_size env (Scalar s) = scalar_size s"
| "type_size env (ScalarArray s n) = scalar_size s * n"
| "type_size env (Nested name) = fst (env name)"
| "type_size env (NestedArray name n) = fst (env name) * n"

fun type_align :: "(scalar \<Rightarrow> nat) \<Rightarrow> (string \<Rightarrow> nat \<times> nat) \<Rightarrow> field_type \<Rightarrow> nat" where
  "type_align salign env (Scalar s) = salign s"
| "type_align salign env (ScalarArray s n) = salign s"
| "type_align salign env (Nested name) = snd (env name)"
| "type_align salign env (NestedArray name n) = snd (env name)"

fun member_size :: "(string \<Rightarrow> nat \<times> nat) \<Rightarrow> laid_out_field \<Rightarrow> nat" where
  "member_size env (Real f) = type_size env (f_ty f)"
| "member_size env (Padding i n) = n"

fun member_align :: "(scalar \<Rightarrow> nat) \<Rightarrow> (string \<Rightarrow> nat \<times> nat) \<Rightarrow> laid_out_field \<Rightarrow> nat" where
  "member_align salign env (Real f) = type_align salign env (f_ty f)"
| "member_align salign env (Padding i n) = 1"

definition repr_step ::
  "(scalar \<Rightarrow> nat) \<Rightarrow> (string \<Rightarrow> nat \<times> nat) \<Rightarrow> nat \<times> nat \<Rightarrow> laid_out_field \<Rightarrow> nat \<times> nat" where
  "repr_step salign env = (\<lambda>(off, al) m.
     (round_up off (member_align salign env m) + member_size env m, max al (member_align salign env m)))"

definition repr_c ::
  "(scalar \<Rightarrow> nat) \<Rightarrow> (string \<Rightarrow> nat \<times> nat) \<Rightarrow> laid_out_field list \<Rightarrow> nat \<times> nat" where
  "repr_c salign env ms =
     (case foldl (repr_step salign env) (0, 1) ms of (off, al) \<Rightarrow> (round_up off al, al))"

lemma round_up_id: "a dvd p \<Longrightarrow> round_up p a = p"
  by (simp add: round_up_def align_gap_def Let_def)

lemma max_dvd_8: "(a::nat) dvd 8 \<Longrightarrow> b dvd 8 \<Longrightarrow> max a b dvd 8"
  by (simp add: max_def)

lemma scalar_size_le_dvd: "scalar_size t \<le> scalar_size s \<Longrightarrow> scalar_size t dvd scalar_size s"
  by (cases s; cases t; simp)

lemma scalar_size_dvd_8: "scalar_size s dvd 8"
  by (cases s) auto

section \<open>Placing the fields\<close>

text \<open>
  \<open>tight\<close>: the members pushed so far lie at the offsets the resolver counts, without a gap.
\<close>

definition tight :: "(scalar \<Rightarrow> nat) \<Rightarrow> (string \<Rightarrow> nat \<times> nat) \<Rightarrow> place \<Rightarrow> bool" where
  "tight salign env p \<longleftrightarrow>
     (\<exists>al. foldl (repr_step salign env) (0, 1) (p_out p) = (p_size p, al) \<and> al dvd 8) \<and>
     sum_list (map (member_size env) (p_out p)) = p_size p"

lemma tight_empty: "tight salign env empty_place"
  by (simp add: tight_def empty_place_def)

lemma tight_push:
  assumes "tight salign env p" and "member_align salign env m dvd p_size p"
    and "member_align salign env m dvd 8"
  shows "tight salign env (p\<lparr>p_out := p_out p @ [m], p_size := p_size p + member_size env m, p_pad := i\<rparr>)"
  using assms by (auto simp: tight_def repr_step_def round_up_id max_dvd_8)

lemma tight_push_padding:
  assumes "tight salign env p" and "push_padding n p = Ok p'"
  shows "tight salign env p' \<and> p_size p' = p_size p + n"
proof (cases "n = 0")
  case True
  with assms show ?thesis by (simp add: push_padding_def)
next
  case False
  with assms(2) have "p' = p\<lparr>p_out := p_out p @ [Padding (p_pad p) n],
      p_size := p_size p + member_size env (Padding (p_pad p) n), p_pad := p_pad p + 1\<rparr>"
    by (auto simp: push_padding_def)
  with tight_push [OF assms(1), of "Padding (p_pad p) n"] show ?thesis by simp
qed

text \<open>\<open>env\<close> agrees with the layouts \<open>r\<close> gives for the nested types.\<close>

definition env_ok ::
  "(string \<Rightarrow> nat \<times> nat) \<Rightarrow> (string \<Rightarrow> gen_error + laid_out_msg) \<Rightarrow> string \<Rightarrow> bool" where
  "env_ok env r name \<longleftrightarrow>
     (\<forall>l. r name = Ok l \<longrightarrow> fst (env name) = l_size l \<and> 8 dvd l_size l \<and> snd (env name) dvd 8)"

lemma field_total_size_env:
  assumes "field_total_size (from_files r) ty c = (Ok n, c')"
    and "\<And>name. nested_name ty = Some name \<Longrightarrow> env_ok env r name"
  shows "n = type_size env ty \<and>
     (\<forall>name. nested_name ty = Some name \<longrightarrow> 8 dvd n \<and> type_align salign env ty dvd 8)"
  using assms by (cases ty) (auto simp: st_bind_Ok from_files_def env_ok_def)

lemma tight_place_field:
  assumes t: "tight salign env p" and run: "place_field (from_files r) f p c = (Ok p', c')"
    and env: "\<And>name. nested_name (f_ty f) = Some name \<Longrightarrow> env_ok env r name"
    and sal: "\<And>s. salign s dvd scalar_size s"
    and dvd: "sort_size f dvd p_size p \<or> sort_size f = 0"
  shows "tight salign env p' \<and>
     (sort_size f \<noteq> 0 \<longrightarrow> (\<exists>n. p_size p' = p_size p + sort_size f * n))"
proof -
  let ?ty = "f_ty f"
  from run obtain n c1 p1 where n: "field_total_size (from_files r) ?ty c = (Ok n, c1)"
    and p1: "(if nested_name ?ty \<noteq> None then push_padding (align_gap (p_size p) ALIGN_TO) p else Ok p) = Ok p1"
    and p': "push_real f n p1 = Ok p'"
    by (auto simp: place_field_def st_bind_Ok)
  from field_total_size_env [OF n env, where salign = salign] have size: "n = type_size env ?ty"
    and nest: "\<And>name. nested_name ?ty = Some name \<Longrightarrow> 8 dvd n \<and> type_align salign env ?ty dvd 8" by blast+
  have p'_eq: "p' = p1\<lparr>p_out := p_out p1 @ [Real f], p_size := p_size p1 + member_size env (Real f), p_pad := p_pad p1\<rparr>"
    using p' size by (auto simp: push_real_def)
  show ?thesis
  proof (cases "nested_name ?ty")
    case None
    then obtain s where s: "?ty = Scalar s \<or> (\<exists>k. ?ty = ScalarArray s k)" by (cases ?ty) auto
    have "p1 = p" using p1 None by simp
    moreover have "sort_size f = scalar_size s" and al: "type_align salign env ?ty = salign s" using s by auto
    moreover have "scalar_size s dvd p_size p"
      using dvd scalar_size_pos [of s] \<open>sort_size f = scalar_size s\<close> by auto
    then have "salign s dvd p_size p" using sal dvd_trans by blast
    moreover have "salign s dvd 8" using sal scalar_size_dvd_8 dvd_trans by blast
    ultimately have "tight salign env p'"
      unfolding p'_eq using t by (intro tight_push) simp_all
    moreover have "\<exists>k. p_size p' = p_size p + sort_size f * k"
      using s \<open>p1 = p\<close> unfolding p'_eq by (auto intro: exI [of _ 1])
    ultimately show ?thesis by blast
  next
    case (Some name)
    then have "sort_size f = 0" by (cases ?ty) auto
    have t1: "tight salign env p1" and sz: "p_size p1 = p_size p + align_gap (p_size p) ALIGN_TO"
      using tight_push_padding [OF t] p1 Some by auto
    have "8 dvd p_size p1" unfolding sz ALIGN_TO_def by (rule align_gap_dvd) simp
    then have "type_align salign env ?ty dvd p_size p1" using nest [OF Some] dvd_trans by blast
    then have "tight salign env p'"
      unfolding p'_eq using t1 nest [OF Some] by (intro tight_push) simp_all
    with \<open>sort_size f = 0\<close> show ?thesis by simp
  qed
qed

lemma sort_size_dvd: "sort_size g \<le> sort_size f \<Longrightarrow> sort_size g \<noteq> 0 \<Longrightarrow> sort_size g dvd sort_size f"
  by (cases "f_ty f"; cases "f_ty g") (auto intro: scalar_size_le_dvd)

lemma tight_place_fields:
  assumes "\<And>s. salign s dvd scalar_size s"
  shows "tight salign env p \<Longrightarrow> place_fields (from_files r) fds p c = (Ok p', c') \<Longrightarrow>
    (\<And>name. name \<in> nested_in fds \<Longrightarrow> env_ok env r name) \<Longrightarrow>
    sorted_wrt (\<lambda>f g. sort_size g \<le> sort_size f) fds \<Longrightarrow>
    (\<And>f. f \<in> set fds \<Longrightarrow> sort_size f \<noteq> 0 \<Longrightarrow> sort_size f dvd p_size p) \<Longrightarrow> tight salign env p'"
proof (induction fds arbitrary: p c)
  case Nil
  then show ?case by simp
next
  case (Cons f fds)
  from Cons.prems(2) obtain p1 c1 where run: "place_field (from_files r) f p c = (Ok p1, c1)"
    and rest: "place_fields (from_files r) fds p1 c1 = (Ok p', c')"
    by (auto simp: st_bind_Ok)
  have env: "env_ok env r name" if "nested_name (f_ty f) = Some name" for name
    using that Cons.prems(3) by (auto simp: nested_in_def)
  have "sort_size f dvd p_size p \<or> sort_size f = 0" using Cons.prems(5) by auto
  from tight_place_field [OF Cons.prems(1) run env assms this]
  have t1: "tight salign env p1"
    and sz: "sort_size f \<noteq> 0 \<Longrightarrow> \<exists>n. p_size p1 = p_size p + sort_size f * n" by blast+
  have "sort_size g dvd p_size p1" if "g \<in> set fds" and "sort_size g \<noteq> 0" for g
  proof -
    have le: "sort_size g \<le> sort_size f" using Cons.prems(4) that(1) by simp
    then have "sort_size f \<noteq> 0" using that(2) by simp
    then obtain n where "p_size p1 = p_size p + sort_size f * n" using sz by blast
    moreover have "sort_size g dvd p_size p" using Cons.prems(5) that by simp
    moreover have "sort_size g dvd sort_size f" by (rule sort_size_dvd [OF le that(2)])
    ultimately show ?thesis by simp
  qed
  moreover have "env_ok env r name" if "name \<in> nested_in fds" for name
    using that Cons.prems(3) by (auto simp: nested_in_def)
  ultimately show ?case using Cons.IH [OF t1 rest] Cons.prems(4) by simp
qed

section \<open>The members of a layout\<close>

fun reals :: "laid_out_field list \<Rightarrow> msg_field list" where
  "reals [] = []"
| "reals (Real f # ms) = f # reals ms"
| "reals (Padding i n # ms) = reals ms"

fun paddings :: "laid_out_field list \<Rightarrow> (nat \<times> nat) list" where
  "paddings [] = []"
| "paddings (Real f # ms) = paddings ms"
| "paddings (Padding i n # ms) = (i, n) # paddings ms"

lemma members_append [simp]:
  "reals (ms @ ms') = reals ms @ reals ms'"
  "paddings (ms @ ms') = paddings ms @ paddings ms'"
  by (induction ms rule: reals.induct) auto

text \<open>\<open>padded\<close>: the paddings are numbered from 0 and have 1 to 7 bytes.\<close>

definition padded :: "place \<Rightarrow> bool" where
  "padded p \<longleftrightarrow> map fst (paddings (p_out p)) = [0..<p_pad p] \<and>
     (\<forall>n \<in> snd ` set (paddings (p_out p)). 1 \<le> n \<and> n < 8)"

lemma padded_empty: "padded empty_place"
  by (simp add: padded_def empty_place_def)

lemma push_padding_members:
  "push_padding n p = Ok p' \<Longrightarrow> n < 8 \<Longrightarrow> padded p \<Longrightarrow>
   padded p' \<and> reals (p_out p') = reals (p_out p) \<and> p_size p' = p_size p + n"
  by (auto simp: push_padding_def padded_def split: if_splits)

lemma push_real_members:
  "push_real f n p = Ok p' \<Longrightarrow>
   (padded p' \<longleftrightarrow> padded p) \<and> reals (p_out p') = reals (p_out p) @ [f]"
  by (auto simp: push_real_def padded_def)

lemma align_gap_lt_8: "align_gap p ALIGN_TO < 8"
  by (simp add: ALIGN_TO_def align_gap_lt)

lemma place_field_members:
  assumes "place_field nested f p c = (Ok p', c')" and "padded p"
  shows "padded p' \<and> reals (p_out p') = reals (p_out p) @ [f]"
proof -
  from assms(1) obtain n c1 p1 where
    p1: "(if nested_name (f_ty f) \<noteq> None then push_padding (align_gap (p_size p) ALIGN_TO) p else Ok p) = Ok p1"
    and p': "push_real f n p1 = Ok p'"
    by (auto simp: place_field_def st_bind_Ok)
  have "padded p1 \<and> reals (p_out p1) = reals (p_out p)"
    using p1 push_padding_members [OF _ align_gap_lt_8 assms(2)] assms(2) by (auto split: if_splits)
  with push_real_members [OF p'] show ?thesis by simp
qed

lemma place_fields_members:
  "place_fields nested fds p c = (Ok p', c') \<Longrightarrow> padded p \<Longrightarrow>
   padded p' \<and> reals (p_out p') = reals (p_out p) @ fds"
proof (induction fds arbitrary: p c)
  case (Cons f fds)
  from Cons.prems(1) obtain p1 c1 where run: "place_field nested f p c = (Ok p1, c1)"
    and rest: "place_fields nested fds p1 c1 = (Ok p', c')" by (auto simp: st_bind_Ok)
  from place_field_members [OF run Cons.prems(2)] Cons.IH [OF rest] show ?case by simp
qed simp

lemma place_all_members:
  assumes "place_all nested fds c = (Ok p', c')"
  shows "padded p' \<and> reals (p_out p') = sort_fields fds \<and> 8 dvd p_size p'"
proof -
  from assms obtain p1 where p1: "place_fields nested (sort_fields fds) empty_place c = (Ok p1, c')"
    and p': "push_padding (align_gap (p_size p1) ALIGN_TO) p1 = Ok p'"
    by (auto simp: place_all_def st_bind_Ok)
  from place_fields_members [OF p1 padded_empty]
  have m1: "padded p1" "reals (p_out p1) = sort_fields fds" by (simp_all add: empty_place_def)
  from push_padding_members [OF p' align_gap_lt_8 m1(1)] m1(2)
  show ?thesis using align_gap_dvd [of 8 "p_size p1"] by (simp add: ALIGN_TO_def)
qed

lemma tight_place_all:
  assumes sal: "\<And>s. salign s dvd scalar_size s"
    and run: "place_all (from_files r) fds c = (Ok p', c')"
    and env: "\<And>name. name \<in> nested_in fds \<Longrightarrow> env_ok env r name"
  shows "tight salign env p'"
proof -
  from run obtain p1 where p1: "place_fields (from_files r) (sort_fields fds) empty_place c = (Ok p1, c')"
    and p': "push_padding (align_gap (p_size p1) ALIGN_TO) p1 = Ok p'"
    by (auto simp: place_all_def st_bind_Ok)
  have "tight salign env p1"
    by (rule tight_place_fields [OF sal tight_empty p1])
      (auto simp: env sorted_sort_fields empty_place_def)
  from tight_push_padding [OF this p'] show ?thesis by blast
qed

lemma tight_repr_c:
  assumes "tight salign env p" and "8 dvd p_size p"
  shows "fst (repr_c salign env (p_out p)) = p_size p \<and> snd (repr_c salign env (p_out p)) dvd 8"
proof -
  from assms(1) obtain al where al: "foldl (repr_step salign env) (0, 1) (p_out p) = (p_size p, al)" "al dvd 8"
    by (auto simp: tight_def)
  moreover have "al dvd p_size p" using al(2) assms(2) by (rule dvd_trans)
  ultimately show ?thesis by (simp add: repr_c_def round_up_id)
qed

section \<open>The whole layout\<close>

text \<open>
  \<open>rustc_sizes\<close>: \<open>env\<close> is what rustc computes for the emitted structs, one struct per message
  that resolves.
\<close>

definition rustc_sizes ::
  "files \<Rightarrow> string list \<Rightarrow> (scalar \<Rightarrow> nat) \<Rightarrow> (string \<Rightarrow> nat \<times> nat) \<Rightarrow> bool" where
  "rustc_sizes fs search salign env \<longleftrightarrow>
     (\<forall>name l. resolves fs search name l \<longrightarrow> env name = repr_c salign env (l_fields l))"

lemma layout_pre_Ok:
  assumes "layout_pre fs search k nested d c = (Ok l, c')"
  shows "\<exists>p h. place_all nested (d_fields d) c = (Ok p, c') \<and> message_hash fs search k d = Ok h \<and>
     l = laid_out d p h"
  using assms by (auto simp: layout_pre_def st_bind_Ok)

lemma pure_layout_pre:
  assumes "pure_by_name fs search (Suc k) name = Ok l"
  shows "\<exists>d. load_msg fs search name = Ok d \<and>
    layout_pre fs search k (from_files (pure_by_name fs search k)) d Map.empty = (Ok l, Map.empty)"
proof -
  from assms obtain d where d: "load_msg fs search name = Ok d"
    and l: "fst (layout_pre fs search k (from_files (pure_by_name fs search k)) d Map.empty) = Ok l"
    unfolding pure_by_name.simps by blast
  have "layout_pre fs search k (from_files (pure_by_name fs search k)) d Map.empty = (Ok l, Map.empty)"
    by (subst layout_pre_from_files) (simp only: l)
  with d show ?thesis by blast
qed

lemma pure_env_ok:
  assumes env: "rustc_sizes fs search salign env" and sal: "\<And>s. salign s dvd scalar_size s"
  shows "is_camel_case name \<Longrightarrow> pure_by_name fs search k name = Ok l \<Longrightarrow>
    fst (env name) = l_size l \<and> 8 dvd l_size l \<and> snd (env name) dvd 8 \<and>
    sum_list (map (member_size env) (l_fields l)) = l_size l"
proof (induction k arbitrary: name l)
  case (Suc k)
  from pure_layout_pre [OF Suc.prems(2)] obtain d where d: "load_msg fs search name = Ok d"
    and pre: "layout_pre fs search k (from_files (pure_by_name fs search k)) d Map.empty = (Ok l, Map.empty)"
    by blast
  from layout_pre_Ok [OF pre] obtain p h where p: "place_all (from_files (pure_by_name fs search k)) (d_fields d) Map.empty = (Ok p, Map.empty)"
    and l: "l = laid_out d p h" by blast
  have "env_ok env (pure_by_name fs search k) n" if "n \<in> nested_in (d_fields d)" for n
    using Suc.IH wf_msg_nested [OF _ that] load_msg_Ok [OF d Suc.prems(1)]
    unfolding env_ok_def by blast
  from tight_place_all [OF sal p this] have t: "tight salign env p" .
  have dvd: "8 dvd p_size p" using place_all_members [OF p] by blast
  have "resolves fs search name l" using resolves_pure Suc.prems by blast
  then have "env name = repr_c salign env (p_out p)"
    using env unfolding rustc_sizes_def by (simp add: l laid_out_def)
  with tight_repr_c [OF t dvd] dvd t show ?case
    by (simp add: l laid_out_def tight_def)
qed simp

lemma resolves_members:
  assumes "resolves fs search name l"
  shows "\<exists>d. load_msg fs search name = Ok d \<and> l_name l = name \<and>
     reals (l_fields l) = sort_fields (d_fields d) \<and>
     map fst (paddings (l_fields l)) = [0..<length (paddings (l_fields l))] \<and>
     (\<forall>n \<in> snd ` set (paddings (l_fields l)). 1 \<le> n \<and> n < 8) \<and> 8 dvd l_size l"
proof -
  from assms obtain k where camel: "is_camel_case name" and "pure_by_name fs search k name = Ok l"
    unfolding resolves_pure by blast
  then obtain j where "pure_by_name fs search (Suc j) name = Ok l" by (cases k) auto
  from pure_layout_pre [OF this] obtain d where d: "load_msg fs search name = Ok d"
    and pre: "layout_pre fs search j (from_files (pure_by_name fs search j)) d Map.empty = (Ok l, Map.empty)"
    by blast
  from layout_pre_Ok [OF pre] obtain p h
    where p: "place_all (from_files (pure_by_name fs search j)) (d_fields d) Map.empty = (Ok p, Map.empty)"
      and l: "l = laid_out d p h" by blast
  from place_all_members [OF p] have m: "padded p" "reals (p_out p) = sort_fields (d_fields d)" "8 dvd p_size p"
    by blast+
  have "length (paddings (p_out p)) = p_pad p"
    using m(1) unfolding padded_def by (metis diff_zero length_map length_upt)
  with d m load_msg_Ok [OF d camel] show ?thesis
    by (intro exI [of _ d]) (simp add: l laid_out_def padded_def)
qed

section \<open>Ending and not ending\<close>

text \<open>
  \<open>ranked\<close>: nested references strictly descend along \<open>rank\<close>, so the recursion over the files
  is at most \<open>rank name\<close> deep.
\<close>

definition ranked :: "files \<Rightarrow> string list \<Rightarrow> (string \<Rightarrow> nat) \<Rightarrow> bool" where
  "ranked fs search rank \<longleftrightarrow>
     (\<forall>name d. load_msg fs search name = Ok d \<longrightarrow> (\<forall>n \<in> nested_in (d_fields d). rank n < rank name))"

lemma load_msg_not_NoFuel: "load_msg fs search name \<noteq> Err NoFuel"
  by (auto simp: load_msg_def find_msg_def parse_at_def ok_or_def res_bind_def split: sum.splits option.splits)

lemma usize_not_NoFuel: "usize_add a b \<noteq> Err NoFuel" "usize_mul a b \<noteq> Err NoFuel"
  by (simp_all add: usize_add_def usize_mul_def)

lemma push_not_NoFuel: "push_padding n p \<noteq> Err NoFuel" "push_real f n p \<noteq> Err NoFuel"
  by (auto simp: push_padding_def push_real_def res_bind_def usize_add_def split: sum.splits if_splits)

lemma hash_fields_ends:
  assumes "\<And>f. f \<in> set fds \<Longrightarrow> hash_nested fs search k f \<noteq> Err NoFuel"
  shows "message_hash_fields fs search k fds \<noteq> Err NoFuel"
  using assms
  by (induction fds)
     (fastforce simp: message_hash_fields_Cons res_bind_def simp del: message_hash_fields.simps(2)
        split: sum.splits)+

lemma hash_ends:
  assumes "ranked fs search rank"
  shows "\<forall>n \<in> nested_in fds. rank n < k \<Longrightarrow> message_hash_fields fs search k fds \<noteq> Err NoFuel"
proof (induction k arbitrary: fds)
  case 0
  then have "nested_in fds = {}" by auto
  then show ?case
    by (intro hash_fields_ends) (auto simp: hash_nested_def nested_in_def split: option.splits)
next
  case (Suc k)
  show ?case
  proof (rule hash_fields_ends)
    fix f assume f: "f \<in> set fds"
    show "hash_nested fs search (Suc k) f \<noteq> Err NoFuel"
    proof (cases "nested_name (f_ty f)")
      case None
      then show ?thesis by (simp add: hash_nested_def)
    next
      case (Some n)
      then have "rank n < Suc k" using Suc.prems f by (auto simp: nested_in_def)
      show ?thesis
      proof (cases "load_msg fs search n")
        case (Inl e)
        then show ?thesis using Some load_msg_not_NoFuel [of fs search n] by (auto simp: hash_nested_def)
      next
        case (Inr d)
        then have "\<forall>m \<in> nested_in (d_fields d). rank m < k"
          using assms \<open>rank n < Suc k\<close> unfolding ranked_def by fastforce
        then show ?thesis using Suc.IH Some Inr by (simp add: hash_nested_def)
      qed
    qed
  qed
qed

lemma st_bind_ends:
  "fst (m c) \<noteq> Err NoFuel \<Longrightarrow> (\<And>x c. fst (f x c) \<noteq> Err NoFuel) \<Longrightarrow> fst (st_bind m f c) \<noteq> Err NoFuel"
  by (auto simp: st_bind_Err)

lemma place_fields_end:
  assumes "\<And>name c. name \<in> nested_in fds \<Longrightarrow> fst (nested name c) \<noteq> Err NoFuel"
  shows "fst (place_fields nested fds p c) \<noteq> Err NoFuel"
  using assms
proof (induction fds arbitrary: p c)
  case (Cons f fds)
  have nest: "fst (nested n c) \<noteq> Err NoFuel" if "nested_name (f_ty f) = Some n" for n c
    using that by (intro Cons.prems) (auto simp: nested_in_def)
  have "fst (field_total_size nested (f_ty f) c) \<noteq> Err NoFuel" for c
    using nest by (cases "f_ty f") (auto simp: usize_not_NoFuel st_bind_Err)
  moreover have "res_bind (if b then push_padding n p else Ok p) (push_real f m) \<noteq> Err NoFuel" for b n m
    using push_not_NoFuel by (auto simp: res_bind_def split: sum.splits)
  ultimately have "fst (place_field nested f p c) \<noteq> Err NoFuel" for c
    unfolding place_field_def by (intro st_bind_ends) simp_all
  moreover have "fst (place_fields nested fds p c) \<noteq> Err NoFuel" for p c
    using Cons by (auto simp: nested_in_def)
  ultimately show ?case unfolding place_fields.simps by (rule st_bind_ends)
qed simp

lemma layout_body_ends:
  assumes "\<And>name c. name \<in> nested_in (d_fields d) \<Longrightarrow> fst (nested name c) \<noteq> Err NoFuel"
    and "message_hash_fields fs search k (d_fields d) \<noteq> Err NoFuel"
  shows "fst (layout_body fs search k nested d c) \<noteq> Err NoFuel"
proof -
  have "message_hash fs search k d \<noteq> Err NoFuel"
    using assms(2) by (auto simp: message_hash_def res_bind_def split: sum.splits)
  then show ?thesis
    unfolding layout_body_def place_all_def cache_insert_def
    by (intro st_bind_ends place_fields_end) (simp_all add: assms(1) push_not_NoFuel)
qed

lemma layout_by_name_ends:
  assumes "ranked fs search rank"
  shows "rank name < k \<Longrightarrow> fst (layout_by_name fs search k name c) \<noteq> Err NoFuel"
proof (induction k arbitrary: name c)
  case (Suc k)
  show ?case
  proof (cases "c name")
    case None
    show ?thesis
    proof (cases "load_msg fs search name")
      case (Inl e)
      with None show ?thesis using load_msg_not_NoFuel [of fs search name] by auto
    next
      case (Inr d)
      then have lt: "rank n < k" if "n \<in> nested_in (d_fields d)" for n
        using assms Suc.prems that unfolding ranked_def by fastforce
      have "fst (layout_body fs search k (layout_by_name fs search k) d c) \<noteq> Err NoFuel"
        using lt Suc.IH hash_ends [OF assms] by (intro layout_body_ends) blast+
      with None Inr show ?thesis by simp
    qed
  qed simp
qed simp

text \<open>A message whose only field has its own type.\<close>

lemma self_nested_NoFuel:
  assumes "load_msg fs search name = Ok d" and "d_fields d = [f]" and "nested_name (f_ty f) = Some name"
  shows "c name = None \<Longrightarrow> layout_by_name fs search k name c = (Err NoFuel, c)"
proof (induction k)
  case (Suc k)
  then have "layout_by_name fs search k name c = (Err NoFuel, c)" by simp
  then have "field_total_size (layout_by_name fs search k) (f_ty f) c = (Err NoFuel, c)"
    using assms(3) by (cases "f_ty f") (auto simp: st_bind_def)
  then have "layout_body fs search k (layout_by_name fs search k) d c = (Err NoFuel, c)"
    by (simp add: layout_body_def place_all_def sort_fields_def assms(2) place_field_def st_bind_def)
  with Suc.prems assms(1) show ?case by simp
qed simp

section \<open>The hash\<close>

lemma fnv_prime_inverse: "fnv_prime * 0x359c449b = 1"
  by (simp add: fnv_prime_def)

lemma fnv_step_inj_hash: "fnv_step h b = fnv_step h' b \<Longrightarrow> h = h'"
  unfolding fnv_step_def
  by (rule word_xor_right_inj, rule word_odd_mult_inj [OF fnv_prime_inverse])

lemma ucast_8_32_inj: "(ucast (a :: 8 word) :: 32 word) = ucast b \<Longrightarrow> a = b"
proof -
  assume "(ucast a :: 32 word) = ucast b"
  then have "(ucast (ucast a :: 32 word) :: 8 word) = ucast (ucast b :: 32 word)" by (rule arg_cong)
  then show ?thesis by (simp add: ucast_up_ucast_id is_up)
qed

lemma fnv_step_inj_byte: "fnv_step h a = fnv_step h b \<Longrightarrow> a = b"
proof -
  assume "fnv_step h a = fnv_step h b"
  then have "h XOR ucast a = h XOR ucast b"
    unfolding fnv_step_def by (rule word_odd_mult_inj [OF fnv_prime_inverse])
  then show ?thesis using word_xor_left_inj ucast_8_32_inj by blast
qed

lemma fnv_fold_inj: "foldl fnv_step h bs = foldl fnv_step h' bs \<Longrightarrow> h = h'"
  by (induction bs arbitrary: h h') (auto dest: fnv_step_inj_hash)

lemma fnv1a_change:
  assumes "of_char a < (128 :: nat)" and "of_char b < (128 :: nat)" and "a \<noteq> b"
  shows "fnv1a_32 (p @ a # s) \<noteq> fnv1a_32 (p @ b # s)"
proof
  assume eq: "fnv1a_32 (p @ a # s) = fnv1a_32 (p @ b # s)"
  have ascii: "utf8 c = [of_nat (of_char c)]" if "of_char c < (128 :: nat)" for c
    using that by (simp add: utf8_def)
  let ?h = "foldl fnv_step fnv_offset (bytes p)"
  have "foldl fnv_step (fnv_step ?h (of_nat (of_char a))) (bytes s) =
      foldl fnv_step (fnv_step ?h (of_nat (of_char b))) (bytes s)"
    using eq assms(1,2) by (simp add: fnv1a_32_def bytes_Cons ascii)
  then have "(of_nat (of_char a) :: 8 word) = of_nat (of_char b)"
    using fnv_fold_inj fnv_step_inj_byte by blast
  moreover have "unat (of_nat (of_char c) :: 8 word) = of_char c" if "of_char c < (128 :: nat)" for c
    using that by (simp add: unat_of_nat take_bit_eq_mod)
  ultimately have "(of_char a :: nat) = of_char b" using assms(1,2) by metis
  with assms(3) show False by simp
qed

lemma hash_flat:
  assumes "nested_in fds = {}"
  shows "message_hash_fields fs search k fds = Ok (concat (map hash_line fds))"
  using assms
proof (induction fds)
  case (Cons f fds)
  then have "nested_in fds = {}" and "nested_name (f_ty f) = None"
    by (auto simp: nested_in_def) (metis option.exhaust)
  with Cons show ?case by (simp add: message_hash_fields_Cons hash_nested_def del: message_hash_fields.simps(2))
qed simp

lemma hash_text_render:
  assumes "\<forall>f \<in> set fds. wf_field f"
  shows "\<exists>d. parse_str name (concat (map hash_line fds)) = Ok d \<and> d_fields d = fds \<and>
    d_constants d = [] \<and> d_topics d = [camel_to_snake name]"
proof -
  let ?d = "\<lparr>d_name = name, d_snake_name = camel_to_snake name, d_fields = fds, d_constants = [],
     d_topics = [camel_to_snake name], d_message_version = None\<rparr>"
  have "wf_msg ?d" using assms by (simp add: wf_msg_def message_version_def)
  moreover have "render_msg ?d = concat (map hash_line fds)"
    by (simp add: render_msg_def render_lines_def render_topics_def comp_def hash_line_def [abs_def] render_field_def)
  ultimately have "parse_str name (concat (map hash_line fds)) = Ok ?d"
    using parse_str_render [of ?d] by simp
  then show ?thesis by auto
qed

section \<open>Properties\<close>

text \<open>A file tree for the witnesses: one message nested in another.\<close>

definition demo_files :: files where
  "demo_files = \<lparr>
     is_file = (\<lambda>p. p \<in> {''msg/Outer.msg'', ''msg/Inner.msg'', ''msg/Loop.msg''}),
     read_to_string = (\<lambda>p.
       if p = ''msg/Outer.msg''
       then Ok (''uint8 a'' @ [CHR 0x0A] @ ''Inner[2] b'' @ [CHR 0x0A] @ ''float32 c'')
       else if p = ''msg/Inner.msg'' then Ok (''uint16 u'' @ [CHR 0x0A] @ ''uint64 t'')
       else if p = ''msg/Loop.msg'' then Ok ''Loop next''
       else Err ''not found'')\<rparr>"

definition demo_outer :: laid_out_msg where
  "demo_outer = \<lparr>
     l_name = ''Outer'', l_snake_name = ''outer'',
     l_fields = [Real \<lparr>f_name = ''c'', f_ty = Scalar TF32\<rparr>, Real \<lparr>f_name = ''a'', f_ty = Scalar TU8\<rparr>,
       Padding 0 3, Real \<lparr>f_name = ''b'', f_ty = NestedArray ''Inner'' 2\<rparr>],
     l_constants = [], l_topics = [''outer''], l_size = 40,
     l_message_hash = fnv1a_32 (concat (map (\<lambda>l. l @ [CHR 0x0A])
       [''uint8 a'', ''Inner[2] b'', ''uint16 u'', ''uint64 t'', ''float32 c'']))\<rparr>"

lemma demo_load:
  "load_msg demo_files [''msg''] ''Outer'' = Ok \<lparr>d_name = ''Outer'', d_snake_name = ''outer'',
     d_fields = [\<lparr>f_name = ''a'', f_ty = Scalar TU8\<rparr>, \<lparr>f_name = ''b'', f_ty = NestedArray ''Inner'' 2\<rparr>,
       \<lparr>f_name = ''c'', f_ty = Scalar TF32\<rparr>],
     d_constants = [], d_topics = [''outer''], d_message_version = None\<rparr>"
  "load_msg demo_files [''msg''] ''Inner'' = Ok \<lparr>d_name = ''Inner'', d_snake_name = ''inner'',
     d_fields = [\<lparr>f_name = ''u'', f_ty = Scalar TU16\<rparr>, \<lparr>f_name = ''t'', f_ty = Scalar TU64\<rparr>],
     d_constants = [], d_topics = [''inner''], d_message_version = None\<rparr>"
  "load_msg demo_files [''msg''] ''Loop'' = Ok \<lparr>d_name = ''Loop'', d_snake_name = ''loop'',
     d_fields = [\<lparr>f_name = ''next'', f_ty = Nested ''Loop''\<rparr>],
     d_constants = [], d_topics = [''loop''], d_message_version = None\<rparr>"
  by (simp_all add: demo_files_def load_msg_def find_msg_def parse_at_def parse_file_def
      path_join_def file_stem_def file_name_def stem_of_def parser_eval)

lemma demo_resolves: "resolves demo_files [''msg''] ''Outer'' demo_outer"
proof -
  have "is_camel_case ''Outer''" by (simp add: parser_eval)
  moreover have two: "show_nat 2 = ''2''"
    by (subst show_nat.simps) (simp add: digit_char_def char_of_def bit_Suc_0_iff)
  ultimately have "\<exists>c'. layout_by_name demo_files [''msg''] (Suc (Suc 0)) ''Outer'' Map.empty = (Ok demo_outer, c')"
    by (simp add: demo_load demo_outer_def layout_body_def place_all_def sort_fields_def
      empty_place_def place_field_def push_padding_def push_real_def align_gap_def ALIGN_TO_def
      usize_add_def usize_mul_def message_hash_def hash_line_def cache_insert_def laid_out_def
      st_bind_def Let_def)
  with \<open>is_camel_case ''Outer''\<close> show ?thesis unfolding resolves_def by blast
qed

lemma demo_inner:
  "pure_by_name demo_files [''msg''] (Suc 0) ''Inner'' = Ok \<lparr>l_name = ''Inner'', l_snake_name = ''inner'',
     l_fields = [Real \<lparr>f_name = ''t'', f_ty = Scalar TU64\<rparr>, Real \<lparr>f_name = ''u'', f_ty = Scalar TU16\<rparr>,
       Padding 0 6],
     l_constants = [], l_topics = [''inner''], l_size = 16,
     l_message_hash = fnv1a_32 (concat (map (\<lambda>l. l @ [CHR 0x0A]) [''uint16 u'', ''uint64 t'']))\<rparr>"
  by (simp add: demo_load layout_pre_def place_all_def sort_fields_def
      empty_place_def place_field_def push_padding_def push_real_def align_gap_def ALIGN_TO_def
      usize_add_def usize_mul_def message_hash_def hash_line_def laid_out_def st_bind_def Let_def)

definition demo_env :: "string \<Rightarrow> nat \<times> nat" where
  "demo_env name = (if name = ''Outer'' then (40, 8) else (16, 8))"

lemma demo_names:
  assumes "is_camel_case name" and "load_msg demo_files [''msg''] name = Ok d"
  shows "name \<in> {''Outer'', ''Inner'', ''Loop''}"
proof -
  have hd: "name \<noteq> []" "hd name \<noteq> CHR ''/''"
    using camel_hd [OF assms(1)] camel_file_chars [OF assms(1)] hd_in_set [of name] by (auto simp: is_ascii_uppercase_def)
  then have "path_join ''msg'' (name @ ''.msg'') = ''msg/'' @ name @ ''.msg''"
    by (simp add: path_join_def)
  with assms(2) have "''msg/'' @ name @ ''.msg'' \<in>
      {''msg/'' @ ''Outer'' @ ''.msg'', ''msg/'' @ ''Inner'' @ ''.msg'', ''msg/'' @ ''Loop'' @ ''.msg''}"
    by (simp add: load_msg_def find_msg_def demo_files_def Let_def split: if_splits)
  then show ?thesis unfolding insert_iff empty_iff same_append_eq append_same_eq by blast
qed

lemma demo_sizes: "rustc_sizes demo_files [''msg''] scalar_size demo_env"
  unfolding rustc_sizes_def
proof (intro allI impI)
  fix name l
  assume r: "resolves demo_files [''msg''] name l"
  then obtain d where d: "load_msg demo_files [''msg''] name = Ok d"
    using resolves_members by blast
  from r have camel: "is_camel_case name" by (simp add: resolves_def)
  obtain k where k: "pure_by_name demo_files [''msg''] k name = Ok l" using r resolves_pure by blast
  from demo_names [OF camel d] consider "name = ''Outer''" | "name = ''Inner''" | "name = ''Loop''" by blast
  then show "demo_env name = repr_c scalar_size demo_env (l_fields l)"
  proof cases
    case 1
    then obtain j where "pure_by_name demo_files [''msg''] j name = Ok demo_outer"
      using demo_resolves resolves_pure by blast
    then have "l = demo_outer" using pure_by_name_unique k by blast
    then show ?thesis
      by (simp add: 1 demo_outer_def demo_env_def repr_c_def repr_step_def round_up_def align_gap_def Let_def)
  next
    case 2
    have "l_fields l = [Real \<lparr>f_name = ''t'', f_ty = Scalar TU64\<rparr>, Real \<lparr>f_name = ''u'', f_ty = Scalar TU16\<rparr>,
       Padding 0 6]"
      using pure_by_name_unique [OF k [unfolded 2] demo_inner] by simp
    then show ?thesis
      by (simp add: 2 demo_env_def repr_c_def repr_step_def round_up_def align_gap_def Let_def)
  next
    case 3
    have "layout_by_name demo_files [''msg''] n ''Loop'' Map.empty = (Err NoFuel, Map.empty)" for n
      by (rule self_nested_NoFuel [OF demo_load(3)], simp, simp_all)
    then show ?thesis using r by (simp add: resolves_def 3)
  qed
qed

text \<open>
  C1: the layout the resolver counts is the one rustc gives the emitted \<open>repr(C)\<close> struct, so the
  emitted compile-time size assertion holds: for any scalar alignments that divide the scalar
  sizes, and any sizes and alignments of structs that follow the \<open>repr(C)\<close> rules, the size of the
  struct is \<open>l_size\<close>; the members add up to it, so rustc inserts no padding of its own.
\<close>

theorem layout_matches_repr_c:
  assumes "resolves fs search name l"
    and "rustc_sizes fs search salign env"
    and "\<And>s. salign s dvd scalar_size s"
  shows "fst (env name) = l_size l \<and> snd (env name) dvd 8 \<and>
     sum_list (map (member_size env) (l_fields l)) = l_size l"
  using pure_env_ok [OF assms(2,3)] assms(1) unfolding resolves_pure by blast

theorem layout_matches_repr_c_witness:
  "fst (demo_env ''Outer'') = l_size demo_outer \<and> snd (demo_env ''Outer'') dvd 8 \<and>
   sum_list (map (member_size demo_env) (l_fields demo_outer)) = l_size demo_outer \<and>
   l_size demo_outer = 40"
  using layout_matches_repr_c [OF demo_resolves demo_sizes dvd_refl] by (simp add: demo_outer_def)

text \<open>
  C26: the members of a layout are the fields of the file, sorted: a permutation of the declared
  fields in descending order of the scalar size, nested fields last, fields of equal size in
  declaration order; the paddings between them are numbered from 0 and have 1 to 7 bytes, and the
  total is a multiple of 8.
\<close>

theorem layout_sorts_fields:
  assumes "resolves fs search name l"
  shows "\<exists>d. load_msg fs search name = Ok d \<and> l_name l = name \<and>
     mset (reals (l_fields l)) = mset (d_fields d) \<and>
     sorted_wrt (\<lambda>f g. field_sort_size (f_ty g) \<le> field_sort_size (f_ty f)) (reals (l_fields l)) \<and>
     (\<forall>s. filter (\<lambda>f. field_sort_size (f_ty f) = s) (reals (l_fields l)) =
          filter (\<lambda>f. field_sort_size (f_ty f) = s) (d_fields d)) \<and>
     map fst (paddings (l_fields l)) = [0..<length (paddings (l_fields l))] \<and>
     (\<forall>n \<in> snd ` set (paddings (l_fields l)). 1 \<le> n \<and> n < 8) \<and> 8 dvd l_size l"
  using resolves_members [OF assms] sorted_sort_fields stable_sort_fields by fastforce

theorem layout_sorts_fields_witness:
  "mset (reals (l_fields demo_outer)) =
     mset [\<lparr>f_name = ''a'', f_ty = Scalar TU8\<rparr>, \<lparr>f_name = ''b'', f_ty = NestedArray ''Inner'' 2\<rparr>,
       \<lparr>f_name = ''c'', f_ty = Scalar TF32\<rparr>] \<and>
   map fst (paddings (l_fields demo_outer)) = [0..<length (paddings (l_fields demo_outer))]"
  using layout_sorts_fields [OF demo_resolves] demo_load(1) by auto

text \<open>
  The cache of the resolver changes no result: whatever calls of \<open>layout_by_name\<close> came before,
  failing ones included, a message lays out to \<open>l\<close> through the cache exactly when a fresh resolver
  lays it out to \<open>l\<close>.
\<close>

theorem layout_cache_transparent:
  assumes "resolver_cache fs search c" and "is_camel_case name"
  shows "(\<exists>k c'. layout_by_name fs search k name c = (Ok l, c')) \<longleftrightarrow>
     (\<exists>k c'. layout_by_name fs search k name Map.empty = (Ok l, c'))"
  using resolves_cached [OF assms] assms(2) unfolding resolves_def by blast

theorem layout_cache_transparent_witness:
  "\<exists>c. c ''Outer'' = Some demo_outer \<and>
     (\<forall>l. (\<exists>k c'. layout_by_name demo_files [''msg''] k ''Inner'' c = (Ok l, c')) \<longleftrightarrow>
      (\<exists>k c'. layout_by_name demo_files [''msg''] k ''Inner'' Map.empty = (Ok l, c')))"
proof -
  obtain k c where run: "layout_by_name demo_files [''msg''] k ''Outer'' Map.empty = (Ok demo_outer, c)"
    using demo_resolves by (auto simp: resolves_def)
  then obtain j where "k = Suc j" by (cases k) auto
  with run have "c ''Outer'' = Some demo_outer"
    by (auto simp: demo_load layout_body_def st_bind_Ok cache_insert_def)
  moreover have "is_camel_case ''Outer''" and camel: "is_camel_case ''Inner''" by (simp_all add: parser_eval)
  then have "resolver_cache demo_files [''msg''] c"
    using resolver_call [OF resolver_new _ run] by blast
  from layout_cache_transparent [OF this camel] calculation show ?thesis by blast
qed

text \<open>
  C27: when no message refers to itself through nested types (some rank decreases along every
  nested reference), the resolver ends: fuel above the rank of the message is enough, whatever the
  cache, for the layout and the hash it computes on the way.
\<close>

theorem layout_terminates:
  assumes "ranked fs search rank" and "rank name < k"
  shows "fst (layout_by_name fs search k name c) \<noteq> Err NoFuel"
  using layout_by_name_ends assms by blast

definition nest_files :: files where
  "nest_files = \<lparr>is_file = (\<lambda>p. p \<in> {''m/A.msg'', ''m/B.msg''}),
     read_to_string = (\<lambda>p. if p = ''m/A.msg'' then Ok ''B b'' else Ok ''uint8 x'')\<rparr>"

lemma nest_load:
  "load_msg nest_files [''m''] ''A'' = Ok \<lparr>d_name = ''A'', d_snake_name = ''a'', d_fields = [\<lparr>f_name = ''b'', f_ty = Nested ''B''\<rparr>],
     d_constants = [], d_topics = [''a''], d_message_version = None\<rparr>"
  "load_msg nest_files [''m''] ''B'' = Ok \<lparr>d_name = ''B'', d_snake_name = ''b'', d_fields = [\<lparr>f_name = ''x'', f_ty = Scalar TU8\<rparr>],
     d_constants = [], d_topics = [''b''], d_message_version = None\<rparr>"
  by (simp_all add: nest_files_def load_msg_def find_msg_def parse_at_def parse_file_def
      path_join_def file_stem_def file_name_def stem_of_def parser_eval)

lemma nest_names:
  assumes "load_msg nest_files [''m''] name = Ok d"
  shows "name = ''A'' \<or> name = ''B''"
proof -
  have "is_file nest_files (path_join ''m'' (name @ ''.msg''))"
    using assms by (auto simp: load_msg_def find_msg_def Let_def split: if_splits)
  then have "name @ ''.msg'' = ''A'' @ ''.msg'' \<or> name @ ''.msg'' = ''B'' @ ''.msg''"
    by (auto simp: nest_files_def path_join_def split: if_splits)
  then show ?thesis by (simp only: append_same_eq)
qed

theorem layout_terminates_witness:
  "fst (layout_by_name nest_files [''m''] 2 ''A'' Map.empty) \<noteq> Err NoFuel"
proof -
  have "ranked nest_files [''m''] (\<lambda>n. if n = ''A'' then 1 else 0)"
    unfolding ranked_def
  proof (intro allI impI)
    fix name d assume l: "load_msg nest_files [''m''] name = Ok d"
    show "\<forall>n \<in> nested_in (d_fields d). (if n = ''A'' then 1 else 0 :: nat) < (if name = ''A'' then 1 else 0)"
      using nest_names [OF l] l by (auto simp: nest_load nested_in_def)
  qed
  from layout_terminates [OF this, where name = "''A''" and k = 2 and c = Map.empty]
  show ?thesis by (simp del: layout_by_name.simps)
qed

text \<open>
  A message whose field has the message's own type never gets a layout nor an error: the
  recursion of \<open>layout_by_name\<close> uses up any fuel, because the cache is filled only after the nested
  types are laid out and nothing marks a message as being in progress.
\<close>

theorem self_nested_message_diverges:
  assumes "load_msg fs search name = Ok d" and "d_fields d = [f]" and "nested_name (f_ty f) = Some name"
    and "c name = None"
  shows "layout_by_name fs search k name c = (Err NoFuel, c)"
  by (rule self_nested_NoFuel) (fact assms)+

theorem self_nested_message_diverges_witness:
  "layout_by_name demo_files [''msg''] 1000 ''Loop'' Map.empty = (Err NoFuel, Map.empty)"
  using self_nested_message_diverges [OF demo_load(3), of "\<lparr>f_name = ''next'', f_ty = Nested ''Loop''\<rparr>" Map.empty 1000] by simp

text \<open>
  The message hash tells apart any two texts that differ in one ASCII character, so renaming a
  field by one letter, or changing one digit of an array length, changes the hash of a message.
\<close>

theorem fnv1a_one_char:
  assumes "of_char a < (128 :: nat)" and "of_char b < (128 :: nat)" and "a \<noteq> b"
  shows "fnv1a_32 (p @ a # s) \<noteq> fnv1a_32 (p @ b # s)"
  using fnv1a_change [OF assms] .

theorem fnv1a_one_char_witness:
  "fnv1a_32 ''uint8 x'' \<noteq> fnv1a_32 ''uint8 y''"
  using fnv1a_one_char [of "CHR ''x''" "CHR ''y''" "''uint8 ''" "[]"] by simp

text \<open>
  The hash of a message without nested fields is the FNV-1a of the lines \<open>type name\<close> in
  declaration order, and that text is itself a \<open>.msg\<close> text that parses back to the same fields:
  no two field lists share it.
\<close>

theorem message_hash_text:
  assumes "parse_str name text = Ok d" and "\<forall>f \<in> set (d_fields d). nested_name (f_ty f) = None"
  shows "message_hash fs search k d = Ok (fnv1a_32 (concat (map hash_line (d_fields d)))) \<and>
     (\<exists>d'. parse_str name (concat (map hash_line (d_fields d))) = Ok d' \<and> d_fields d' = d_fields d)"
proof -
  have "nested_in (d_fields d) = {}" using assms(2) by (auto simp: nested_in_def)
  then have "message_hash fs search k d = Ok (fnv1a_32 (concat (map hash_line (d_fields d))))"
    by (simp add: message_hash_def hash_flat)
  moreover have "\<forall>f \<in> set (d_fields d). wf_field f"
    using parse_str_wf_msg [OF assms(1)] by (simp add: wf_msg_def)
  ultimately show ?thesis using hash_text_render by blast
qed

theorem message_hash_text_witness:
  "\<exists>d. parse_str ''Demo'' ''float32[3] position'' = Ok d \<and>
     message_hash demo_files [''msg''] 0 d = Ok (fnv1a_32 (''float32[3] position'' @ [CHR 0x0A]))"
proof -
  let ?d = "\<lparr>d_name = ''Demo'', d_snake_name = ''demo'',
     d_fields = [\<lparr>f_name = ''position'', f_ty = ScalarArray TF32 3\<rparr>],
     d_constants = [], d_topics = [''demo''], d_message_version = None\<rparr>"
  have p: "parse_str ''Demo'' ''float32[3] position'' = Ok ?d" by (simp add: parser_eval)
  have "show_nat 3 = ''3''"
    by (subst show_nat.simps) (simp add: digit_char_def char_of_def bit_Suc_0_iff)
  then have "hash_line \<lparr>f_name = ''position'', f_ty = ScalarArray TF32 3\<rparr> = ''float32[3] position'' @ [CHR 0x0A]"
    by (simp add: hash_line_def)
  with p message_hash_text [OF p, of demo_files "[''msg'']" 0] show ?thesis by simp
qed

end
