(* ===== verification/Msg_Emit.thy ===== *)
theory Msg_Emit
  imports Layout_Repr
begin

text \<open>
  \<open>crates/px4-msg-codegen/src/emit.rs\<close>, \<open>generate\<close> of its \<open>src/lib.rs\<close>, and the attribute macro of
  \<open>crates/px4-msg-macros/src/lib.rs\<close>: from a laid-out message to the generated Rust. A generated token
  stream is a tree here, one constructor or field per hole of the \<open>quote!\<close> templates. What the crate
  \<open>proc_macro2\<close> accepts is a parameter: \<open>Ident::new\<close> and \<open>Ident::new_raw\<close> panic on a text that is no
  identifier, and \<open>parse::<TokenStream>\<close> fails on one that does not lex. Topic names are ASCII, so
  \<open>to_uppercase\<close> maps letters. The generated \<open>metadata()\<close> runs at run time: its lookup
  \<open>px4_rs_find_orb_meta\<close> is a parameter too.
\<close>

section \<open>Identifiers\<close>

record lexer =
  ident_ok :: "string \<Rightarrow> bool"
  raw_ok :: "string \<Rightarrow> bool"
  lexes :: "string \<Rightarrow> bool"

datatype ident = Plain string | Raw string

fun ident_text :: "ident \<Rightarrow> string" where
  "ident_text (Plain s) = s"
| "ident_text (Raw s) = s"

datatype emit_panic = BadIdent string | BadRawIdent string | BadTokens string

definition ident_new :: "lexer \<Rightarrow> string \<Rightarrow> emit_panic + ident" where
  "ident_new lx s = (if ident_ok lx s then Ok (Plain s) else Err (BadIdent s))"

definition ident_new_raw :: "lexer \<Rightarrow> string \<Rightarrow> emit_panic + ident" where
  "ident_new_raw lx s = (if raw_ok lx s then Ok (Raw s) else Err (BadRawIdent s))"

definition tokens :: "lexer \<Rightarrow> string \<Rightarrow> emit_panic + string" where
  "tokens lx s = (if lexes lx s then Ok s else Err (BadTokens s))"

definition rust_keywords :: "string list" where
  "rust_keywords = [''as'', ''break'', ''const'', ''continue'', ''crate'', ''else'', ''enum'', ''extern'', ''false'',
     ''fn'', ''for'', ''if'', ''impl'', ''in'', ''let'', ''loop'', ''match'', ''mod'', ''move'', ''mut'', ''pub'',
     ''ref'', ''return'', ''self'', ''static'', ''struct'', ''super'', ''trait'', ''true'', ''type'', ''unsafe'',
     ''use'', ''where'', ''while'', ''async'', ''await'', ''dyn'']"

definition is_rust_keyword :: "string \<Rightarrow> bool" where
  "is_rust_keyword s \<longleftrightarrow> s \<in> set rust_keywords"

definition sanitize_ident :: "lexer \<Rightarrow> string \<Rightarrow> emit_panic + ident" where
  "sanitize_ident lx name = (if is_rust_keyword name then ident_new_raw lx name else ident_new lx name)"

definition to_uppercase :: "string \<Rightarrow> string" where
  "to_uppercase s = map (\<lambda>c. if is_ascii_lowercase c then char_of ((of_char c :: nat) - 32) else c) s"

section \<open>What is emitted\<close>

record emit_paths =
  ep_uorb :: string
  ep_sys :: string

definition default_paths :: emit_paths where
  "default_paths = \<lparr>ep_uorb = ''::px4_uorb'', ep_sys = ''::px4_sys''\<rparr>"

text \<open>One topic: the marker type, the C name, the metadata and the cache of \<open>metadata()\<close>.\<close>

record emitted_topic =
  et_topic :: ident
  et_msg :: ident
  et_cname :: string
  et_cstr :: string
  et_meta :: string
  et_resolved :: string
  et_size :: "16 word"
  et_size_no_padding :: "16 word"
  et_hash :: "32 word"
  et_id :: "16 word"
  et_queue :: string
  et_paths :: emit_paths

record emitted =
  em_name :: ident
  em_fields :: "(ident \<times> string) list"
  em_consts :: "(ident \<times> string \<times> string) list"
  em_n_topics :: nat
  em_topics :: "string list"
  em_assert_size :: nat
  em_items :: "emitted_topic list"

definition emit_field :: "lexer \<Rightarrow> laid_out_field \<Rightarrow> emit_panic + (ident \<times> string)" where
  "emit_field lx f =
     (case f of
        Real field \<Rightarrow>
          res_bind (sanitize_ident lx (f_name field)) (\<lambda>fname.
          res_bind (tokens lx (rust_type_for (f_ty field))) (\<lambda>ty. Ok (fname, ty)))
      | Padding index size' \<Rightarrow>
          Ok (Plain (''_padding'' @ show_nat index), ''[u8; '' @ show_nat size' @ ''usize]''))"

definition emit_constant :: "lexer \<Rightarrow> msg_const \<Rightarrow> emit_panic + (ident \<times> string \<times> string)" where
  "emit_constant lx c =
     res_bind (ident_new lx (c_name c)) (\<lambda>name.
     res_bind (tokens lx (rust_type (c_ty c))) (\<lambda>ty.
     res_bind (tokens lx (c_value c)) (\<lambda>value. Ok (name, ty, value))))"

text \<open>The first constant \<open>ORB_QUEUE_LENGTH\<close>, if its value lexes; else \<open>1\<close>.\<close>

definition queue_expr :: "lexer \<Rightarrow> msg_const list \<Rightarrow> string" where
  "queue_expr lx constants =
     (case find (\<lambda>c. c_name c = ''ORB_QUEUE_LENGTH'') constants of
        Some c \<Rightarrow> (if lexes lx (c_value c) then c_value c else ''1'')
      | None \<Rightarrow> ''1'')"

definition emit_topic ::
  "lexer \<Rightarrow> string \<Rightarrow> nat \<Rightarrow> 32 word \<Rightarrow> msg_const list \<Rightarrow> emit_paths \<Rightarrow> string \<Rightarrow> emit_panic + emitted_topic" where
  "emit_topic lx struct_name sz message_hash' constants paths topic_name =
     res_bind (ident_new lx struct_name) (\<lambda>struct_ident.
     res_bind (ident_new lx topic_name) (\<lambda>topic_ident.
     Ok \<lparr>et_topic = topic_ident, et_msg = struct_ident,
         et_cname = ''__ORB_NAME_'' @ to_uppercase topic_name, et_cstr = topic_name @ [CHR 0x00],
         et_meta = ''__ORB_META_'' @ to_uppercase topic_name,
         et_resolved = ''__ORB_META_'' @ to_uppercase topic_name @ ''_RESOLVED'',
         et_size = of_nat sz, et_size_no_padding = of_nat sz, et_hash = message_hash', et_id = - 1,
         et_queue = queue_expr lx constants, et_paths = paths\<rparr>))"

definition emit_with_paths :: "lexer \<Rightarrow> laid_out_msg \<Rightarrow> emit_paths \<Rightarrow> emit_panic + emitted" where
  "emit_with_paths lx laid paths =
     res_bind (ident_new lx (l_name laid)) (\<lambda>name.
     res_bind (map_res (emit_field lx) (l_fields laid)) (\<lambda>fields'.
     res_bind (map_res (emit_topic lx (l_name laid) (l_size laid) (l_message_hash laid) (l_constants laid) paths)
       (l_topics laid)) (\<lambda>topic_items.
     res_bind (map_res (emit_constant lx) (l_constants laid)) (\<lambda>consts'.
     Ok \<lparr>em_name = name, em_fields = fields', em_consts = consts', em_n_topics = length (l_topics laid),
         em_topics = l_topics laid, em_assert_size = l_size laid, em_items = topic_items\<rparr>))))"

definition emit :: "lexer \<Rightarrow> laid_out_msg \<Rightarrow> emit_panic + emitted" where
  "emit lx laid = emit_with_paths lx laid default_paths"

section \<open>The whole generator\<close>

datatype build_error = GenErr gen_error | Panic emit_panic

text \<open>\<open>Path::parent\<close>, for a path without a slash at its end.\<close>

definition path_parent :: "string \<Rightarrow> string option" where
  "path_parent p =
     (if p = [] \<or> p = ''/'' then None
      else let dir = rev (dropWhile (\<lambda>c. c \<noteq> CHR ''/'') (rev p))
           in Some (if dir = [] \<or> dir = ''/'' then dir else butlast dir))"

definition generate_with_paths ::
  "lexer \<Rightarrow> files \<Rightarrow> nat \<Rightarrow> string \<Rightarrow> string list \<Rightarrow> emit_paths \<Rightarrow> build_error + emitted" where
  "generate_with_paths lx fs k path search_path paths =
     (case parse_at fs path of
        Inl e \<Rightarrow> Err (GenErr e)
      | Inr def \<Rightarrow>
          let search = (if search_path = [] then (case path_parent path of None \<Rightarrow> [] | Some d \<Rightarrow> [d]) else search_path)
          in case fst (layout fs search k def Map.empty) of
               Inl e \<Rightarrow> Err (GenErr e)
             | Inr laid \<Rightarrow>
                 (case emit_with_paths lx laid paths of
                    Inl p \<Rightarrow> Err (Panic p)
                  | Inr em \<Rightarrow> Ok em))"

definition generate :: "lexer \<Rightarrow> files \<Rightarrow> nat \<Rightarrow> string \<Rightarrow> string list \<Rightarrow> build_error + emitted" where
  "generate lx fs k path search_path = generate_with_paths lx fs k path search_path default_paths"

section \<open>The attribute macro\<close>

text \<open>\<open>crate_name\<close> of \<open>proc_macro_crate\<close> is a parameter; an error of it counts as not found.\<close>

datatype found_crate = Itself | Name string

definition resolve_crate :: "(string \<Rightarrow> found_crate option) \<Rightarrow> string \<Rightarrow> string option" where
  "resolve_crate crate_name name =
     (case crate_name name of
        None \<Rightarrow> None
      | Some Itself \<Rightarrow> Some ''crate''
      | Some (Name n) \<Rightarrow> Some (''::'' @ n))"

definition resolve_sys :: "(string \<Rightarrow> found_crate option) \<Rightarrow> string" where
  "resolve_sys crate_name =
     (case resolve_crate crate_name ''px4-sys'' of
        Some direct \<Rightarrow> direct
      | None \<Rightarrow>
          (case resolve_crate crate_name ''px4'' of
             Some px4 \<Rightarrow> px4 @ ''::sys''
           | None \<Rightarrow> ''::px4_sys''))"

definition resolve_paths :: "(string \<Rightarrow> found_crate option) \<Rightarrow> emit_paths" where
  "resolve_paths crate_name =
     \<lparr>ep_uorb = (case resolve_crate crate_name ''px4-uorb'' of
         Some u \<Rightarrow> u
       | None \<Rightarrow> (case resolve_crate crate_name ''px4'' of Some p \<Rightarrow> p | None \<Rightarrow> ''::px4_uorb'')),
      ep_sys = resolve_sys crate_name\<rparr>"

text \<open>
  \<open>px4_message\<close>: the path is relative to \<open>CARGO_MANIFEST_DIR\<close> when that is set; the error becomes the
  text of a compile error. A panic of the emitter stays one.
\<close>

fun gen_error_text :: "gen_error \<Rightarrow> string" where
  "gen_error_text (ParseErr e) = display_error e"
| "gen_error_text Overflow = ''attempt to add with overflow''"
| "gen_error_text NoFuel = ''''"

definition macro_path :: "string option \<Rightarrow> string \<Rightarrow> string" where
  "macro_path manifest_dir raw =
     (if raw \<noteq> [] \<and> hd raw = CHR ''/'' then raw
      else case manifest_dir of Some root \<Rightarrow> path_join root raw | None \<Rightarrow> raw)"

datatype expansion = Items emitted | CompileError string | MacroPanic

definition px4_message ::
  "lexer \<Rightarrow> files \<Rightarrow> nat \<Rightarrow> (string \<Rightarrow> found_crate option) \<Rightarrow> string option \<Rightarrow> string \<Rightarrow> expansion" where
  "px4_message lx fs k crate_name manifest_dir raw =
     (case generate_with_paths lx fs k (macro_path manifest_dir raw) [] (resolve_paths crate_name) of
        Inr em \<Rightarrow> Items em
      | Inl (GenErr (ParseErr e)) \<Rightarrow> CompileError (''px4_message: '' @ display_error e)
      | Inl e \<Rightarrow> MacroPanic)"

section \<open>The generated metadata()\<close>

text \<open>
  \<open>'m\<close> is a metadata: the synthesized copy of the topic, or what the lookup returns. The result is the
  metadata and the new contents of the cache.
\<close>

definition metadata_call :: "'m \<Rightarrow> 'm option \<Rightarrow> 'm option \<Rightarrow> 'm \<times> 'm option" where
  "metadata_call synthesized found resolved =
     (case resolved of
        Some cached \<Rightarrow> (cached, resolved)
      | None \<Rightarrow>
          (case found of
             None \<Rightarrow> (synthesized, None)
           | Some canonical \<Rightarrow> (canonical, Some canonical)))"

text \<open>A run of calls, each with the lookup's answer at that moment.\<close>

fun metadata_calls :: "'m \<Rightarrow> 'm option list \<Rightarrow> 'm option \<Rightarrow> 'm list" where
  "metadata_calls synthesized [] resolved = []"
| "metadata_calls synthesized (found # rest) resolved =
     (case metadata_call synthesized found resolved of (m, r) \<Rightarrow> m # metadata_calls synthesized rest r)"

section \<open>Facts\<close>

lemma map_res_list_all2: "map_res f xs = Ok ys \<longleftrightarrow> list_all2 (\<lambda>x y. f x = Ok y) xs ys"
proof (induction xs arbitrary: ys)
  case (Cons x xs)
  show ?case
    by (cases "f x"; cases "map_res f xs"; cases ys; auto simp: Cons.IH [symmetric])
qed auto

lemma sanitize_ident_text: "sanitize_ident lx s = Ok i \<Longrightarrow> ident_text i = s"
  by (auto simp: sanitize_ident_def ident_new_def ident_new_raw_def split: if_splits)

lemma ident_new_Ok: "ident_new lx s = Ok i \<longleftrightarrow> ident_ok lx s \<and> i = Plain s"
  by (auto simp: ident_new_def)

fun member_name :: "laid_out_field \<Rightarrow> string" where
  "member_name (Real f) = f_name f"
| "member_name (Padding k n) = ''_padding'' @ show_nat k"

fun member_type :: "laid_out_field \<Rightarrow> string" where
  "member_type (Real f) = rust_type_for (f_ty f)"
| "member_type (Padding k n) = ''[u8; '' @ show_nat n @ ''usize]''"

lemma emit_field_Ok: "emit_field lx f = Ok (i, ty) \<Longrightarrow> ident_text i = member_name f \<and> ty = member_type f"
  by (cases f) (auto simp: emit_field_def tokens_def dest: sanitize_ident_text split: if_splits)

lemma emit_fields_names:
  assumes "list_all2 (\<lambda>f e. emit_field lx f = Ok e) fs es"
  shows "map (\<lambda>(i, ty). (ident_text i, ty)) es = map (\<lambda>f. (member_name f, member_type f)) fs"
  using assms by (induction rule: list_all2_induct) (auto dest: emit_field_Ok)

lemma emit_Ok:
  assumes "emit_with_paths lx l paths = Ok em"
  shows "map (\<lambda>(i, ty). (ident_text i, ty)) (em_fields em) = map (\<lambda>f. (member_name f, member_type f)) (l_fields l)"
    and "em_assert_size em = l_size l" and "em_topics em = l_topics l" and "em_n_topics em = length (l_topics l)"
    and "em_name em = Plain (l_name l)"
    and "list_all2 (\<lambda>t e. emit_topic lx (l_name l) (l_size l) (l_message_hash l) (l_constants l) paths t = Ok e)
      (l_topics l) (em_items em)"
    and "list_all2 (\<lambda>c e. emit_constant lx c = Ok e) (l_constants l) (em_consts em)"
  using assms by (auto simp: emit_with_paths_def map_res_list_all2 ident_new_Ok emit_fields_names)

text \<open>A lexer for the witnesses: identifiers are words of letters, digits and underscores.\<close>

definition word_lexer :: lexer where
  "word_lexer = \<lparr>ident_ok = (\<lambda>s. s \<noteq> [] \<and> list_all (\<lambda>c. is_ascii_alphanumeric c \<or> c = CHR ''_'') s \<and> \<not> is_ascii_digit (hd s)),
     raw_ok = (\<lambda>s. s \<notin> {''self'', ''super'', ''crate'', ''Self'', ''_''}), lexes = (\<lambda>s. True)\<rparr>"

section \<open>Properties\<close>

lemma show_nat_inj: "show_nat m = show_nat n \<Longrightarrow> m = n"
  by (metis dec_value_show_nat)

definition pad_name :: "nat \<Rightarrow> string" where
  "pad_name k = ''_padding'' @ show_nat k"

lemma pad_name_inj: "pad_name j = pad_name k \<Longrightarrow> j = k"
  by (auto simp: pad_name_def intro: show_nat_inj)

lemma member_name_in:
  "member_name ` set ms = f_name ` set (reals ms) \<union> pad_name ` fst ` set (paddings ms)"
  by (induction ms rule: reals.induct) (auto simp: pad_name_def)

definition apart :: "laid_out_field list \<Rightarrow> bool" where
  "apart fs \<longleftrightarrow> distinct (map f_name (reals fs)) \<and> distinct (map fst (paddings fs)) \<and>
     (\<forall>f \<in> set (reals fs). f_name f \<notin> range pad_name)"

lemma apart_Real:
  assumes "apart (Real f # ms)"
  shows "apart ms" and "f_name f \<notin> f_name ` set (reals ms)" and "f_name f \<notin> range pad_name"
  using assms by (simp_all add: apart_def)

lemma apart_Padding:
  assumes "apart (Padding i n # ms)"
  shows "apart ms" and "i \<notin> fst ` set (paddings ms)" and "pad_name i \<notin> f_name ` set (reals ms)"
proof -
  show "apart ms" "i \<notin> fst ` set (paddings ms)" using assms by (simp_all add: apart_def)
  have "\<forall>f \<in> set (reals ms). f_name f \<notin> range pad_name" using assms by (simp add: apart_def)
  then show "pad_name i \<notin> f_name ` set (reals ms)" by (metis imageE rangeI)
qed

lemma members_distinct: "apart fs \<Longrightarrow> distinct (map member_name fs)"
proof (induction fs rule: reals.induct)
  case (2 f ms)
  note a = apart_Real [OF 2(2)]
  have "f_name f \<notin> pad_name ` fst ` set (paddings ms)" using a(3) by blast
  then have "f_name f \<notin> member_name ` set ms" using a(2) by (simp add: member_name_in)
  with 2(1) [OF a(1)] show ?case by simp
next
  case (3 i n ms)
  note a = apart_Padding [OF 3(2)]
  have "pad_name i \<notin> pad_name ` fst ` set (paddings ms)" using a(2) pad_name_inj by blast
  then have "pad_name i \<notin> member_name ` set ms" using a(3) by (simp add: member_name_in)
  with 3(1) [OF a(1)] show ?case by (simp add: pad_name_def)
qed simp

text \<open>
  C23: the generated struct compiles as intended: for a message the resolver has laid out, the members of
  the emitted struct are those of the layout, in its order and with its types; their names are
  distinct when the field names of the file are and none is called like a padding; and the size in the
  emitted assertion is the one rustc gives the struct.
\<close>

theorem emitted_struct_matches:
  assumes "resolves fs search name l" and "rustc_sizes fs search salign env" and "\<And>s. salign s dvd scalar_size s"
    and "emit_with_paths lx l paths = Ok em"
    and "load_msg fs search name = Ok d" and "distinct (map f_name (d_fields d))"
    and "\<And>f k. f \<in> set (d_fields d) \<Longrightarrow> f_name f \<noteq> ''_padding'' @ show_nat k"
  shows "map (\<lambda>(i, ty). (ident_text i, ty)) (em_fields em) = map (\<lambda>f. (member_name f, member_type f)) (l_fields l) \<and>
    distinct (map (ident_text \<circ> fst) (em_fields em)) \<and> em_assert_size em = fst (env name)"
proof -
  from resolves_members [OF assms(1)] assms(5) have reals: "reals (l_fields l) = sort_fields (d_fields d)"
    and pads: "map fst (paddings (l_fields l)) = [0..<length (paddings (l_fields l))]" by auto
  have perm: "mset (sort_fields (d_fields d)) = mset (d_fields d)"
    by (rule mset_sort_fields)
  then have "mset (map f_name (reals (l_fields l))) = mset (map f_name (d_fields d))" by (simp add: reals)
  then have "distinct (map f_name (reals (l_fields l)))" using assms(6) by (metis mset_eq_imp_distinct_iff)
  moreover have "set (reals (l_fields l)) = set (d_fields d)" using perm reals by (metis set_mset_mset)
  moreover have "\<forall>f \<in> set (d_fields d). f_name f \<notin> range pad_name" using assms(7) by (auto simp: pad_name_def)
  ultimately have "distinct (map member_name (l_fields l))"
    using pads by (intro members_distinct) (simp add: apart_def)
  moreover have "map (ident_text \<circ> fst) (em_fields em) = map fst (map (\<lambda>(i, ty). (ident_text i, ty)) (em_fields em))"
    by (auto simp: case_prod_beta)
  then have "map (ident_text \<circ> fst) (em_fields em) = map member_name (l_fields l)"
    unfolding emit_Ok(1) [OF assms(4)] by (simp add: comp_def)
  moreover have "em_assert_size em = fst (env name)"
    using pure_env_ok [OF assms(2,3)] assms(1) emit_Ok(2) [OF assms(4)] unfolding resolves_pure by fastforce
  ultimately show ?thesis using emit_Ok(1) [OF assms(4)] by simp
qed

lemma demo_emit:
  "emit_with_paths word_lexer demo_outer default_paths = Ok \<lparr>em_name = Plain ''Outer'',
     em_fields = [(Plain ''c'', ''f32''), (Plain ''a'', ''u8''), (Plain (''_padding'' @ show_nat 0), ''[u8; '' @ show_nat 3 @ ''usize]''),
       (Plain ''b'', ''[Inner; '' @ show_nat 2 @ '']'')],
     em_consts = [], em_n_topics = 1, em_topics = [''outer''], em_assert_size = 40,
     em_items = [\<lparr>et_topic = Plain ''outer'', et_msg = Plain ''Outer'', et_cname = ''__ORB_NAME_OUTER'',
       et_cstr = ''outer'' @ [CHR 0x00], et_meta = ''__ORB_META_OUTER'', et_resolved = ''__ORB_META_OUTER_RESOLVED'',
       et_size = 40, et_size_no_padding = 40, et_hash = l_message_hash demo_outer, et_id = - 1, et_queue = ''1'',
       et_paths = default_paths\<rparr>]\<rparr>"
  by (simp add: emit_with_paths_def demo_outer_def emit_field_def sanitize_ident_def is_rust_keyword_def rust_keywords_def
      ident_new_def word_lexer_def tokens_def emit_topic_def queue_expr_def to_uppercase_def char_class_defs
      char_of_def bit_Suc_0_iff)

theorem emitted_struct_matches_witness:
  "\<exists>em. emit_with_paths word_lexer demo_outer default_paths = Ok em \<and>
     distinct (map (ident_text \<circ> fst) (em_fields em)) \<and> em_assert_size em = fst (demo_env ''Outer'')"
proof -
  have "f_name f \<noteq> ''_padding'' @ show_nat k"
    if "f \<in> set [\<lparr>f_name = ''a'', f_ty = Scalar TU8\<rparr>, \<lparr>f_name = ''b'', f_ty = NestedArray ''Inner'' 2\<rparr>,
       \<lparr>f_name = ''c'', f_ty = Scalar TF32\<rparr>]" for f k using that by auto
  then show ?thesis
    using emitted_struct_matches [OF demo_resolves demo_sizes dvd_refl demo_emit demo_load(1)] demo_emit by simp
qed

text \<open>The keywords of Rust 2024, apart from the weak ones: in use, and reserved for later.\<close>

definition strict_keywords :: "string list" where
  "strict_keywords = [''as'', ''async'', ''await'', ''break'', ''const'', ''continue'', ''crate'', ''dyn'', ''else'', ''enum'',
     ''extern'', ''false'', ''fn'', ''for'', ''if'', ''impl'', ''in'', ''let'', ''loop'', ''match'', ''mod'', ''move'', ''mut'',
     ''pub'', ''ref'', ''return'', ''self'', ''Self'', ''static'', ''struct'', ''super'', ''trait'', ''true'', ''type'',
     ''unsafe'', ''use'', ''where'', ''while'']"

definition reserved_keywords :: "string list" where
  "reserved_keywords = [''abstract'', ''become'', ''box'', ''do'', ''final'', ''gen'', ''macro'', ''override'', ''priv'',
     ''try'', ''typeof'', ''unsized'', ''virtual'', ''yield'']"

text \<open>Whether an identifier can name a member of a struct: no keyword as it is, and no path keyword behind \<open>r#\<close>.\<close>

fun names_member :: "ident \<Rightarrow> bool" where
  "names_member (Plain s) = (s \<notin> set strict_keywords \<and> s \<notin> set reserved_keywords)"
| "names_member (Raw s) = (s \<notin> {''crate'', ''self'', ''super'', ''Self''})"

lemma keyword_lists:
  "list_all (\<lambda>w. w \<in> set strict_keywords \<and> w \<noteq> ''Self'') rust_keywords"
  "list_all (\<lambda>w. w \<in> set rust_keywords \<or> w = ''Self'') strict_keywords"
  "list_all (\<lambda>w. w \<in> set strict_keywords) [''crate'', ''self'', ''super'', ''Self'']"
  "list_all (\<lambda>w. w \<notin> set strict_keywords) reserved_keywords"
  by code_simp+

lemma keyword_listed: "is_rust_keyword w \<longleftrightarrow> w \<in> set strict_keywords \<and> w \<noteq> ''Self''"
  using keyword_lists(1,2) by (auto simp: is_rust_keyword_def list_all_iff)

lemma path_keywords: "w \<in> {''crate'', ''self'', ''super'', ''Self''} \<Longrightarrow> w \<in> set strict_keywords"
  using keyword_lists(3) by (auto simp: list_all_iff)

lemma reserved_not_strict: "w \<in> set reserved_keywords \<Longrightarrow> w \<notin> set strict_keywords"
  using keyword_lists(4) by (auto simp: list_all_iff)

lemma map_res_ok: "(\<exists>ys. map_res f xs = Ok ys) \<longleftrightarrow> (\<forall>x\<in>set xs. \<exists>y. f x = Ok y)"
proof (induction xs)
  case (Cons x xs)
  then show ?case by (cases "f x"; cases "map_res f xs") auto
qed simp

lemma padding_member: "names_member (Plain (''_padding'' @ s))"
  by (simp add: strict_keywords_def reserved_keywords_def)

lemma reals_in: "Real f \<in> set ms \<longleftrightarrow> f \<in> set (reals ms)"
  by (induction ms rule: reals.induct) auto

text \<open>What the emitter needs of the lexer for the other names of a message, and for its field names.\<close>

definition spells :: "lexer \<Rightarrow> laid_out_msg \<Rightarrow> bool" where
  "spells lx l \<longleftrightarrow>
     ident_ok lx (l_name l) \<and> (\<forall>t \<in> set (l_topics l). ident_ok lx t) \<and>
     (\<forall>c \<in> set (l_constants l). ident_ok lx (c_name c) \<and> lexes lx (rust_type (c_ty c)) \<and> lexes lx (c_value c)) \<and>
     (\<forall>f \<in> set (reals (l_fields l)). ident_ok lx (f_name f) \<and> lexes lx (rust_type_for (f_ty f)) \<and>
        (raw_ok lx (f_name f) \<longleftrightarrow> f_name f \<notin> {''crate'', ''self'', ''super'', ''Self''}))"

lemma emit_ok_iff:
  assumes "spells lx l"
  shows "(\<exists>em. emit_with_paths lx l paths = Ok em) \<longleftrightarrow> (\<forall>x \<in> set (l_fields l). \<exists>y. emit_field lx x = Ok y)"
proof -
  have "\<exists>ys. map_res (emit_topic lx (l_name l) (l_size l) (l_message_hash l) (l_constants l) paths) (l_topics l) = Ok ys"
    unfolding map_res_ok using assms by (simp add: spells_def emit_topic_def ident_new_def)
  moreover have "\<exists>ys. map_res (emit_constant lx) (l_constants l) = Ok ys"
    unfolding map_res_ok using assms by (simp add: spells_def emit_constant_def ident_new_def tokens_def)
  moreover have "ident_new lx (l_name l) = Ok (Plain (l_name l))" using assms by (simp add: spells_def ident_new_def)
  ultimately show ?thesis
    unfolding map_res_ok [symmetric] emit_with_paths_def
    by (cases "map_res (emit_field lx) (l_fields l)") auto
qed

lemma emit_field_keyword:
  assumes "ident_ok lx (f_name f)" and "lexes lx (rust_type_for (f_ty f))"
    and "raw_ok lx (f_name f) \<longleftrightarrow> f_name f \<notin> {''crate'', ''self'', ''super'', ''Self''}"
  shows "(\<exists>y. emit_field lx (Real f) = Ok y) \<longleftrightarrow> f_name f \<notin> {''crate'', ''self'', ''super''}"
    and "emit_field lx (Real f) = Ok (i, ty) \<Longrightarrow> names_member i \<longleftrightarrow> f_name f \<notin> set reserved_keywords \<and> f_name f \<noteq> ''Self''"
proof -
  let ?w = "f_name f"
  show "(\<exists>y. emit_field lx (Real f) = Ok y) \<longleftrightarrow> ?w \<notin> {''crate'', ''self'', ''super''}"
  proof (cases "is_rust_keyword ?w")
    case True
    then have "?w \<noteq> ''Self''" by (simp add: keyword_listed)
    with True assms show ?thesis
      by (auto simp: emit_field_def sanitize_ident_def ident_new_raw_def tokens_def)
  next
    case False
    then have "?w \<notin> {''crate'', ''self'', ''super''}" using path_keywords [of ?w] by (auto simp: keyword_listed)
    with False assms show ?thesis by (simp add: emit_field_def sanitize_ident_def ident_new_def tokens_def)
  qed
  assume e: "emit_field lx (Real f) = Ok (i, ty)"
  show "names_member i \<longleftrightarrow> ?w \<notin> set reserved_keywords \<and> ?w \<noteq> ''Self''"
  proof (cases "is_rust_keyword ?w")
    case True
    with e assms have "i = Raw ?w" "?w \<notin> {''crate'', ''self'', ''super'', ''Self''}"
      by (auto simp: emit_field_def sanitize_ident_def ident_new_raw_def tokens_def split: if_splits)
    moreover have "?w \<notin> set reserved_keywords" using True reserved_not_strict by (auto simp: keyword_listed)
    ultimately show ?thesis by simp
  next
    case False
    with e assms have "i = Plain ?w" by (auto simp: emit_field_def sanitize_ident_def ident_new_def tokens_def)
    moreover have "''Self'' \<in> set strict_keywords" by (simp add: strict_keywords_def)
    ultimately show ?thesis using False by (auto simp: keyword_listed)
  qed
qed

text \<open>
  C39: what becomes of field names that are keywords, for a message whose other names and types the lexer accepts. The generator
  panics exactly when a field is called \<open>self\<close>, \<open>super\<close> or \<open>crate\<close>, which no raw identifier can spell. When it does not,
  the members of the generated struct all have names that Rust 2024 allows exactly when no field is called like one of the
  words Rust reserves for later, or \<open>Self\<close>: these are emitted as they are, while every other keyword is emitted raw.
  What \<open>proc_macro2\<close> accepts is in the hypothesis \<open>spells\<close>: keywords are identifiers, and a raw one is not one of the path words.
\<close>

theorem keyword_fields:
  assumes "spells lx l"
  shows "((\<exists>p. emit_with_paths lx l paths = Err p) \<longleftrightarrow>
      (\<exists>f \<in> set (reals (l_fields l)). f_name f \<in> {''crate'', ''self'', ''super''})) \<and>
    (\<forall>em. emit_with_paths lx l paths = Ok em \<longrightarrow>
      ((\<forall>(i, ty) \<in> set (em_fields em). names_member i) \<longleftrightarrow>
       (\<forall>f \<in> set (reals (l_fields l)). f_name f \<notin> set reserved_keywords \<and> f_name f \<noteq> ''Self'')))"
proof -
  have f: "ident_ok lx (f_name f)" "lexes lx (rust_type_for (f_ty f))"
      "raw_ok lx (f_name f) \<longleftrightarrow> f_name f \<notin> {''crate'', ''self'', ''super'', ''Self''}" if "Real f \<in> set (l_fields l)" for f
    using assms that by (auto simp: spells_def reals_in)
  have pad: "\<exists>y. emit_field lx (Padding k n) = Ok y" for k n by (simp add: emit_field_def)
  have "(\<exists>em. emit_with_paths lx l paths = Ok em) \<longleftrightarrow>
      (\<forall>f \<in> set (reals (l_fields l)). f_name f \<notin> {''crate'', ''self'', ''super''})"
    unfolding emit_ok_iff [OF assms] using emit_field_keyword(1) [OF f] pad
    by (metis laid_out_field.exhaust reals_in)
  moreover have "(\<forall>(i, ty) \<in> set (em_fields em). names_member i) \<longleftrightarrow>
       (\<forall>f \<in> set (reals (l_fields l)). f_name f \<notin> set reserved_keywords \<and> f_name f \<noteq> ''Self'')"
    if em: "emit_with_paths lx l paths = Ok em" for em
  proof -
    have all: "list_all2 (\<lambda>x y. emit_field lx x = Ok y) (l_fields l) (em_fields em)"
      using em by (auto simp: emit_with_paths_def map_res_list_all2)
    have "(\<forall>(i, ty) \<in> set ys. names_member i) \<longleftrightarrow>
       (\<forall>f \<in> set (reals xs). f_name f \<notin> set reserved_keywords \<and> f_name f \<noteq> ''Self'')"
      if "list_all2 (\<lambda>x y. emit_field lx x = Ok y) xs ys" and "set xs \<subseteq> set (l_fields l)" for xs ys
      using that
    proof (induction rule: list_all2_induct)
      case (Cons x xs y ys)
      obtain i ty where y: "y = (i, ty)" by (cases y)
      show ?case
      proof (cases x)
        case (Real f)
        with Cons y emit_field_keyword(2) [OF f, of f i ty] show ?thesis by simp
      next
        case (Padding k n)
        with Cons y padding_member show ?thesis by (auto simp: emit_field_def)
      qed
    qed simp
    with all show ?thesis by blast
  qed
  ultimately show ?thesis by (cases "emit_with_paths lx l paths") auto
qed

definition keyword_demo :: "string list \<Rightarrow> laid_out_msg" where
  "keyword_demo names = demo_outer\<lparr>l_fields := map (\<lambda>w. Real \<lparr>f_name = w, f_ty = Scalar TU8\<rparr>) names\<rparr>"

theorem keyword_fields_witness:
  "(\<exists>p. emit_with_paths word_lexer (keyword_demo [''type'', ''self'']) default_paths = Err p) \<and>
   (\<exists>em. emit_with_paths word_lexer (keyword_demo [''type'', ''yield'']) default_paths = Ok em \<and>
      \<not> (\<forall>(i, ty) \<in> set (em_fields em). names_member i))"
proof -
  have s: "spells word_lexer (keyword_demo [''type'', w])" if "w = ''self'' \<or> w = ''yield''" for w
    using that by (auto simp: spells_def keyword_demo_def demo_outer_def word_lexer_def char_class_defs)
  have "\<exists>em. emit_with_paths word_lexer (keyword_demo [''type'', ''yield'']) default_paths = Ok em"
    using keyword_fields [OF s [of "''yield''"], of default_paths]
    by (cases "emit_with_paths word_lexer (keyword_demo [''type'', ''yield'']) default_paths") (auto simp: keyword_demo_def)
  then show ?thesis
    using keyword_fields [OF s [of "''yield''"], of default_paths] keyword_fields [OF s [of "''self''"], of default_paths]
    by (auto simp: keyword_demo_def reserved_keywords_def)
qed

text \<open>
  C40: the metadata of a topic holds the size of the message in 16 bits: it is the size of the struct
  exactly when that is below 65536, and its remainder otherwise. Nothing checks it.
\<close>

theorem emitted_size_truncates:
  assumes "emit_with_paths lx l paths = Ok em" and "e \<in> set (em_items em)"
  shows "unat (et_size e) = em_assert_size em mod 2 ^ 16 \<and>
    (unat (et_size e) = em_assert_size em \<longleftrightarrow> em_assert_size em < 2 ^ 16)"
proof -
  obtain t where "emit_topic lx (l_name l) (l_size l) (l_message_hash l) (l_constants l) paths t = Ok e"
    using emit_Ok(6) [OF assms(1)] assms(2) by (auto simp: list_all2_conv_all_nth in_set_conv_nth)
  then have "et_size e = of_nat (l_size l)" by (auto simp: emit_topic_def)
  then show ?thesis using emit_Ok(2) [OF assms(1)] by (auto simp: unat_of_nat)
qed

definition big_msg :: laid_out_msg where
  "big_msg = \<lparr>l_name = ''Big'', l_snake_name = ''big'', l_fields = [Real \<lparr>f_name = ''data'', f_ty = ScalarArray TU8 65536\<rparr>],
     l_constants = [], l_topics = [''big''], l_size = 65536, l_message_hash = 0\<rparr>"

theorem emitted_size_truncates_witness:
  "\<exists>em e. emit word_lexer big_msg = Ok em \<and> em_assert_size em = 65536 \<and> em_items em = [e] \<and> unat (et_size e) = 0"
proof -
  obtain em e where em: "emit_with_paths word_lexer big_msg default_paths = Ok em" "em_items em = [e]"
    by (simp add: emit_with_paths_def big_msg_def emit_field_def sanitize_ident_def is_rust_keyword_def rust_keywords_def
      ident_new_def word_lexer_def tokens_def emit_topic_def queue_expr_def char_class_defs)
  moreover have "em_assert_size em = 65536" using emit_Ok(2) [OF em(1)] by (simp add: big_msg_def)
  ultimately show ?thesis using emitted_size_truncates [OF em(1), of e] by (simp add: emit_def)
qed

section \<open>The items of the topics\<close>

lemma upper_inj:
  assumes "\<not> is_ascii_uppercase c" and "\<not> is_ascii_uppercase d"
    and "(if is_ascii_lowercase c then char_of ((of_char c :: nat) - 32) else c) =
      (if is_ascii_lowercase d then char_of ((of_char d :: nat) - 32) else d)"
  shows "c = d"
proof -
  have up: "(of_char (char_of ((of_char x :: nat) - 32) :: char) :: nat) = of_char x - 32" if "is_ascii_lowercase x" for x
    using that by (auto simp: is_ascii_lowercase_def intro!: mod_less)
  have "(of_char c :: nat) = of_char d"
    using arg_cong [OF assms(3), of "of_char :: char \<Rightarrow> nat"] assms(1,2)
    by (cases "is_ascii_lowercase c"; cases "is_ascii_lowercase d")
       (auto simp: up is_ascii_lowercase_def is_ascii_uppercase_def simp del: of_char_eq_iff)
  then show ?thesis by (simp add: of_char_eq_iff)
qed

lemma to_uppercase_inj:
  assumes "list_all (\<lambda>c. \<not> is_ascii_uppercase c) s" and "list_all (\<lambda>c. \<not> is_ascii_uppercase c) t"
    and "to_uppercase s = to_uppercase t"
  shows "s = t"
  using assms
proof (induction s arbitrary: t)
  case (Cons c s)
  then obtain d u where t: "t = d # u" by (cases t) (auto simp: to_uppercase_def)
  with Cons.prems have "c = d" using upper_inj [of c d] by (simp add: to_uppercase_def)
  moreover have "s = u" using Cons.IH [of u] Cons.prems t by (simp add: to_uppercase_def)
  ultimately show ?case by (simp add: t)
qed (simp add: to_uppercase_def)

definition statics :: "emitted_topic \<Rightarrow> string list" where
  "statics e = [et_cname e, et_meta e, et_resolved e]"

fun static_name :: "nat \<times> string \<Rightarrow> string" where
  "static_name (k, t) =
     (if k = 0 then ''__ORB_NAME_'' @ to_uppercase t
      else if k = 1 then ''__ORB_META_'' @ to_uppercase t
      else ''__ORB_META_'' @ to_uppercase t @ ''_RESOLVED'')"

lemma to_uppercase_resolved: "to_uppercase t @ ''_RESOLVED'' = to_uppercase (t @ ''_resolved'')"
  by (simp add: to_uppercase_def char_class_defs char_of_def bit_Suc_0_iff)

lemma lower_resolved: "list_all (\<lambda>c. \<not> is_ascii_uppercase c) (t @ ''_resolved'') = list_all (\<lambda>c. \<not> is_ascii_uppercase c) t"
  by (simp add: char_class_defs)

definition topic_names_ok :: "string list \<Rightarrow> bool" where
  "topic_names_ok ts \<longleftrightarrow> distinct ts \<and> (\<forall>t \<in> set ts. list_all (\<lambda>c. \<not> is_ascii_uppercase c) t) \<and>
     (\<forall>t \<in> set ts. t @ ''_resolved'' \<notin> set ts)"

lemma static_name_inj:
  assumes ok: "topic_names_ok ts" and "s \<in> set ts" "t \<in> set ts" and "j < 3" "k < 3"
    and eq: "static_name (j, s) = static_name (k, t)"
  shows "j = k \<and> s = t"
proof -
  have low: "list_all (\<lambda>c. \<not> is_ascii_uppercase c) s" "list_all (\<lambda>c. \<not> is_ascii_uppercase c) t"
    and res: "s @ ''_resolved'' \<noteq> t" "t @ ''_resolved'' \<noteq> s"
    using ok assms(2,3) by (auto simp: topic_names_ok_def)
  have "to_uppercase (s @ ''_resolved'') \<noteq> to_uppercase t" "to_uppercase (t @ ''_resolved'') \<noteq> to_uppercase s"
    using to_uppercase_inj low lower_resolved res by metis+
  moreover have "to_uppercase s = to_uppercase t \<Longrightarrow> s = t" using to_uppercase_inj low by blast
  moreover have "j = 0 \<or> j = 1 \<or> j = 2" "k = 0 \<or> k = 1 \<or> k = 2" using assms(4,5) by auto
  ultimately show ?thesis using eq by (auto simp flip: to_uppercase_resolved)
qed

lemma emit_topic_statics:
  "emit_topic lx n sz h cs paths t = Ok e \<Longrightarrow> statics e = map static_name [(0, t), (1, t), (2, t)]"
  by (auto simp: emit_topic_def statics_def)

lemma emitted_statics:
  "list_all2 (\<lambda>t e. emit_topic lx n sz h cs paths t = Ok e) ts es \<Longrightarrow>
   concat (map statics es) = map static_name (concat (map (\<lambda>t. [(0, t), (1, t), (2, t)]) ts))"
  by (induction rule: list_all2_induct) (simp_all add: emit_topic_statics)

lemma distinct_tagged: "distinct ts \<Longrightarrow> distinct (concat (map (\<lambda>t. [(0 :: nat, t), (1, t), (2, t)]) ts))"
  by (induction ts) auto

text \<open>
  The private items that the generator makes for the topics of a message have pairwise distinct
  names, so the expansion compiles, when the topics are distinct, in lower case, and none is another one
  followed by \<open>_resolved\<close>.
\<close>

theorem topic_items_distinct:
  assumes "emit_with_paths lx l paths = Ok em" and "topic_names_ok (l_topics l)"
  shows "distinct (concat (map statics (em_items em)))"
proof -
  let ?ps = "concat (map (\<lambda>t. [(0 :: nat, t), (1, t), (2, t)]) (l_topics l))"
  have "distinct ?ps" by (rule distinct_tagged) (use assms(2) in \<open>simp add: topic_names_ok_def\<close>)
  moreover have "inj_on static_name (set ?ps)"
  proof (rule inj_onI, clarify)
    fix j s k t
    assume "(j, s) \<in> set ?ps" and "(k, t) \<in> set ?ps" and eq: "static_name (j, s) = static_name (k, t)"
    then have "s \<in> set (l_topics l)" "t \<in> set (l_topics l)" "j < 3" "k < 3" by auto
    from static_name_inj [OF assms(2) this eq] show "j = k \<and> s = t" .
  qed
  ultimately show ?thesis
    unfolding emitted_statics [OF emit_Ok(6) [OF assms(1)]] distinct_map ..
qed

theorem topic_items_distinct_witness:
  "\<exists>em. emit_with_paths word_lexer demo_outer default_paths = Ok em \<and> distinct (concat (map statics (em_items em)))"
proof -
  have "topic_names_ok (l_topics demo_outer)" by (simp add: topic_names_ok_def demo_outer_def char_class_defs)
  then show ?thesis using topic_items_distinct [OF demo_emit] demo_emit by simp
qed

text \<open>Two topics whose items collide.\<close>

lemma topic_items_collide: "static_name (2, ''gps'') = static_name (1, ''gps_resolved'')"
  by (simp add: to_uppercase_def char_class_defs char_of_def bit_Suc_0_iff)

lemma metadata_calls_cached: "metadata_calls syn fs (Some m) = replicate (length fs) m"
  by (induction fs) (simp_all add: metadata_call_def)

text \<open>
  The generated \<open>metadata()\<close> returns the synthesized copy until PX4's table has the topic, and from
  then on always the metadata it found first, whatever the lookup would say.
\<close>

theorem metadata_settles:
  "metadata_calls syn fs None =
     (let n = length (takeWhile (\<lambda>f. f = None) fs) in replicate n syn @ replicate (length fs - n) (the (fs ! n)))"
proof (induction fs)
  case (Cons f fs)
  then show ?case by (cases f) (simp_all add: metadata_call_def metadata_calls_cached Let_def)
qed simp

end
