(* ===== verification/Ra_Memory.thy ===== *)
theory Ra_Memory
  imports Px4_Prelude
begin

text \<open>
  The memory of \<open>core::sync::atomic\<close> with the orderings the crate uses (\<open>Relaxed\<close>, \<open>Acquire\<close>, \<open>Release\<close>,
  \<open>AcqRel\<close>), for the lock-free parts of \<open>crates/px4-workqueue/src\<close>. A location keeps every value ever stored, in
  modification order; a thread has a view, the index of the newest entry of each location it knows of, and a load may
  return any entry that is not older than that. A release store publishes the view of its thread with the
  value, an acquire load that reads it takes the view over. A plain (non-atomic) location has a clock, the number
  of accesses so far: an access by a thread that does not know of all earlier ones is a data race.

  Stores go to the end of the modification order. That is exact for a location that only one thread stores to, and
  where everything behind the newest entry that the storing thread knows of was put there by read-modify-write
  operations, which leave no gap in the order (the state byte of \<open>Cell_Ra\<close>: who stores 0 has itself
  changed the byte since the last store). For the permit of \<open>Notify_Ra\<close> the other places are given there;
  the theories that use this memory have no other locations.
\<close>

section \<open>Memory and views\<close>

datatype atomic_ordering = Relaxed | Acquire | Release | AcqRel

fun acquires :: "atomic_ordering \<Rightarrow> bool" where
  "acquires Acquire = True"
| "acquires AcqRel = True"
| "acquires ord = False"

fun releases :: "atomic_ordering \<Rightarrow> bool" where
  "releases Release = True"
| "releases AcqRel = True"
| "releases ord = False"

type_synonym 'l view = "'l \<Rightarrow> nat"

definition view_join :: "'l view \<Rightarrow> 'l view \<Rightarrow> 'l view" where
  "view_join V W = (\<lambda>l. max (V l) (W l))"

record ('l, 'v) message =
  ms_value :: 'v
  ms_view :: "'l view"

record ('l, 'v) memory =
  mm_hist :: "'l \<Rightarrow> ('l, 'v) message list"
  mm_clock :: "'l \<Rightarrow> nat"

definition mem_new :: "('l \<Rightarrow> 'v option) \<Rightarrow> ('l, 'v) memory" where
  "mem_new init =
     \<lparr>mm_hist = (\<lambda>l. case init l of None \<Rightarrow> [] | Some v \<Rightarrow> [\<lparr>ms_value = v, ms_view = (\<lambda>_. 0)\<rparr>]),
      mm_clock = (\<lambda>_. 0)\<rparr>"

section \<open>Operations\<close>

text \<open>The entry a load reads: \<open>n\<close> picks one that is not older than what the thread knows.\<close>

definition read_index :: "nat \<Rightarrow> 'l \<Rightarrow> ('l, 'v) memory \<Rightarrow> 'l view \<Rightarrow> nat" where
  "read_index n l m V = max (V l) (min n (length (mm_hist m l) - 1))"

definition ra_load :: "atomic_ordering \<Rightarrow> nat \<Rightarrow> 'l \<Rightarrow> ('l, 'v) memory \<Rightarrow> 'l view \<Rightarrow> 'v \<times> 'l view" where
  "ra_load ord n l m V =
     (let k = read_index n l m V; msg = mm_hist m l ! k; V = V(l := k)
      in (ms_value msg, if acquires ord then view_join V (ms_view msg) else V))"

definition ra_store :: "atomic_ordering \<Rightarrow> 'l \<Rightarrow> 'v \<Rightarrow> ('l, 'v) memory \<Rightarrow> 'l view \<Rightarrow> ('l, 'v) memory \<times> 'l view" where
  "ra_store ord l v m V =
     (let k = length (mm_hist m l);
          V = V(l := k);
          msg = \<lparr>ms_value = v, ms_view = (if releases ord then V else (\<lambda>_. 0)(l := k))\<rparr>
      in (m\<lparr>mm_hist := (mm_hist m)(l := mm_hist m l @ [msg])\<rparr>, V))"

text \<open>
  A read-modify-write reads the newest entry and puts its own right behind it; the new entry also carries
  what the old one did (the release sequence goes on).
\<close>

definition ra_rmw ::
  "atomic_ordering \<Rightarrow> ('v \<Rightarrow> 'v) \<Rightarrow> 'l \<Rightarrow> ('l, 'v) memory \<Rightarrow> 'l view \<Rightarrow> 'v \<times> ('l, 'v) memory \<times> 'l view" where
  "ra_rmw ord f l m V =
     (let k = length (mm_hist m l);
          old = last (mm_hist m l);
          V = V(l := k);
          V = (if acquires ord then view_join V (ms_view old) else V);
          W = view_join (if releases ord then V else (\<lambda>_. 0)(l := k)) (ms_view old)
      in (ms_value old,
          m\<lparr>mm_hist := (mm_hist m)(l := mm_hist m l @ [\<lparr>ms_value = f (ms_value old), ms_view = W\<rparr>])\<rparr>,
          V))"

text \<open>
  \<open>compare_exchange\<close> fails on any entry it may read that is not the expected value, also an old one, and succeeds
  only on the newest. \<open>Ok\<close> and \<open>Err\<close> carry the value read.
\<close>

definition ra_cas ::
  "atomic_ordering \<Rightarrow> atomic_ordering \<Rightarrow> nat \<Rightarrow> 'v \<Rightarrow> 'v \<Rightarrow> 'l \<Rightarrow> ('l, 'v) memory \<Rightarrow> 'l view \<Rightarrow>
     ('v + 'v) \<times> ('l, 'v) memory \<times> 'l view" where
  "ra_cas succ fail n expected new l m V =
     (case ra_load fail n l m V of
        (v, V') \<Rightarrow>
          if v \<noteq> expected then (Err v, m, V')
          else if ms_value (last (mm_hist m l)) = expected
          then (case ra_rmw succ (\<lambda>_. new) l m V of (v, m', V') \<Rightarrow> (Ok v, m', V'))
          else (case ra_load fail (length (mm_hist m l) - 1) l m V of (v, V') \<Rightarrow> (Err v, m, V')))"

text \<open>An access to a plain location; the first component tells whether it races.\<close>

definition plain_access :: "'l \<Rightarrow> ('l, 'v) memory \<Rightarrow> 'l view \<Rightarrow> bool \<times> ('l, 'v) memory \<times> 'l view" where
  "plain_access l m V =
     (let c = mm_clock m l
      in (V l < c, m\<lparr>mm_clock := (mm_clock m)(l := c + 1)\<rparr>, V(l := c + 1)))"

section \<open>Facts\<close>

lemma view_join_apply [simp]: "view_join V W l = max (V l) (W l)"
  by (simp add: view_join_def)

text \<open>
  Views stay within the modification order: \<open>view_ok\<close> says so of one view, \<open>mem_ok\<close> of all views
  in the memory.
\<close>

definition view_ok :: "('l, 'v) memory \<Rightarrow> 'l view \<Rightarrow> bool" where
  "view_ok m V \<longleftrightarrow> (\<forall>l. V l < length (mm_hist m l) \<or> mm_hist m l = [])"

definition mem_ok :: "('l, 'v) memory \<Rightarrow> bool" where
  "mem_ok m \<longleftrightarrow> (\<forall>l. \<forall>msg\<in>set (mm_hist m l). view_ok m (ms_view msg))"

lemma view_ok_join: "view_ok m V \<Longrightarrow> view_ok m W \<Longrightarrow> view_ok m (view_join V W)"
  by (force simp: view_ok_def)

lemma view_ok_upd: "view_ok m V \<Longrightarrow> k < length (mm_hist m l) \<or> mm_hist m l = [] \<Longrightarrow> view_ok m (V(l := k))"
  by (simp add: view_ok_def)

lemma view_ok_grow:
  assumes "view_ok m V" and "mm_hist m' = (mm_hist m)(l := mm_hist m l @ [msg])" and "mm_hist m l \<noteq> []"
  shows "view_ok m' V"
  using assms by (auto simp: view_ok_def less_Suc_eq)

lemma view_ok_plain: "mm_hist m' = mm_hist m \<Longrightarrow> view_ok m' V \<longleftrightarrow> view_ok m V"
  by (simp add: view_ok_def)

lemma mem_ok_plain: "mm_hist m' = mm_hist m \<Longrightarrow> mem_ok m' \<longleftrightarrow> mem_ok m"
  by (simp add: mem_ok_def view_ok_def)

lemma mem_ok_grow:
  assumes "mem_ok m" and "mm_hist m' = (mm_hist m)(l := mm_hist m l @ [msg])" and "mm_hist m l \<noteq> []"
    and "view_ok m' (ms_view msg)"
  shows "mem_ok m'"
  using assms view_ok_grow [OF _ assms(2,3)] by (auto simp: mem_ok_def)

lemma read_index_bounds:
  assumes "view_ok m V" and "mm_hist m l \<noteq> []"
  shows "V l \<le> read_index n l m V" and "read_index n l m V < length (mm_hist m l)"
proof -
  have "length (mm_hist m l) \<noteq> 0" using assms(2) by simp
  then have "min n (length (mm_hist m l) - 1) < length (mm_hist m l)" by linarith
  moreover have "V l < length (mm_hist m l)" using assms by (auto simp: view_ok_def)
  ultimately show "read_index n l m V < length (mm_hist m l)" by (simp add: read_index_def)
qed (simp add: read_index_def)

lemma ra_load_spec:
  assumes "ra_load ord n l m V = (v, V')" and "view_ok m V" and "mm_hist m l \<noteq> []"
  obtains k where "V l \<le> k" and "k < length (mm_hist m l)" and "v = ms_value (mm_hist m l ! k)"
    and "V' = (if acquires ord then view_join (V(l := k)) (ms_view (mm_hist m l ! k)) else V(l := k))"
  using assms read_index_bounds [OF assms(2,3)] by (auto simp: ra_load_def Let_def)

lemma view_ok_load:
  assumes "ra_load ord n l m V = (v, V')" and "view_ok m V" and "mem_ok m" and "mm_hist m l \<noteq> []"
  shows "view_ok m V'"
proof -
  from ra_load_spec [OF assms(1,2,4)] obtain k where k: "k < length (mm_hist m l)"
    and V': "V' = (if acquires ord then view_join (V(l := k)) (ms_view (mm_hist m l ! k)) else V(l := k))" by metis
  have "view_ok m (ms_view (mm_hist m l ! k))" using assms(3) nth_mem [OF k] unfolding mem_ok_def by blast
  moreover have "view_ok m (V(l := k))" using assms(2) k by (simp add: view_ok_upd)
  ultimately show ?thesis using V' by (simp add: view_ok_join)
qed

lemma view_ok_zero: "mm_hist m l = [] \<or> k < length (mm_hist m l) \<Longrightarrow> view_ok m ((\<lambda>_. 0)(l := k))"
  by (auto simp: view_ok_def)

lemma ra_store_ok:
  assumes "ra_store ord l v m V = (m', V')" and "view_ok m V" and "mem_ok m" and "mm_hist m l \<noteq> []"
  shows "view_ok m' V'" and "mem_ok m'" and "view_ok m W \<Longrightarrow> view_ok m' W"
proof -
  let ?k = "length (mm_hist m l)"
  define msg where "msg = \<lparr>ms_value = v, ms_view = (if releases ord then V(l := ?k) else (\<lambda>_. 0)(l := ?k))\<rparr>"
  have m': "mm_hist m' = (mm_hist m)(l := mm_hist m l @ [msg])" and V': "V' = V(l := ?k)"
    using assms(1) by (auto simp: ra_store_def Let_def msg_def)
  show grow: "view_ok m W \<Longrightarrow> view_ok m' W" for W using view_ok_grow [OF _ m' assms(4)] .
  show own: "view_ok m' V'" unfolding V' by (rule view_ok_upd [OF grow [OF assms(2)]]) (simp add: m')
  have "view_ok m' ((\<lambda>_. 0)(l := ?k))" by (rule view_ok_zero) (simp add: m')
  with own have "view_ok m' (ms_view msg)" by (simp add: msg_def V')
  then show "mem_ok m'" by (rule mem_ok_grow [OF assms(3) m' assms(4)])
qed

lemma ra_rmw_ok:
  assumes "ra_rmw ord f l m V = (v, m', V')" and "view_ok m V" and "mem_ok m" and "mm_hist m l \<noteq> []"
  shows "view_ok m' V'" and "mem_ok m'" and "view_ok m W \<Longrightarrow> view_ok m' W"
proof -
  let ?k = "length (mm_hist m l)"
  let ?old = "ms_view (last (mm_hist m l))"
  let ?V = "if acquires ord then view_join (V(l := ?k)) ?old else V(l := ?k)"
  define msg where "msg = \<lparr>ms_value = f (ms_value (last (mm_hist m l))),
    ms_view = view_join (if releases ord then ?V else (\<lambda>_. 0)(l := ?k)) ?old\<rparr>"
  have m': "mm_hist m' = (mm_hist m)(l := mm_hist m l @ [msg])" and V': "V' = ?V"
    using assms(1) by (auto simp: ra_rmw_def Let_def msg_def)
  show grow: "view_ok m W \<Longrightarrow> view_ok m' W" for W using view_ok_grow [OF _ m' assms(4)] .
  have old: "view_ok m' ?old" using assms(3) last_in_set [OF assms(4)] unfolding mem_ok_def by (intro grow) blast
  have "view_ok m' (V(l := ?k))" by (rule view_ok_upd [OF grow [OF assms(2)]]) (simp add: m')
  with old show own: "view_ok m' V'" unfolding V' by (simp add: view_ok_join)
  have "view_ok m' ((\<lambda>_. 0)(l := ?k))" by (rule view_ok_zero) (simp add: m')
  with own old have "view_ok m' (ms_view msg)" by (simp add: msg_def V' view_ok_join)
  then show "mem_ok m'" by (rule mem_ok_grow [OF assms(3) m' assms(4)])
qed

lemma plain_access_ok:
  assumes "plain_access l m V = (race, m', V')" and "view_ok m V" and "mem_ok m" and "mm_hist m l = []"
  shows "view_ok m' V'" and "mem_ok m'" and "view_ok m W \<Longrightarrow> view_ok m' W"
proof -
  have m': "mm_hist m' = mm_hist m" and V': "V' = V(l := mm_clock m l + 1)"
    using assms(1) by (auto simp: plain_access_def Let_def)
  show "view_ok m' V'" using assms(2,4) by (simp add: view_ok_plain [OF m'] V' view_ok_upd)
  show "mem_ok m'" using assms(3) by (simp add: mem_ok_plain [OF m'])
  show "view_ok m W \<Longrightarrow> view_ok m' W" by (simp add: view_ok_plain [OF m'])
qed

lemma mem_new_ok: "mem_ok (mem_new init)" "view_ok (mem_new init) (\<lambda>_. 0)"
  by (auto simp: mem_ok_def view_ok_def mem_new_def split: option.splits)


text \<open>
  What a read-modify-write does: the new entry knows what the old one did, an acquiring thread learns it, a
  releasing thread passes on what it knows.
\<close>

lemma ra_rmw_spec:
  assumes "ra_rmw ord f l m V = (v, m', V')" and "view_ok m V" and "mem_ok m" and "mm_hist m l \<noteq> []"
  obtains msg where "v = ms_value (last (mm_hist m l))" and "mm_hist m' = (mm_hist m)(l := mm_hist m l @ [msg])"
    and "mm_clock m' = mm_clock m" and "ms_value msg = f v" and "V' l = length (mm_hist m l)"
    and "\<And>x. V x \<le> V' x" and "\<And>x. ms_view (last (mm_hist m l)) x \<le> ms_view msg x"
    and "\<And>x. acquires ord \<Longrightarrow> ms_view (last (mm_hist m l)) x \<le> V' x"
    and "\<And>x. releases ord \<Longrightarrow> V' x \<le> ms_view msg x"
proof -
  let ?k = "length (mm_hist m l)" and ?old = "ms_view (last (mm_hist m l))"
  have "view_ok m ?old" using assms(3) last_in_set [OF assms(4)] unfolding mem_ok_def by blast
  then have old: "?old l < ?k" using assms(4) by (auto simp: view_ok_def)
  have own: "V l < ?k" using assms(2,4) by (auto simp: view_ok_def)
  show thesis
    using that [of "\<lparr>ms_value = f (ms_value (last (mm_hist m l))),
        ms_view = view_join (if releases ord then V' else (\<lambda>_. 0)(l := ?k)) ?old\<rparr>"] assms(1) old own
    by (auto simp: ra_rmw_def Let_def)
qed

lemma ra_load_grows:
  assumes "ra_load ord n l m V = (v, V')" and "view_ok m V" and "mm_hist m l \<noteq> []"
  shows "V x \<le> V' x"
proof -
  from ra_load_spec [OF assms] obtain k where "V l \<le> k"
    and "V' = (if acquires ord then view_join (V(l := k)) (ms_view (mm_hist m l ! k)) else V(l := k))" by metis
  then show ?thesis by auto
qed

lemma ra_cas_cases:
  assumes "ra_cas succ fail n expected new l m V = (r, m', V')" and "view_ok m V" and "mem_ok m" and "mm_hist m l \<noteq> []"
  obtains (Ok) "r = Ok expected" and "ms_value (last (mm_hist m l)) = expected"
      and "ra_rmw succ (\<lambda>_. new) l m V = (expected, m', V')"
    | (Err) k v where "r = Err v" and "v \<noteq> expected" and "m' = m" and "V l \<le> k" and "k < length (mm_hist m l)"
      and "v = ms_value (mm_hist m l ! k)" and "view_ok m V'" and "\<And>x. V x \<le> V' x"
proof -
  obtain v1 V1 where l1: "ra_load fail n l m V = (v1, V1)" by (metis surj_pair)
  obtain v2 V2 where l2: "ra_load fail (length (mm_hist m l) - 1) l m V = (v2, V2)" by (metis surj_pair)
  obtain v3 m3 V3 where l3: "ra_rmw succ (\<lambda>_. new) l m V = (v3, m3, V3)" by (metis surj_pair)
  consider "v1 \<noteq> expected" | "v1 = expected" "ms_value (last (mm_hist m l)) = expected"
    | "v1 = expected" "ms_value (last (mm_hist m l)) \<noteq> expected" by blast
  then show thesis
  proof cases
    case 1
    then have r: "r = Err v1" "m' = m" "V' = V1" using assms(1) l1 by (auto simp: ra_cas_def)
    from ra_load_spec [OF l1 assms(2,4)] obtain k where "V l \<le> k" "k < length (mm_hist m l)" "v1 = ms_value (mm_hist m l ! k)"
      by metis
    with 1 r Err view_ok_load [OF l1 assms(2-4)] ra_load_grows [OF l1 assms(2,4)] show thesis by blast
  next
    case 2
    have "v3 = ms_value (last (mm_hist m l))" using l3 by (auto simp: ra_rmw_def Let_def)
    with 2 assms(1) l1 l3 Ok show thesis by (auto simp: ra_cas_def)
  next
    case 3
    then have r: "r = Err v2" "m' = m" "V' = V2" using assms(1) l1 l2 by (auto simp: ra_cas_def)
    have "read_index (length (mm_hist m l) - 1) l m V = length (mm_hist m l) - 1"
      using assms(2,4) by (auto simp: read_index_def view_ok_def max_def dest!: spec [of _ l])
    then have v2: "v2 = ms_value (mm_hist m l ! (length (mm_hist m l) - 1))"
      using l2 by (auto simp: ra_load_def Let_def)
    have "V l \<le> length (mm_hist m l) - 1" "length (mm_hist m l) - 1 < length (mm_hist m l)"
      using assms(2,4) by (auto simp: view_ok_def dest!: spec [of _ l])
    with 3 r v2 Err view_ok_load [OF l2 assms(2-4)] ra_load_grows [OF l2 assms(2,4)] show thesis
      using assms(4) by (metis last_conv_nth)
  qed
qed

text \<open>A thread that has stored last loads what it stored.\<close>

lemma ra_load_own:
  assumes "ra_load Relaxed k l m V = (x, V')" and "view_ok m V" and "length (mm_hist m l) = Suc (V l)"
  shows "x = ms_value (mm_hist m l ! V l)" and "V' = V"
proof -
  have "mm_hist m l \<noteq> []" using assms(3) by auto
  from ra_load_spec [OF assms(1,2) this] obtain i where "V l \<le> i" "i < length (mm_hist m l)"
    and x: "x = ms_value (mm_hist m l ! i)" and V': "V' = V(l := i)" by auto
  then have "i = V l" using assms(3) by simp
  with x V' show "x = ms_value (mm_hist m l ! V l)" "V' = V" by simp_all
qed


end
