(* ===== verification/Atomic_Waker.thy ===== *)
theory Atomic_Waker
  imports Px4_Prelude
begin

text \<open>
  \<open>crates/px4-workqueue/src/atomic_waker.rs\<close>: the lock-free single-slot waker store. Each
  method is a small program over the atomic \<open>state\<close> and the slot; a thread's program counter
  (\<open>aw_pc\<close>) says which atomic operation it does next, and \<open>aw_step t\<close> does it. Any number of
  threads interleave. The atomic operations are sequentially consistent here;
  \<open>Waker_Ra\<close> has the same steps under the orderings of the source. A failing \<open>debug_assert\<close> is the program
  counter \<open>Panicked\<close>. \<open>aw_woken\<close> records the calls of \<open>Waker::wake\<close> and
  \<open>Waker::wake_by_ref\<close>.
\<close>

section \<open>State\<close>

type_synonym usize = "64 word"

definition WAITING :: usize where
  "WAITING = 0"

definition REGISTERING :: usize where
  "REGISTERING = 1"

definition WAKING :: usize where
  "WAKING = 2"

type_synonym waker = nat

text \<open>
  The points of \<open>register\<close> (\<open>Reg...\<close>), of \<open>take\<close> and \<open>wake\<close> (\<open>Take...\<close>); \<open>Invoke r\<close> is the final
  \<open>if let Some(w) = r { w.wake() }\<close> of both.
\<close>

datatype aw_pc =
    Idle
  | RegCas waker
  | RegWrite waker
  | RegRelease waker
  | RegDrain
  | RegReset "waker option"
  | RegSelf waker
  | TakeOr
  | TakeSlot
  | TakeRelease "waker option"
  | Invoke "waker option"
  | Panicked

record aw =
  aw_state :: usize
  aw_slot :: "waker option"
  aw_pcs :: "nat \<Rightarrow> aw_pc"
  aw_woken :: "waker list"

definition aw_new :: aw where
  "aw_new = \<lparr>aw_state = WAITING, aw_slot = None, aw_pcs = (\<lambda>_. Idle), aw_woken = []\<rparr>"

definition aw_goto :: "nat \<Rightarrow> aw_pc \<Rightarrow> aw \<Rightarrow> aw" where
  "aw_goto t pc s = s\<lparr>aw_pcs := (aw_pcs s)(t := pc)\<rparr>"

section \<open>Calls\<close>

definition aw_register :: "nat \<Rightarrow> waker \<Rightarrow> aw \<Rightarrow> aw" where
  "aw_register t w = aw_goto t (RegCas w)"

definition aw_wake :: "nat \<Rightarrow> aw \<Rightarrow> aw" where
  "aw_wake t = aw_goto t TakeOr"

section \<open>Atomic steps\<close>

definition reg_cas :: "nat \<Rightarrow> waker \<Rightarrow> aw \<Rightarrow> aw" where
  "reg_cas t w s =
     (if aw_state s = WAITING then aw_goto t (RegWrite w) (s\<lparr>aw_state := REGISTERING\<rparr>)
      else if aw_state s = WAKING then aw_goto t (RegSelf w) s
      else if aw_state s = REGISTERING \<or> aw_state s = REGISTERING OR WAKING then aw_goto t Idle s
      else aw_goto t Panicked s)"

definition reg_release :: "nat \<Rightarrow> waker \<Rightarrow> aw \<Rightarrow> aw" where
  "reg_release t w s =
     (if aw_state s = REGISTERING then aw_goto t Idle (s\<lparr>aw_state := WAITING\<rparr>)
      else if aw_state s = REGISTERING OR WAKING then aw_goto t RegDrain s
      else aw_goto t Panicked s)"

definition take_or :: "nat \<Rightarrow> aw \<Rightarrow> aw" where
  "take_or t s =
     aw_goto t (if aw_state s = WAITING then TakeSlot else Invoke None)
       (s\<lparr>aw_state := aw_state s OR WAKING\<rparr>)"

definition invoke :: "waker option \<Rightarrow> aw \<Rightarrow> aw" where
  "invoke r s = (case r of None \<Rightarrow> s | Some w \<Rightarrow> s\<lparr>aw_woken := aw_woken s @ [w]\<rparr>)"

definition aw_step :: "nat \<Rightarrow> aw \<Rightarrow> aw" where
  "aw_step t s =
     (case aw_pcs s t of
        Idle \<Rightarrow> s
      | RegCas w \<Rightarrow> reg_cas t w s
      | RegWrite w \<Rightarrow> aw_goto t (RegRelease w) (s\<lparr>aw_slot := Some w\<rparr>)
      | RegRelease w \<Rightarrow> reg_release t w s
      | RegDrain \<Rightarrow> aw_goto t (RegReset (aw_slot s)) (s\<lparr>aw_slot := None\<rparr>)
      | RegReset r \<Rightarrow> aw_goto t (Invoke r) (s\<lparr>aw_state := WAITING\<rparr>)
      | RegSelf w \<Rightarrow> aw_goto t Idle (invoke (Some w) s)
      | TakeOr \<Rightarrow> take_or t s
      | TakeSlot \<Rightarrow> aw_goto t (TakeRelease (aw_slot s)) (s\<lparr>aw_slot := None\<rparr>)
      | TakeRelease r \<Rightarrow> aw_goto t (Invoke r) (s\<lparr>aw_state := aw_state s AND NOT WAKING\<rparr>)
      | Invoke r \<Rightarrow> aw_goto t Idle (invoke r s)
      | Panicked \<Rightarrow> s)"

lemmas aw_step_defs = reg_cas_def reg_release_def take_or_def invoke_def aw_goto_def

text \<open>
  The transitions: an idle thread calls \<open>register\<close> or \<open>wake\<close>, or a thread inside a call does
  its next atomic operation.
\<close>

inductive aw_trans :: "aw \<Rightarrow> aw \<Rightarrow> bool" where
  call_register: "aw_pcs s t = Idle \<Longrightarrow> aw_trans s (aw_register t w s)"
| call_wake: "aw_pcs s t = Idle \<Longrightarrow> aw_trans s (aw_wake t s)"
| advance: "aw_trans s (aw_step t s)"

inductive_cases aw_transE: "aw_trans s s'"

text \<open>A call run alone, until it returns (at most six steps).\<close>

definition aw_run :: "nat \<Rightarrow> aw \<Rightarrow> aw" where
  "aw_run t s = (aw_step t ^^ 6) s"

section \<open>Who owns the slot\<close>

fun reg_owner :: "aw_pc \<Rightarrow> bool" where
  "reg_owner (RegWrite w) = True"
| "reg_owner (RegRelease w) = True"
| "reg_owner RegDrain = True"
| "reg_owner (RegReset r) = True"
| "reg_owner pc = False"

fun wake_owner :: "aw_pc \<Rightarrow> bool" where
  "wake_owner TakeSlot = True"
| "wake_owner (TakeRelease r) = True"
| "wake_owner pc = False"

fun drains :: "aw_pc \<Rightarrow> bool" where
  "drains RegDrain = True"
| "drains (RegReset r) = True"
| "drains pc = False"

fun owner :: "aw_pc \<Rightarrow> bool" where
  "owner (RegWrite w) = True"
| "owner (RegRelease w) = True"
| "owner RegDrain = True"
| "owner (RegReset r) = True"
| "owner TakeSlot = True"
| "owner (TakeRelease r) = True"
| "owner pc = False"

text \<open>
  The state word says who may touch the slot: nobody while it is \<open>WAITING\<close>, one registering
  thread while the \<open>REGISTERING\<close> bit is set, one waking thread while it is \<open>WAKING\<close> alone.
\<close>

definition owner_state :: "aw_pc \<Rightarrow> usize \<Rightarrow> bool" where
  "owner_state pc st \<longleftrightarrow>
     (if wake_owner pc then st = WAKING
      else if drains pc then st = REGISTERING OR WAKING
      else st = REGISTERING \<or> st = REGISTERING OR WAKING)"

definition owns :: "aw \<Rightarrow> nat option \<Rightarrow> bool" where
  "owns s ow \<longleftrightarrow>
     (\<forall>t. aw_pcs s t \<noteq> Panicked) \<and> (\<forall>t. owner (aw_pcs s t) \<longleftrightarrow> ow = Some t) \<and>
     (case ow of None \<Rightarrow> aw_state s = WAITING | Some t \<Rightarrow> owner_state (aw_pcs s t) (aw_state s))"

definition aw_inv :: "aw \<Rightarrow> bool" where
  "aw_inv s \<longleftrightarrow> (\<exists>ow. owns s ow)"

lemma aw_state_consts [simp]:
  "WAITING = 0" "REGISTERING = 1" "WAKING = 2"
  by (simp_all add: WAITING_def REGISTERING_def WAKING_def)

lemma aw_goto_sel [simp]:
  "aw_state (aw_goto t pc s) = aw_state s"
  "aw_slot (aw_goto t pc s) = aw_slot s"
  "aw_woken (aw_goto t pc s) = aw_woken s"
  "aw_pcs (aw_goto t pc s) = (aw_pcs s)(t := pc)"
  by (simp_all add: aw_goto_def)

lemma invoke_sel [simp]:
  "aw_state (invoke r s) = aw_state s"
  "aw_slot (invoke r s) = aw_slot s"
  "aw_pcs (invoke r s) = aw_pcs s"
  "aw_woken (invoke r s) = aw_woken s @ (case r of None \<Rightarrow> [] | Some w \<Rightarrow> [w])"
  by (simp_all add: invoke_def split: option.split)

lemma aw_inv_new: "aw_inv aw_new"
  by (auto simp: aw_inv_def owns_def aw_new_def)

text \<open>A thread that does not own the slot moves to a point that does not own it.\<close>

lemma owns_free_move:
  assumes "owns s ow" and "\<not> owner (aw_pcs s t)" and "\<not> owner pc" and "pc \<noteq> Panicked"
    and "aw_pcs s' = (aw_pcs s)(t := pc)" and "aw_state s' = aw_state s"
  shows "owns s' ow"
proof -
  have "ow \<noteq> Some t" using assms(1,2) by (auto simp: owns_def)
  with assms show ?thesis by (auto simp: owns_def split: option.splits)
qed

text \<open>The owner moves to a point that owns the slot.\<close>

lemma owns_keep:
  assumes "owns s (Some t)" and "owner pc" and "aw_pcs s' = (aw_pcs s)(t := pc)"
    and "owner_state pc (aw_state s')"
  shows "owns s' (Some t)"
  using assms by (auto simp: owns_def)

text \<open>The owner lets go, a thread acquires.\<close>

lemma owns_release:
  assumes "owns s (Some t)" and "\<not> owner pc" and "pc \<noteq> Panicked"
    and "aw_pcs s' = (aw_pcs s)(t := pc)" and "aw_state s' = WAITING"
  shows "owns s' None"
  using assms by (auto simp: owns_def)

lemma owns_acquire:
  assumes "owns s None" and "owner pc" and "aw_pcs s' = (aw_pcs s)(t := pc)"
    and "owner_state pc (aw_state s')"
  shows "owns s' (Some t)"
  using assms by (auto simp: owns_def)

text \<open>Another thread sets the \<open>WAKING\<close> bit.\<close>

lemma owns_or:
  assumes "owns s (Some u)" and "\<not> owner (aw_pcs s t)" and "\<not> owner pc" and "pc \<noteq> Panicked"
    and "aw_pcs s' = (aw_pcs s)(t := pc)" and "aw_state s' = aw_state s OR WAKING"
  shows "owns s' (Some u)"
proof -
  have "u \<noteq> t" using assms(1,2) by (auto simp: owns_def)
  with assms show ?thesis by (auto simp: owns_def owner_state_def)
qed

lemma owns_states: "owns s ow \<Longrightarrow> aw_state s \<in> {0, 1, 2, 3}"
  by (auto simp: owns_def owner_state_def split: option.splits if_splits)

lemma owns_None: "owns s ow \<Longrightarrow> aw_state s = WAITING \<longleftrightarrow> ow = None"
  by (auto simp: owns_def owner_state_def split: option.splits if_splits)

lemma owns_me: "owns s ow \<Longrightarrow> owner (aw_pcs s t) \<Longrightarrow> ow = Some t"
  by (auto simp: owns_def)

lemma owns_my_state: "owns s (Some t) \<Longrightarrow> owner_state (aw_pcs s t) (aw_state s)"
  by (auto simp: owns_def)

lemma owns_reg_cas:
  assumes inv: "owns s ow" and pc: "aw_pcs s t = RegCas w"
  shows "\<exists>ow'. owns (reg_cas t w s) ow'"
proof (cases "aw_state s = WAITING")
  case True
  then have "owns s None" using inv owns_None by auto
  from owns_acquire [OF this, of "RegWrite w" _ t] show ?thesis
    using True pc by (intro exI [of _ "Some t"]) (simp add: reg_cas_def owner_state_def)
next
  case False
  with owns_states [OF inv] consider "aw_state s = 2" | "aw_state s = 1 \<or> aw_state s = 3" by auto
  then have "owns (reg_cas t w s) ow"
  proof cases
    case 1
    then show ?thesis by (intro owns_free_move [OF inv, of t "RegSelf w"]) (simp_all add: pc reg_cas_def)
  next
    case 2
    then show ?thesis by (intro owns_free_move [OF inv, of t Idle]) (auto simp: pc reg_cas_def)
  qed
  then show ?thesis ..
qed

lemma owns_take_or:
  assumes inv: "owns s ow" and pc: "aw_pcs s t = TakeOr"
  shows "\<exists>ow'. owns (take_or t s) ow'"
proof (cases ow)
  case None
  with inv have "aw_state s = 0" by (simp add: owns_def)
  with owns_acquire [OF inv [unfolded None], of TakeSlot _ t] show ?thesis
    using pc by (intro exI [of _ "Some t"]) (auto simp: take_or_def owner_state_def)
next
  case (Some u)
  with owns_None [OF inv] have "aw_state s \<noteq> 0" by simp
  with owns_or [OF inv [unfolded Some], of t "Invoke None"] show ?thesis
    using pc by (intro exI [of _ "Some u"]) (auto simp: take_or_def)
qed

text \<open>The owner goes on, or lets go of the slot.\<close>

lemma owns_owner_step:
  assumes own: "owns s (Some t)"
  shows "\<exists>ow'. owns (aw_step t s) ow'"
proof -
  note st = owns_my_state [OF own]
  have me: "owner (aw_pcs s t)" using own by (simp add: owns_def)
  have keep: "\<exists>ow'. owns s' ow'"
    if "owner pc" "owner_state pc (aw_state s)" "aw_pcs s' = (aw_pcs s)(t := pc)" "aw_state s' = aw_state s" for s' pc
    by (rule exI [of _ "Some t"], rule owns_keep [OF own that(1,3)]) (simp add: that)
  have release: "\<exists>ow'. owns s' ow'"
    if "\<not> owner pc" "pc \<noteq> Panicked" "aw_pcs s' = (aw_pcs s)(t := pc)" "aw_state s' = 0" for s' pc
    by (rule exI [of _ None], rule owns_release [OF own that(1-3)]) (simp add: that)
  show ?thesis
  proof (cases "aw_pcs s t")
    case (RegWrite w)
    then show ?thesis using st by (intro keep [of "RegRelease w"]) (auto simp: aw_step_def owner_state_def)
  next
    case (RegRelease w)
    then consider "aw_state s = 1" | "aw_state s = 3" using st by (auto simp: owner_state_def)
    then show ?thesis
    proof cases
      case 1
      then show ?thesis using RegRelease by (intro release [of Idle]) (auto simp: aw_step_def reg_release_def)
    next
      case 2
      then show ?thesis using RegRelease
        by (intro keep [of RegDrain]) (auto simp: aw_step_def reg_release_def owner_state_def)
    qed
  next
    case RegDrain
    then show ?thesis using st by (intro keep [of "RegReset (aw_slot s)"]) (auto simp: aw_step_def owner_state_def)
  next
    case (RegReset r)
    then show ?thesis by (intro release [of "Invoke r"]) (auto simp: aw_step_def)
  next
    case TakeSlot
    then show ?thesis using st by (intro keep [of "TakeRelease (aw_slot s)"]) (auto simp: aw_step_def owner_state_def)
  next
    case (TakeRelease r)
    then show ?thesis using st by (intro release [of "Invoke r"]) (auto simp: aw_step_def owner_state_def)
  qed (use me in simp_all)
qed

lemma owns_step:
  assumes inv: "owns s ow"
  shows "\<exists>ow'. owns (aw_step t s) ow'"
proof (cases "owner (aw_pcs s t)")
  case True
  then have "owns s (Some t)" using inv owns_me [OF inv, of t] by simp
  then show ?thesis by (rule owns_owner_step)
next
  case False
  show ?thesis
  proof (cases "aw_pcs s t")
    case (RegCas w)
    with owns_reg_cas [OF inv RegCas] show ?thesis by (simp add: aw_step_def)
  next
    case TakeOr
    with owns_take_or [OF inv TakeOr] show ?thesis by (simp add: aw_step_def)
  next
    case (Invoke r)
    with owns_free_move [OF inv, of t Idle "aw_step t s"] show ?thesis
      by (intro exI [of _ ow]) (auto simp: aw_step_def)
  next
    case (RegSelf w)
    with owns_free_move [OF inv, of t Idle "aw_step t s"] show ?thesis
      by (intro exI [of _ ow]) (auto simp: aw_step_def)
  next
    case Idle
    with inv show ?thesis by (auto simp: aw_step_def)
  next
    case Panicked
    with inv show ?thesis by (auto simp: owns_def)
  qed (use False in simp_all)
qed

lemma aw_inv_step: "aw_inv s \<Longrightarrow> aw_inv (aw_step t s)"
  using owns_step by (auto simp: aw_inv_def)

lemma aw_inv_call:
  "aw_inv s \<Longrightarrow> aw_pcs s t = Idle \<Longrightarrow> \<not> owner pc \<Longrightarrow> pc \<noteq> Panicked \<Longrightarrow> aw_inv (aw_goto t pc s)"
  unfolding aw_inv_def using owns_free_move [of s _ t pc "aw_goto t pc s"] by fastforce

lemma aw_inv_trans: "aw_trans s s' \<Longrightarrow> aw_inv s \<Longrightarrow> aw_inv s'"
  by (induction rule: aw_trans.induct)
     (auto simp: aw_register_def aw_wake_def intro: aw_inv_call aw_inv_step)

section \<open>Reachable states\<close>

inductive aw_reach :: "aw \<Rightarrow> bool" where
  reach_new: "aw_reach aw_new"
| reach_trans: "aw_reach s \<Longrightarrow> aw_trans s s' \<Longrightarrow> aw_reach s'"

lemma aw_reach_inv: "aw_reach s \<Longrightarrow> aw_inv s"
  by (induction rule: aw_reach.induct) (auto intro: aw_inv_new aw_inv_trans)

section \<open>Calls end\<close>

text \<open>How many steps of its own a thread still takes at most.\<close>

fun aw_rank :: "aw_pc \<Rightarrow> nat" where
  "aw_rank Idle = 0"
| "aw_rank (Invoke r) = 1"
| "aw_rank (RegSelf w) = 1"
| "aw_rank (RegReset r) = 2"
| "aw_rank (TakeRelease r) = 2"
| "aw_rank RegDrain = 3"
| "aw_rank TakeSlot = 3"
| "aw_rank (RegRelease w) = 4"
| "aw_rank TakeOr = 4"
| "aw_rank (RegWrite w) = 5"
| "aw_rank (RegCas w) = 6"
| "aw_rank Panicked = 0"

lemma aw_step_other: "u \<noteq> t \<Longrightarrow> aw_pcs (aw_step t s) u = aw_pcs s u"
  by (cases "aw_pcs s t") (simp_all add: aw_step_def reg_cas_def reg_release_def take_or_def)

lemma aw_step_rank:
  "aw_inv s \<Longrightarrow> aw_pcs s t \<noteq> Idle \<Longrightarrow> aw_rank (aw_pcs (aw_step t s) t) < aw_rank (aw_pcs s t)"
  by (cases "aw_pcs s t")
     (auto simp: aw_step_def reg_cas_def reg_release_def take_or_def aw_inv_def owns_def)

lemma aw_step_idle: "aw_pcs s t = Idle \<Longrightarrow> aw_step t s = s"
  by (simp add: aw_step_def)

definition aw_sched :: "nat list \<Rightarrow> aw \<Rightarrow> aw" where
  "aw_sched ts s = fold aw_step ts s"

lemma aw_sched_rank:
  "aw_inv s \<Longrightarrow> aw_rank (aw_pcs (aw_sched ts s) t) \<le> aw_rank (aw_pcs s t) - count_list ts t \<and> aw_inv (aw_sched ts s)"
proof (induction ts arbitrary: s)
  case (Cons u ts)
  have "aw_rank (aw_pcs (aw_step u s) t) \<le> aw_rank (aw_pcs s t) - (if u = t then 1 else 0)"
  proof (cases "u = t")
    case True
    show ?thesis
    proof (cases "aw_pcs s t = Idle")
      case True
      then show ?thesis using \<open>u = t\<close> by (simp add: aw_step_idle)
    next
      case False
      from aw_step_rank [OF Cons.prems this] show ?thesis using True by simp
    qed
  next
    case False
    then show ?thesis by (simp add: aw_step_other)
  qed
  with Cons.IH [OF aw_inv_step [OF Cons.prems, of u]] show ?case
    by (auto simp: aw_sched_def)
qed (simp add: aw_sched_def)

lemma aw_rank_le: "aw_rank pc \<le> 6"
  by (cases pc) simp_all

lemma aw_rank_0: "pc \<noteq> Panicked \<Longrightarrow> aw_rank pc = 0 \<longleftrightarrow> pc = Idle"
  by (cases pc) simp_all

lemma aw_no_panic: "aw_inv s \<Longrightarrow> aw_pcs s t \<noteq> Panicked"
  by (auto simp: aw_inv_def owns_def)

section \<open>Calls that nobody interrupts\<close>

lemma aw_run_register:
  assumes "aw_state s = WAITING" and "aw_pcs s t = Idle"
  shows "aw_run t (aw_register t w s) = s\<lparr>aw_slot := Some w\<rparr>"
proof -
  have pcs: "(aw_pcs s)(t := Idle) = aw_pcs s" using assms(2) by auto
  show ?thesis
    using assms pcs
    by (simp add: aw_run_def aw_register_def eval_nat_numeral aw_step_def reg_cas_def reg_release_def aw_goto_def)
qed

lemma aw_run_wake:
  assumes "aw_state s = WAITING" and "aw_pcs s t = Idle"
  shows "aw_run t (aw_wake t s) =
     s\<lparr>aw_slot := None, aw_woken := aw_woken s @ (case aw_slot s of None \<Rightarrow> [] | Some w \<Rightarrow> [w])\<rparr>"
proof -
  have pcs: "(aw_pcs s)(t := Idle) = aw_pcs s" using assms(2) by auto
  show ?thesis
    using assms pcs
    by (simp add: aw_run_def aw_wake_def eval_nat_numeral aw_step_def take_or_def invoke_def aw_goto_def
        split: option.splits)
qed

section \<open>Properties\<close>

text \<open>
  In every reachable state, with any number of threads inside \<open>register\<close> and \<open>wake\<close>, at most
  one thread may touch the slot, the state word is one of \<open>WAITING\<close>, \<open>REGISTERING\<close>, \<open>WAKING\<close> and
  \<open>REGISTERING | WAKING\<close>, it is \<open>WAITING\<close> exactly when no thread may touch the slot, and no
  \<open>debug_assert\<close> fails.
\<close>

theorem atomic_waker_exclusive:
  assumes "aw_reach s"
  shows "(owner (aw_pcs s t) \<longrightarrow> owner (aw_pcs s u) \<longrightarrow> t = u) \<and>
     aw_state s \<in> {WAITING, REGISTERING, WAKING, REGISTERING OR WAKING} \<and>
     (aw_state s = WAITING \<longleftrightarrow> (\<forall>v. \<not> owner (aw_pcs s v))) \<and> aw_pcs s t \<noteq> Panicked"
proof -
  from aw_reach_inv [OF assms] obtain ow where ow: "owns s ow" by (auto simp: aw_inv_def)
  then have "aw_state s = WAITING \<longleftrightarrow> (\<forall>v. \<not> owner (aw_pcs s v))"
    using owns_None [OF ow] by (cases ow) (auto simp: owns_def)
  with ow owns_states [OF ow] show ?thesis by (auto simp: owns_def)
qed

text \<open>Thread 0 registers waker 7 and is about to release the slot when thread 1 starts to wake.\<close>

definition aw_demo :: aw where
  "aw_demo = aw_step 1 (aw_wake 1 (aw_step 0 (aw_step 0 (aw_register 0 7 aw_new))))"

lemma aw_demo_reach: "aw_reach aw_demo"
  unfolding aw_demo_def
  by (intro reach_trans [OF _ advance] reach_trans [OF _ call_wake] reach_trans [OF _ call_register] reach_new)
     (simp_all add: aw_new_def aw_register_def aw_step_def reg_cas_def)

theorem atomic_waker_exclusive_witness:
  "aw_pcs aw_demo 0 = RegRelease 7 \<and> aw_state aw_demo = REGISTERING OR WAKING \<and> \<not> owner (aw_pcs aw_demo 1)"
proof -
  have "aw_pcs aw_demo 0 = RegRelease 7" and "aw_state aw_demo = REGISTERING OR WAKING"
    by (simp_all add: aw_demo_def aw_new_def aw_register_def aw_wake_def aw_step_def reg_cas_def take_or_def aw_goto_def)
  with atomic_waker_exclusive [OF aw_demo_reach, of 0 1] show ?thesis by auto
qed

text \<open>
  \<open>register\<close> and \<open>wake\<close> are wait-free: after six steps of its own a thread is out of its call,
  whatever the other threads do in between.
\<close>

theorem atomic_waker_wait_free:
  assumes "aw_reach s" and "6 \<le> count_list ts t"
  shows "aw_pcs (aw_sched ts s) t = Idle"
proof -
  from aw_sched_rank [OF aw_reach_inv [OF assms(1)], of ts t]
  have "aw_rank (aw_pcs (aw_sched ts s) t) = 0" and inv: "aw_inv (aw_sched ts s)"
    using assms(2) aw_rank_le [of "aw_pcs s t"] by auto
  then show ?thesis using aw_rank_0 [OF aw_no_panic [OF inv]] by blast
qed

theorem atomic_waker_wait_free_witness:
  "aw_pcs (aw_sched [0, 1, 0, 0, 1, 0, 0, 0] aw_demo) 0 = Idle"
  using atomic_waker_wait_free [OF aw_demo_reach, of "[0, 1, 0, 0, 1, 0, 0, 0]" 0] by simp

text \<open>
  Called one after the other, the store holds the last registered waker and hands it out once:
  after registering \<open>v\<close> and \<open>w\<close>, the first \<open>wake\<close> invokes \<open>w\<close> only, and a second one invokes
  nothing.
\<close>

theorem atomic_waker_last_registration:
  assumes "aw_state s = WAITING" and "\<And>t. aw_pcs s t = Idle"
  shows "aw_woken (aw_run t (aw_wake t (aw_run r (aw_register r w (aw_run q (aw_register q v s)))))) =
       aw_woken s @ [w] \<and>
     aw_woken (aw_run u (aw_wake u (aw_run t (aw_wake t (aw_run r (aw_register r w s)))))) =
       aw_woken s @ [w]"
  using assms by (simp add: aw_run_register aw_run_wake)

theorem atomic_waker_last_registration_witness:
  "aw_woken (aw_run 1 (aw_wake 1 (aw_run 0 (aw_register 0 8 (aw_run 0 (aw_register 0 7 aw_new)))))) = [8]"
  using atomic_waker_last_registration [of aw_new 1 0 8 0 7] by (simp add: aw_new_def)

end
