(* ===== verification/Wake_Protocol.thy ===== *)
theory Wake_Protocol
  imports Atomic_Waker
begin

text \<open>
  The protocol every future of the crate follows (\<open>Notified::poll\<close>, \<open>Recv::poll\<close> and
  \<open>Send::poll\<close> of the channel, \<open>Sleep::poll\<close>, \<open>Recv::poll\<close> of a subscription): try, register the
  task's waker, try again, and only then return \<open>Pending\<close>; the other side makes the resource ready
  and then calls \<open>AtomicWaker::wake\<close>. The resource is a parameter: \<open>attempt\<close> is the poll's attempt,
  \<open>put\<close> what the other side does before it wakes (\<open>None\<close>: it fails and does not wake).
  One task polls (thread 0, waker 0), any number of threads \<open>Suc i\<close> notify, and the atomic steps of
  the waker interleave freely.
\<close>

section \<open>The system\<close>

datatype 'r poll_pc = PStart | PRegister | PRecheck | PReady 'r | PPending

record ('s, 'r) wake_sys =
  ws_aw :: aw
  ws_shared :: 's
  ws_poll :: "'r poll_pc"
  ws_mark :: nat

datatype 'a ws_act =
    Poll
  | PollStep
  | Notify nat 'a
  | NotifyStep nat

definition ws_new :: "'s \<Rightarrow> ('s, 'r) wake_sys" where
  "ws_new sh = \<lparr>ws_aw = aw_new, ws_shared = sh, ws_poll = PStart, ws_mark = 0\<rparr>"

text \<open>The executor polls the future: at first, after \<open>Pending\<close>, or a fresh one after \<open>Ready\<close>.\<close>

fun can_poll :: "'r poll_pc \<Rightarrow> bool" where
  "can_poll PRegister = False"
| "can_poll PRecheck = False"
| "can_poll pc = True"

definition ws_begin :: "('s \<Rightarrow> 'r option \<times> 's) \<Rightarrow> ('s, 'r) wake_sys \<Rightarrow> ('s, 'r) wake_sys" where
  "ws_begin attempt s =
     (case attempt (ws_shared s) of
        (Some r, sh) \<Rightarrow> s\<lparr>ws_shared := sh, ws_poll := PReady r, ws_mark := length (aw_woken (ws_aw s))\<rparr>
      | (None, sh) \<Rightarrow> s\<lparr>ws_aw := aw_register 0 0 (ws_aw s), ws_shared := sh, ws_poll := PRegister,
                       ws_mark := length (aw_woken (ws_aw s))\<rparr>)"

definition ws_recheck :: "('s \<Rightarrow> 'r option \<times> 's) \<Rightarrow> ('s, 'r) wake_sys \<Rightarrow> ('s, 'r) wake_sys" where
  "ws_recheck attempt s =
     (case attempt (ws_shared s) of
        (Some r, sh) \<Rightarrow> s\<lparr>ws_shared := sh, ws_poll := PReady r\<rparr>
      | (None, sh) \<Rightarrow> s\<lparr>ws_shared := sh, ws_poll := PPending\<rparr>)"

fun ws_do ::
  "('s \<Rightarrow> 'r option \<times> 's) \<Rightarrow> ('a \<Rightarrow> 's \<Rightarrow> 's option) \<Rightarrow> 'a ws_act \<Rightarrow> ('s, 'r) wake_sys \<Rightarrow> ('s, 'r) wake_sys" where
  "ws_do attempt put Poll s = (if can_poll (ws_poll s) then ws_begin attempt s else s)"
| "ws_do attempt put PollStep s =
     (case ws_poll s of
        PRegister \<Rightarrow>
          if aw_pcs (ws_aw s) 0 = Idle then s\<lparr>ws_poll := PRecheck\<rparr>
          else s\<lparr>ws_aw := aw_step 0 (ws_aw s)\<rparr>
      | PRecheck \<Rightarrow> ws_recheck attempt s
      | _ \<Rightarrow> s)"
| "ws_do attempt put (Notify i a) s =
     (if aw_pcs (ws_aw s) (Suc i) = Idle
      then (case put a (ws_shared s) of
              None \<Rightarrow> s
            | Some sh \<Rightarrow> s\<lparr>ws_shared := sh, ws_aw := aw_wake (Suc i) (ws_aw s)\<rparr>)
      else s)"
| "ws_do attempt put (NotifyStep i) s = s\<lparr>ws_aw := aw_step (Suc i) (ws_aw s)\<rparr>"

definition ws_run ::
  "('s \<Rightarrow> 'r option \<times> 's) \<Rightarrow> ('a \<Rightarrow> 's \<Rightarrow> 's option) \<Rightarrow> 'a ws_act list \<Rightarrow> ('s, 'r) wake_sys \<Rightarrow> ('s, 'r) wake_sys" where
  "ws_run attempt put acts s = fold (ws_do attempt put) acts s"

section \<open>Coverage of a parked task\<close>

text \<open>Thread 0 only registers waker 0, the others only wake.\<close>

fun poll_pc_ok :: "aw \<Rightarrow> aw_pc \<Rightarrow> bool" where
  "poll_pc_ok a Idle = True"
| "poll_pc_ok a (RegCas w) = (w = 0)"
| "poll_pc_ok a (RegWrite w) = (w = 0)"
| "poll_pc_ok a (RegRelease w) = (w = 0 \<and> aw_slot a = Some 0)"
| "poll_pc_ok a RegDrain = (aw_slot a = Some 0)"
| "poll_pc_ok a (RegReset r) = (r = Some 0)"
| "poll_pc_ok a (Invoke r) = (r = Some 0)"
| "poll_pc_ok a (RegSelf w) = (w = 0)"
| "poll_pc_ok a pc = False"

fun notify_pc_ok :: "aw_pc \<Rightarrow> bool" where
  "notify_pc_ok Idle = True"
| "notify_pc_ok TakeOr = True"
| "notify_pc_ok TakeSlot = True"
| "notify_pc_ok (TakeRelease r) = (r = None \<or> r = Some 0)"
| "notify_pc_ok (Invoke r) = (r = None \<or> r = Some 0)"
| "notify_pc_ok pc = False"

definition roles :: "aw \<Rightarrow> bool" where
  "roles a \<longleftrightarrow> poll_pc_ok a (aw_pcs a 0) \<and> (\<forall>i. notify_pc_ok (aw_pcs a (Suc i))) \<and>
     (aw_slot a = None \<or> aw_slot a = Some 0)"

text \<open>A thread that has taken the waker, or has it within reach, and will invoke it.\<close>

fun carries :: "aw \<Rightarrow> aw_pc \<Rightarrow> bool" where
  "carries a TakeSlot = (aw_slot a = Some 0)"
| "carries a (TakeRelease r) = (r = Some 0)"
| "carries a (Invoke r) = (r = Some 0)"
| "carries a pc = False"

definition carried :: "aw \<Rightarrow> bool" where
  "carried a \<longleftrightarrow> (\<exists>i. carries a (aw_pcs a (Suc i)))"

definition armed :: "aw \<Rightarrow> bool" where
  "armed a \<longleftrightarrow> aw_slot a = Some 0 \<and> aw_state a = WAITING \<or> carried a"

definition waking :: "aw \<Rightarrow> bool" where
  "waking a \<longleftrightarrow> (\<exists>i. aw_pcs a (Suc i) = TakeOr) \<or> carried a"

definition ws_inv :: "('s \<Rightarrow> bool) \<Rightarrow> ('s \<Rightarrow> bool) \<Rightarrow> ('s, 'r) wake_sys \<Rightarrow> bool" where
  "ws_inv ok ready s \<longleftrightarrow>
     ok (ws_shared s) \<and> aw_inv (ws_aw s) \<and> roles (ws_aw s) \<and> ws_mark s \<le> length (aw_woken (ws_aw s)) \<and>
     (ws_poll s \<noteq> PRegister \<longrightarrow> aw_pcs (ws_aw s) 0 = Idle) \<and>
     (length (aw_woken (ws_aw s)) = ws_mark s \<longrightarrow>
        (ws_poll s = PRegister \<and> aw_pcs (ws_aw s) 0 = Idle \<or> ws_poll s = PRecheck \<longrightarrow> armed (ws_aw s)) \<and>
        (ws_poll s = PPending \<longrightarrow> armed (ws_aw s) \<and> (ready (ws_shared s) \<longrightarrow> waking (ws_aw s))))"

section \<open>Steps of a notifier\<close>

lemma notify_pc_cases:
  assumes "notify_pc_ok pc"
  obtains "pc = Idle" | "pc = TakeOr" | "pc = TakeSlot"
    | r where "pc = TakeRelease r" "r = None \<or> r = Some 0" | r where "pc = Invoke r" "r = None \<or> r = Some 0"
  using assms by (cases pc) auto

lemma owner_unique: "aw_inv a \<Longrightarrow> owner (aw_pcs a t) \<Longrightarrow> owner (aw_pcs a u) \<Longrightarrow> t = u"
  by (auto simp: aw_inv_def owns_def)

lemma owner_not_waiting: "aw_inv a \<Longrightarrow> owner (aw_pcs a t) \<Longrightarrow> aw_state a \<noteq> 0"
proof -
  assume "aw_inv a" and own: "owner (aw_pcs a t)"
  then obtain ow where ow: "owns a ow" by (auto simp: aw_inv_def)
  from owns_me [OF ow own] owns_None [OF ow] show ?thesis by simp
qed

lemma poll_pc_ok_slot:
  "poll_pc_ok a pc \<Longrightarrow> \<not> owner pc \<or> aw_slot b = aw_slot a \<Longrightarrow> poll_pc_ok b pc"
  by (cases pc) auto

lemma aw_step_slot: "\<not> owner (aw_pcs a t) \<Longrightarrow> aw_slot (aw_step t a) = aw_slot a"
  by (cases "aw_pcs a t") (auto simp: aw_step_def reg_cas_def take_or_def)

lemma notify_step_ok:
  assumes "notify_pc_ok (aw_pcs a t)" and "aw_slot a = None \<or> aw_slot a = Some 0"
  shows "notify_pc_ok (aw_pcs (aw_step t a) t) \<and>
     (aw_slot (aw_step t a) = None \<or> aw_slot (aw_step t a) = Some 0)"
  using assms by (cases "aw_pcs a t") (auto simp: aw_step_def take_or_def)

lemma roles_notify_step:
  assumes inv: "aw_inv a" and r: "roles a"
  shows "roles (aw_step (Suc i) a)"
proof -
  define b where "b = aw_step (Suc i) a"
  have pcs: "aw_pcs b t = aw_pcs a t" if "t \<noteq> Suc i" for t
    unfolding b_def using that by (rule aw_step_other)
  have slot0: "\<not> owner (aw_pcs a 0) \<or> aw_slot b = aw_slot a"
  proof (cases "owner (aw_pcs a 0)")
    case True
    then have "\<not> owner (aw_pcs a (Suc i))" using owner_unique [OF inv, of 0 "Suc i"] by auto
    then show ?thesis unfolding b_def by (simp add: aw_step_slot)
  qed simp
  have "poll_pc_ok a (aw_pcs a 0)" using r by (simp add: roles_def)
  from poll_pc_ok_slot [OF this slot0] have "poll_pc_ok b (aw_pcs b 0)" by (simp add: pcs)
  moreover have i: "notify_pc_ok (aw_pcs b (Suc i)) \<and> (aw_slot b = None \<or> aw_slot b = Some 0)"
    unfolding b_def using r by (intro notify_step_ok) (auto simp: roles_def)
  moreover have "notify_pc_ok (aw_pcs b (Suc j))" for j
    using i r pcs [of "Suc j"] by (cases "j = i") (auto simp: roles_def)
  ultimately show ?thesis unfolding b_def [symmetric] by (simp add: roles_def)
qed

lemma carries_other:
  assumes inv: "aw_inv a" and "carries a (aw_pcs a (Suc j))" and "j \<noteq> i"
  shows "carries (aw_step (Suc i) a) (aw_pcs (aw_step (Suc i) a) (Suc j))"
proof -
  let ?b = "aw_step (Suc i) a"
  have pc: "aw_pcs ?b (Suc j) = aw_pcs a (Suc j)" using assms(3) by (intro aw_step_other) simp
  have "aw_slot ?b = aw_slot a" if "aw_pcs a (Suc j) = TakeSlot"
    using that owner_unique [OF inv, of "Suc j" "Suc i"] assms(3) by (intro aw_step_slot) auto
  with assms(2) show ?thesis unfolding pc by (cases "aw_pcs a (Suc j)") auto
qed

lemma carried_notify_step:
  assumes inv: "aw_inv a" and c: "carried a"
  shows "carried (aw_step (Suc i) a) \<or> length (aw_woken a) < length (aw_woken (aw_step (Suc i) a))"
proof -
  from c obtain j where j: "carries a (aw_pcs a (Suc j))" by (auto simp: carried_def)
  show ?thesis
  proof (cases "j = i")
    case False
    from carries_other [OF inv j this] show ?thesis by (auto simp: carried_def)
  next
    case True
    let ?b = "aw_step (Suc i) a"
    from j True have "carries ?b (aw_pcs ?b (Suc i)) \<or> length (aw_woken a) < length (aw_woken ?b)"
      by (cases "aw_pcs a (Suc i)") (auto simp: aw_step_def)
    then show ?thesis by (auto simp: carried_def)
  qed
qed

lemma woken_mono: "length (aw_woken a) \<le> length (aw_woken (aw_step t a))"
  by (cases "aw_pcs a t") (auto simp: aw_step_def reg_cas_def reg_release_def take_or_def)

lemma armed_notify_step:
  assumes inv: "aw_inv a" and r: "roles a" and arm: "armed a"
    and quiet: "length (aw_woken (aw_step (Suc i) a)) = length (aw_woken a)"
  shows "armed (aw_step (Suc i) a) \<and> (waking a \<longrightarrow> waking (aw_step (Suc i) a))"
proof (cases "carried a")
  case True
  with carried_notify_step [OF inv True, of i] quiet show ?thesis by (auto simp: armed_def waking_def)
next
  case False
  with arm have slot: "aw_slot a = Some 0" and st: "aw_state a = 0" by (auto simp: armed_def)
  from r have "notify_pc_ok (aw_pcs a (Suc i))" by (simp add: roles_def)
  then show ?thesis
  proof (cases rule: notify_pc_cases)
    case 1
    then show ?thesis using arm by (simp add: aw_step_idle)
  next
    case 2
    let ?b = "aw_step (Suc i) a"
    have "aw_pcs ?b (Suc i) = TakeSlot" "aw_slot ?b = Some 0"
      using 2 slot st by (simp_all add: aw_step_def take_or_def)
    then have "carries ?b (aw_pcs ?b (Suc i))" by simp
    then have "carried ?b" unfolding carried_def by blast
    then show ?thesis by (simp add: armed_def waking_def)
  next
    case 3
    then show ?thesis using owner_not_waiting [OF inv, of "Suc i"] st by simp
  next
    case (4 r)
    then show ?thesis using owner_not_waiting [OF inv, of "Suc i"] st by simp
  next
    case (5 r)
    let ?b = "aw_step (Suc i) a"
    have "\<not> carries a (aw_pcs a (Suc i))" using False unfolding carried_def by blast
    then have "r = None" using 5 by auto
    then have b: "?b = aw_goto (Suc i) Idle a" using 5 by (simp add: aw_step_def invoke_def)
    have "waking ?b" if "waking a"
    proof -
      from that False obtain j where j: "aw_pcs a (Suc j) = TakeOr" unfolding waking_def by blast
      with 5 have "j \<noteq> i" by auto
      with j have "aw_pcs ?b (Suc j) = TakeOr" by (simp add: b)
      then show ?thesis unfolding waking_def by blast
    qed
    then show ?thesis using slot st by (simp add: armed_def b)
  qed
qed

section \<open>Steps of the poller\<close>

lemma not_registering:
  assumes inv: "aw_inv a" and r: "roles a" and pc: "aw_pcs a 0 = RegCas w"
  shows "aw_state a = 0 \<or> aw_state a = 2"
proof -
  from inv obtain ow where ow: "owns a ow" by (auto simp: aw_inv_def)
  show ?thesis
  proof (cases ow)
    case None
    with ow show ?thesis by (simp add: owns_def)
  next
    case (Some t)
    with ow have own: "owner (aw_pcs a t)" by (simp add: owns_def)
    then obtain i where t: "t = Suc i" using pc by (cases t) auto
    have "notify_pc_ok (aw_pcs a (Suc i))" using r by (simp add: roles_def)
    then have "wake_owner (aw_pcs a t)" using own by (cases rule: notify_pc_cases) (auto simp: t)
    then show ?thesis using owns_my_state [OF ow [unfolded Some]] by (simp add: owner_state_def)
  qed
qed

lemma poll_step_ok:
  assumes inv: "aw_inv a" and r: "roles a" and busy: "aw_pcs a 0 \<noteq> Idle"
  defines "b \<equiv> aw_step 0 a"
  shows "poll_pc_ok b (aw_pcs b 0) \<and> (aw_slot b = None \<or> aw_slot b = Some 0) \<and>
     (aw_pcs b 0 = Idle \<longrightarrow> aw_slot b = Some 0 \<and> aw_state b = WAITING \<or> length (aw_woken a) < length (aw_woken b))"
proof -
  from r have ok: "poll_pc_ok a (aw_pcs a 0)" and slot: "aw_slot a = None \<or> aw_slot a = Some 0"
    by (auto simp: roles_def)
  from inv obtain ow where ow: "owns a ow" by (auto simp: aw_inv_def)
  show ?thesis
  proof (cases "aw_pcs a 0")
    case (RegCas w)
    with not_registering [OF inv r RegCas] ok slot show ?thesis
      by (auto simp: b_def aw_step_def reg_cas_def)
  next
    case (RegRelease w)
    then have "owns a (Some 0)" using ow owns_me [OF ow, of 0] by simp
    from owns_my_state [OF this] have "aw_state a = 1 \<or> aw_state a = 3"
      using RegRelease by (auto simp: owner_state_def)
    with RegRelease ok slot show ?thesis
      by (auto simp: b_def aw_step_def reg_release_def)
  qed (use ok slot busy in \<open>auto simp: b_def aw_step_def\<close>)
qed

lemma roles_poll_step:
  assumes "aw_inv a" and "roles a" and "aw_pcs a 0 \<noteq> Idle"
  shows "roles (aw_step 0 a) \<and>
    (aw_pcs (aw_step 0 a) 0 = Idle \<longrightarrow>
       armed (aw_step 0 a) \<or> length (aw_woken a) < length (aw_woken (aw_step 0 a)))"
proof -
  have "aw_pcs (aw_step 0 a) (Suc i) = aw_pcs a (Suc i)" for i by (rule aw_step_other) simp
  with poll_step_ok [OF assms] assms(2) show ?thesis by (auto simp: roles_def armed_def)
qed

section \<open>The contract of the resource\<close>

text \<open>
  What the protocol needs of the resource, in states that satisfy its invariant \<open>ok\<close>: both sides
  keep the invariant, a poll's attempt fails exactly when the resource is not ready, and a failed
  attempt does not make it ready.
\<close>

locale wake_source =
  fixes attempt :: "'s \<Rightarrow> 'r option \<times> 's"
    and put :: "'a \<Rightarrow> 's \<Rightarrow> 's option"
    and ok :: "'s \<Rightarrow> bool"
    and ready :: "'s \<Rightarrow> bool"
  assumes attempt_ok: "ok s \<Longrightarrow> ok (snd (attempt s))"
    and put_ok: "ok s \<Longrightarrow> put a s = Some s' \<Longrightarrow> ok s'"
    and attempt_None: "ok s \<Longrightarrow> fst (attempt s) = None \<longleftrightarrow> \<not> ready s"
    and attempt_stays: "ok s \<Longrightarrow> \<not> ready s \<Longrightarrow> \<not> ready (snd (attempt s))"
begin

lemma inv_new: "ok sh \<Longrightarrow> ws_inv ok ready (ws_new sh)"
  by (auto simp: ws_inv_def ws_new_def aw_inv_new roles_def) (simp_all add: aw_new_def)

lemma inv_poll:
  assumes inv: "ws_inv ok ready s" and can: "can_poll (ws_poll s)"
  shows "ws_inv ok ready (ws_begin attempt s)"
proof -
  have ok': "ok (snd (attempt (ws_shared s)))"
    using inv by (intro attempt_ok) (simp add: ws_inv_def)
  from inv can have idle: "aw_pcs (ws_aw s) 0 = Idle" and aw: "aw_inv (ws_aw s)" and r: "roles (ws_aw s)"
    by (auto simp: ws_inv_def)
  have "aw_inv (aw_register 0 0 (ws_aw s))"
    unfolding aw_register_def using aw_inv_call [OF aw idle] by simp
  moreover have "roles (aw_register 0 0 (ws_aw s))"
    using r by (simp add: roles_def aw_register_def)
  ultimately show ?thesis
    using idle aw r ok' by (auto simp: ws_begin_def ws_inv_def aw_register_def split: prod.splits option.splits)
qed

lemma inv_poll_step:
  assumes inv: "ws_inv ok ready s"
  shows "ws_inv ok ready (ws_do attempt put PollStep s)"
proof (cases "ws_poll s")
  case PRegister
  show ?thesis
  proof (cases "aw_pcs (ws_aw s) 0 = Idle")
    case True
    with inv PRegister show ?thesis by (simp add: ws_inv_def)
  next
    case False
    from inv have aw: "aw_inv (ws_aw s)" and r: "roles (ws_aw s)" and ok: "ok (ws_shared s)"
      and mark: "ws_mark s \<le> length (aw_woken (ws_aw s))" by (auto simp: ws_inv_def)
    from roles_poll_step [OF aw r False] woken_mono [of "ws_aw s" 0] aw_inv_step [OF aw, of 0] mark ok PRegister False
    show ?thesis by (auto simp: ws_inv_def)
  qed
next
  case PRecheck
  have ok: "ok (ws_shared s)" using inv by (simp add: ws_inv_def)
  show ?thesis
  proof (cases "fst (attempt (ws_shared s))")
    case None
    then have "\<not> ready (snd (attempt (ws_shared s)))" using attempt_None attempt_stays ok by blast
    with inv None PRecheck attempt_ok [OF ok] show ?thesis
      by (auto simp: ws_recheck_def ws_inv_def split: prod.splits)
  next
    case (Some r)
    with inv PRecheck attempt_ok [OF ok] show ?thesis by (auto simp: ws_recheck_def ws_inv_def split: prod.splits)
  qed
qed (use inv in simp_all)

lemma inv_notify:
  assumes inv: "ws_inv ok ready s"
  shows "ws_inv ok ready (ws_do attempt put (Notify i a) s)"
proof (cases "aw_pcs (ws_aw s) (Suc i) = Idle \<and> put a (ws_shared s) \<noteq> None")
  case True
  then obtain sh where idle: "aw_pcs (ws_aw s) (Suc i) = Idle" and sh: "put a (ws_shared s) = Some sh" by blast
  define b where "b = aw_wake (Suc i) (ws_aw s)"
  from inv have aw: "aw_inv (ws_aw s)" and r: "roles (ws_aw s)" by (auto simp: ws_inv_def)
  have pcs: "aw_pcs b = (aw_pcs (ws_aw s))(Suc i := TakeOr)" and st: "aw_state b = aw_state (ws_aw s)"
    and sl: "aw_slot b = aw_slot (ws_aw s)" and wk: "aw_woken b = aw_woken (ws_aw s)"
    by (simp_all add: b_def aw_wake_def)
  have "aw_inv b" unfolding b_def aw_wake_def using aw_inv_call [OF aw idle] by simp
  moreover have "poll_pc_ok b pc" if "poll_pc_ok (ws_aw s) pc" for pc
    using poll_pc_ok_slot [OF that] sl by blast
  then have "roles b" using r by (auto simp: roles_def pcs sl)
  moreover have "armed b" if "armed (ws_aw s)"
  proof -
    have "carried b" if "carried (ws_aw s)"
    proof -
      from that obtain j where j: "carries (ws_aw s) (aw_pcs (ws_aw s) (Suc j))" by (auto simp: carried_def)
      then have "j \<noteq> i" using idle by auto
      moreover have "carries b pc \<longleftrightarrow> carries (ws_aw s) pc" for pc by (cases pc) (simp_all add: sl)
      ultimately have "carries b (aw_pcs b (Suc j))" using j by (simp add: pcs)
      then show ?thesis unfolding carried_def by blast
    qed
    with that show ?thesis by (auto simp: armed_def st sl)
  qed
  moreover have "aw_pcs b (Suc i) = TakeOr" by (simp add: pcs)
  then have "waking b" unfolding waking_def by blast
  moreover have "ok sh" using inv put_ok sh by (auto simp: ws_inv_def)
  ultimately have "ws_inv ok ready (s\<lparr>ws_shared := sh, ws_aw := b\<rparr>)"
    using inv by (auto simp: ws_inv_def pcs wk)
  then show ?thesis using idle sh by (simp add: b_def)
next
  case False
  with inv show ?thesis by (auto split: option.split)
qed

lemma inv_notify_step:
  assumes inv: "ws_inv ok ready s"
  shows "ws_inv ok ready (ws_do attempt put (NotifyStep i) s)"
proof -
  from inv have aw: "aw_inv (ws_aw s)" and r: "roles (ws_aw s)"
    and mark: "ws_mark s \<le> length (aw_woken (ws_aw s))" by (auto simp: ws_inv_def)
  have pc0: "aw_pcs (aw_step (Suc i) (ws_aw s)) 0 = aw_pcs (ws_aw s) 0" by (rule aw_step_other) simp
  have "armed (aw_step (Suc i) (ws_aw s)) \<and> (waking (ws_aw s) \<longrightarrow> waking (aw_step (Suc i) (ws_aw s)))"
    if "armed (ws_aw s)" and "length (aw_woken (aw_step (Suc i) (ws_aw s))) = ws_mark s"
    using that mark woken_mono [of "ws_aw s" "Suc i"] by (intro armed_notify_step [OF aw r]) simp_all
  then show ?thesis
    using inv aw_inv_step [OF aw] roles_notify_step [OF aw r] mark woken_mono [of "ws_aw s" "Suc i"] pc0
    by (auto simp: ws_inv_def)
qed

lemma inv_do: "ws_inv ok ready s \<Longrightarrow> ws_inv ok ready (ws_do attempt put act s)"
proof (cases act)
  case Poll
  then show "ws_inv ok ready s \<Longrightarrow> ?thesis" using inv_poll [of s] by simp
next
  case PollStep
  then show "ws_inv ok ready s \<Longrightarrow> ?thesis" by (simp only: inv_poll_step)
next
  case (Notify i a)
  then show "ws_inv ok ready s \<Longrightarrow> ?thesis" by (simp only: inv_notify)
next
  case (NotifyStep i)
  then show "ws_inv ok ready s \<Longrightarrow> ?thesis" by (simp only: inv_notify_step)
qed

lemma inv_run: "ws_inv ok ready s \<Longrightarrow> ws_inv ok ready (ws_run attempt put acts s)"
  unfolding ws_run_def by (induction acts arbitrary: s) (auto intro: inv_do)

text \<open>A parked task that nobody is about to wake has nothing to wait for.\<close>

lemma no_lost_wakeup:
  assumes "s = ws_run attempt put acts (ws_new sh)" and "ok sh" and "ws_poll s = PPending"
    and "ready (ws_shared s)" and "\<And>i. aw_pcs (ws_aw s) (Suc i) = Idle"
  shows "ws_mark s < length (aw_woken (ws_aw s))"
proof (rule ccontr)
  assume "\<not> ?thesis"
  moreover have inv: "ws_inv ok ready s" unfolding assms(1) by (rule inv_run [OF inv_new [OF assms(2)]])
  ultimately have "waking (ws_aw s)" using assms(3,4) by (simp add: ws_inv_def)
  then show False using assms(5) by (auto simp: waking_def carried_def)
qed

text \<open>A poll of a ready resource returns \<open>Ready\<close> at once.\<close>

lemma poll_ready:
  "can_poll (ws_poll s) \<Longrightarrow> ok (ws_shared s) \<Longrightarrow> ready (ws_shared s) \<Longrightarrow>
   \<exists>r. ws_poll (ws_do attempt put Poll s) = PReady r"
  using attempt_None [of "ws_shared s"]
  by (cases "attempt (ws_shared s)") (auto simp: ws_begin_def split: option.splits)

end

text \<open>A resource whose other side always leaves it ready.\<close>

fun notifies :: "'a ws_act \<Rightarrow> bool" where
  "notifies (Notify i a) = True"
| "notifies (NotifyStep i) = True"
| "notifies act = False"

locale wake_pair = wake_source +
  assumes put_ready: "ok s \<Longrightarrow> put a s = Some s' \<Longrightarrow> ready s'"
begin

lemma pending_ready_do:
  assumes "notifies act" and "ws_poll s = PPending" and "ready (ws_shared s)" and "ok (ws_shared s)"
  shows "ws_poll (ws_do attempt put act s) = PPending \<and> ready (ws_shared (ws_do attempt put act s)) \<and>
    ok (ws_shared (ws_do attempt put act s))"
  using assms by (cases act) (auto simp: put_ready put_ok split: option.split)

lemma pending_ready_run:
  assumes "list_all notifies acts" and "ws_poll s = PPending" and "ready (ws_shared s)"
    and "ok (ws_shared s)"
  shows "ws_poll (ws_run attempt put acts s) = PPending \<and> ready (ws_shared (ws_run attempt put acts s)) \<and>
    ok (ws_shared (ws_run attempt put acts s))"
  using assms unfolding ws_run_def
  by (induction acts arbitrary: s) (auto simp: pending_ready_do)

text \<open>
  A notification that finds the task parked gets it polled again, and that poll is ready.
\<close>

lemma notified_wakes:
  assumes s: "s = ws_run attempt put acts (ws_new sh)" and init: "ok sh" and pend: "ws_poll s = PPending"
    and idle: "aw_pcs (ws_aw s) (Suc i) = Idle" and ok: "put a (ws_shared s) = Some sh'"
    and s': "s' = ws_run attempt put acts' (ws_do attempt put (Notify i a) s)" and acts': "list_all notifies acts'"
    and quiet: "\<And>j. aw_pcs (ws_aw s') (Suc j) = Idle"
  shows "ws_mark s' < length (aw_woken (ws_aw s')) \<and> (\<exists>r. ws_poll (ws_do attempt put Poll s') = PReady r)"
proof -
  have s'_run: "s' = ws_run attempt put (acts @ Notify i a # acts') (ws_new sh)"
    by (simp add: s' s ws_run_def)
  have ok_s: "ok (ws_shared s)"
    using inv_run [OF inv_new [OF init], of acts] by (simp add: s ws_inv_def)
  have sh': "ready sh'" "ok sh'" using put_ready put_ok ok_s ok by blast+
  have "ws_do attempt put (Notify i a) s = s\<lparr>ws_shared := sh', ws_aw := aw_wake (Suc i) (ws_aw s)\<rparr>"
    using idle ok by simp
  with pending_ready_run [OF acts', of "ws_do attempt put (Notify i a) s"] sh' pend
  have pend': "ws_poll s' = PPending" and ready': "ready (ws_shared s')" and ok': "ok (ws_shared s')"
    by (simp_all add: s')
  have "ws_mark s' < length (aw_woken (ws_aw s'))"
    by (rule no_lost_wakeup [OF s'_run init pend' ready' quiet])
  moreover have "can_poll (ws_poll s')" by (simp add: pend')
  ultimately show ?thesis using poll_ready ready' ok' by blast
qed

end

end
