(* ===== verification/Notify.thy ===== *)
theory Notify
  imports Wake_Protocol
begin

text \<open>
  \<open>crates/px4-workqueue/src/notify.rs\<close> and \<open>yield_.rs\<close>: the single-waiter signal and the
  one-poll yield. The operations are given as they run alone; how a \<open>notify\<close> on another thread
  interleaves with a poll is the wake protocol with the permit as its resource.
\<close>

section \<open>Notify\<close>

datatype 'r poll = Ready 'r | Pending

record notify =
  nf_permit :: bool
  nf_waker :: aw

definition notify_new :: notify where
  "notify_new = \<lparr>nf_permit = False, nf_waker = aw_new\<rparr>"

definition notify_notify :: "nat \<Rightarrow> notify \<Rightarrow> notify" where
  "notify_notify t n =
     (let n = n\<lparr>nf_permit := True\<rparr>
      in n\<lparr>nf_waker := aw_run t (aw_wake t (nf_waker n))\<rparr>)"

text \<open>\<open>permit.swap(false)\<close>.\<close>

definition permit_swap :: "bool \<Rightarrow> unit option \<times> bool" where
  "permit_swap permit = (if permit then Some () else None, False)"

definition notified_poll :: "nat \<Rightarrow> waker \<Rightarrow> notify \<Rightarrow> unit poll \<times> notify" where
  "notified_poll t w n =
     (case permit_swap (nf_permit n) of
        (Some u, p) \<Rightarrow> (Ready u, n\<lparr>nf_permit := p\<rparr>)
      | (None, p) \<Rightarrow>
          (let n = n\<lparr>nf_permit := p, nf_waker := aw_run t (aw_register t w (nf_waker n))\<rparr>
           in case permit_swap (nf_permit n) of
                (Some u, p) \<Rightarrow> (Ready u, n\<lparr>nf_permit := p\<rparr>)
              | (None, p) \<Rightarrow> (Pending, n\<lparr>nf_permit := p\<rparr>)))"

text \<open>What \<open>notify\<close> does before it calls \<open>wake\<close>.\<close>

definition permit_put :: "unit \<Rightarrow> bool \<Rightarrow> bool option" where
  "permit_put u permit = Some True"

section \<open>Yield\<close>

record yield_now =
  yn_yielded :: bool

definition yield_now_new :: yield_now where
  "yield_now_new = \<lparr>yn_yielded = False\<rparr>"

text \<open>The third component counts the calls of \<open>wake_by_ref\<close> on the task's own waker.\<close>

definition yield_now_poll :: "yield_now \<Rightarrow> unit poll \<times> yield_now \<times> nat" where
  "yield_now_poll y =
     (if yn_yielded y then (Ready (), y, 0)
      else (Pending, y\<lparr>yn_yielded := True\<rparr>, 1))"

section \<open>The permit is a resource of the wake protocol\<close>

interpretation permit: wake_pair permit_swap permit_put "\<lambda>_. True" "\<lambda>p. p"
  by unfold_locales (auto simp: permit_swap_def permit_put_def)

section \<open>Facts\<close>

definition nf_idle :: "notify \<Rightarrow> bool" where
  "nf_idle n \<longleftrightarrow> aw_state (nf_waker n) = WAITING \<and> (\<forall>t. aw_pcs (nf_waker n) t = Idle)"

lemma notify_notify_eq:
  assumes "nf_idle n"
  shows "notify_notify t n = n\<lparr>nf_permit := True, nf_waker := (nf_waker n)
     \<lparr>aw_slot := None,
      aw_woken := aw_woken (nf_waker n) @ (case aw_slot (nf_waker n) of None \<Rightarrow> [] | Some w \<Rightarrow> [w])\<rparr>\<rparr>"
  using assms by (simp add: notify_notify_def nf_idle_def Let_def aw_run_wake)

lemma nf_idle_notify: "nf_idle n \<Longrightarrow> nf_idle (notify_notify t n)"
  by (simp add: notify_notify_eq) (simp add: nf_idle_def)

lemma notified_poll_permit:
  "nf_permit n \<Longrightarrow> notified_poll t w n = (Ready (), n\<lparr>nf_permit := False\<rparr>)"
  by (simp add: notified_poll_def permit_swap_def)

lemma notified_poll_empty:
  assumes "nf_idle n" and "\<not> nf_permit n"
  shows "notified_poll t w n =
    (Pending, n\<lparr>nf_permit := False, nf_waker := (nf_waker n)\<lparr>aw_slot := Some w\<rparr>\<rparr>)"
  using assms by (simp add: notified_poll_def permit_swap_def nf_idle_def Let_def aw_run_register)

lemma notify_repeat:
  assumes "nf_idle n"
  shows "nf_idle ((notify_notify t ^^ k) n) \<and> (0 < k \<longrightarrow> nf_permit ((notify_notify t ^^ k) n) \<and>
    aw_slot (nf_waker ((notify_notify t ^^ k) n)) = None \<and>
    aw_woken (nf_waker ((notify_notify t ^^ k) n)) =
      aw_woken (nf_waker n) @ (case aw_slot (nf_waker n) of None \<Rightarrow> [] | Some w \<Rightarrow> [w]))"
proof (induction k)
  case (Suc k)
  define m where "m = (notify_notify t ^^ k) n"
  have m: "nf_idle m" using Suc by (simp add: m_def)
  have "nf_permit (notify_notify t m)" "aw_slot (nf_waker (notify_notify t m)) = None"
    "aw_woken (nf_waker (notify_notify t m)) =
       aw_woken (nf_waker m) @ (case aw_slot (nf_waker m) of None \<Rightarrow> [] | Some w \<Rightarrow> [w])"
    by (simp_all add: notify_notify_eq [OF m])
  with Suc nf_idle_notify [OF m] show ?case by (cases k) (auto simp: m_def)
qed (simp add: assms)

section \<open>Properties\<close>

text \<open>
  No notification is lost: when \<open>Notified::poll\<close> has returned \<open>Pending\<close>, the permit is set and
  every notifier has returned from \<open>notify\<close>, the task has been woken since that poll began. Any
  number of notifiers interleave with the poll at every atomic operation.
\<close>

theorem notify_no_lost_wakeup:
  assumes "s = ws_run permit_swap permit_put acts (ws_new False)" and "ws_poll s = PPending"
    and "ws_shared s" and "\<And>i. aw_pcs (ws_aw s) (Suc i) = Idle"
  shows "ws_mark s < length (aw_woken (ws_aw s))"
  using permit.no_lost_wakeup [of s acts False] assms by blast

text \<open>A notification that lands between the first swap and the registration.\<close>

definition notify_race :: "unit ws_act list" where
  "notify_race = [Poll, PollStep, PollStep, Notify 0 (), NotifyStep 0, PollStep, PollStep, PollStep,
     PollStep, NotifyStep 0, PollStep, PollStep, Poll, PollStep, PollStep, PollStep, PollStep, PollStep,
     Notify 1 (), NotifyStep 1, NotifyStep 1, NotifyStep 1, NotifyStep 1]"

definition notify_race_end :: "(bool, unit) wake_sys" where
  "notify_race_end = ws_run permit_swap permit_put notify_race (ws_new False)"

lemmas ws_eval = ws_run_def ws_new_def aw_new_def ws_begin_def ws_recheck_def aw_register_def
  aw_wake_def aw_step_def reg_cas_def reg_release_def take_or_def invoke_def aw_goto_def

lemma notify_race_result:
  "ws_poll notify_race_end = PPending \<and> ws_shared notify_race_end \<and> ws_mark notify_race_end = 1 \<and>
   (\<forall>i. aw_pcs (ws_aw notify_race_end) i = Idle)"
  unfolding notify_race_end_def notify_race_def
  by (simp add: ws_eval permit_swap_def permit_put_def)

theorem notify_no_lost_wakeup_witness:
  "1 < length (aw_woken (ws_aw notify_race_end))"
  using notify_no_lost_wakeup [OF notify_race_end_def] notify_race_result by simp

text \<open>
  Notifications coalesce into one permit: after any positive number of calls of \<open>notify\<close>, the
  next poll is \<open>Ready\<close> and the one after it is \<open>Pending\<close>, and a waiting task is woken once.
\<close>

theorem notify_coalesces:
  assumes "nf_idle n" and "0 < k" and m_def: "m = (notify_notify t ^^ k) n"
  shows "fst (notified_poll u w m) = Ready () \<and>
     fst (notified_poll u w (snd (notified_poll u w m))) = Pending \<and>
     aw_woken (nf_waker m) = aw_woken (nf_waker n) @ (case aw_slot (nf_waker n) of None \<Rightarrow> [] | Some v \<Rightarrow> [v])"
proof -
  from notify_repeat [OF assms(1), of k t] assms(2) have m: "nf_idle m" "nf_permit m"
    "aw_woken (nf_waker m) = aw_woken (nf_waker n) @ (case aw_slot (nf_waker n) of None \<Rightarrow> [] | Some v \<Rightarrow> [v])"
    by (auto simp: m_def)
  have "nf_idle (m\<lparr>nf_permit := False\<rparr>)" using m(1) by (simp add: nf_idle_def)
  with m show ?thesis by (simp add: notified_poll_permit notified_poll_empty)
qed

theorem notify_coalesces_witness:
  "fst (notified_poll 0 5 ((notify_notify 1 ^^ 3) (snd (notified_poll 0 5 notify_new)))) = Ready () \<and>
   aw_woken (nf_waker ((notify_notify 1 ^^ 3) (snd (notified_poll 0 5 notify_new)))) = [5]"
proof -
  have new: "nf_idle notify_new" "\<not> nf_permit notify_new"
    by (simp_all add: nf_idle_def notify_new_def aw_new_def)
  have "nf_idle (snd (notified_poll 0 5 notify_new))"
    using new(1) by (simp add: notified_poll_empty new) (simp add: nf_idle_def notify_new_def aw_new_def)
  from notify_coalesces [OF this, of 3, OF _ refl, of 0 5 1] show ?thesis
    by (simp add: notified_poll_empty new) (simp add: notify_new_def aw_new_def)
qed

text \<open>
  \<open>yield_now\<close> yields once: its first poll is \<open>Pending\<close> and wakes the task's own waker once, so
  that it is queued again, and the second poll is \<open>Ready\<close> and wakes nobody.
\<close>

theorem yield_once:
  "(case yield_now_poll yield_now_new of (p, y, woken) \<Rightarrow>
      p = Pending \<and> woken = 1 \<and>
      (case yield_now_poll y of (p', y', woken') \<Rightarrow> p' = Ready () \<and> woken' = 0 \<and> y' = y))"
  by (simp add: yield_now_poll_def yield_now_new_def)

end
