(* ===== verification/Channel.thy ===== *)
theory Channel
  imports Notify
begin

text \<open>
  \<open>crates/px4-workqueue/src/channel.rs\<close>: the bounded single-producer single-consumer channel.
  The counters are words of an arbitrary width \<open>'w\<close> (64 on the host, 32 on the flight
  controllers), so that their wrap-around is the one of the source; \<open>N\<close> is the const generic. A
  slot that holds no value is \<open>None\<close>, and reading one (\<open>assume_init_read\<close> of an uninitialised
  slot) is the result \<open>Undef\<close>.
\<close>

section \<open>The channel\<close>

record ('a, 'u) channel =
  ch_buf :: "'a option list"
  ch_head :: 'u
  ch_tail :: 'u
  ch_recv_waker :: aw
  ch_send_waker :: aw

datatype 'a recv_res = Empty | Got 'a | Undef

definition channel_new :: "'w::len word \<Rightarrow> ('a, 'w word) channel" where
  "channel_new N = \<lparr>ch_buf = replicate (unat N) None, ch_head = 0, ch_tail = 0,
     ch_recv_waker = aw_new, ch_send_waker = aw_new\<rparr>"

definition capacity :: "'w::len word \<Rightarrow> ('a, 'w word) channel \<Rightarrow> 'w word" where
  "capacity N c = N"

definition ch_len :: "('a, 'w::len word) channel \<Rightarrow> 'w word" where
  "ch_len c = ch_tail c - ch_head c"

definition is_empty :: "('a, 'w::len word) channel \<Rightarrow> bool" where
  "is_empty c \<longleftrightarrow> ch_len c = 0"

definition is_full :: "'w::len word \<Rightarrow> ('a, 'w word) channel \<Rightarrow> bool" where
  "is_full N c \<longleftrightarrow> ch_len c \<ge> N"

text \<open>The two halves of \<open>try_send\<close> and \<open>try_recv\<close>: the slot and the counter, then the waker.\<close>

definition push_slot :: "'w::len word \<Rightarrow> 'a \<Rightarrow> ('a, 'w word) channel \<Rightarrow> ('a, 'w word) channel" where
  "push_slot N v c =
     (let tail = ch_tail c; idx = tail mod N
      in c\<lparr>ch_buf := (ch_buf c)[unat idx := Some v], ch_tail := tail + 1\<rparr>)"

definition try_send :: "'w::len word \<Rightarrow> nat \<Rightarrow> 'a \<Rightarrow> ('a, 'w word) channel \<Rightarrow> ('a + unit) \<times> ('a, 'w word) channel" where
  "try_send N t v c =
     (if ch_tail c - ch_head c \<ge> N then (Err v, c)
      else
        let c = push_slot N v c
        in (Ok (), c\<lparr>ch_recv_waker := aw_run t (aw_wake t (ch_recv_waker c))\<rparr>))"

definition pop_slot :: "'w::len word \<Rightarrow> ('a, 'w word) channel \<Rightarrow> 'a recv_res \<times> ('a, 'w word) channel" where
  "pop_slot N c =
     (let head = ch_head c; idx = head mod N
      in case ch_buf c ! unat idx of
           None \<Rightarrow> (Undef, c)
         | Some v \<Rightarrow> (Got v, c\<lparr>ch_buf := (ch_buf c)[unat idx := None], ch_head := head + 1\<rparr>))"

definition try_recv :: "'w::len word \<Rightarrow> nat \<Rightarrow> ('a, 'w word) channel \<Rightarrow> 'a recv_res \<times> ('a, 'w word) channel" where
  "try_recv N t c =
     (if ch_head c = ch_tail c then (Empty, c)
      else case pop_slot N c of
             (Got v, c) \<Rightarrow> (Got v, c\<lparr>ch_send_waker := aw_run t (aw_wake t (ch_send_waker c))\<rparr>)
           | r \<Rightarrow> r)"

text \<open>\<open>Drop\<close>: receive until the channel is empty; the received values are dropped.\<close>

fun channel_drop :: "nat \<Rightarrow> 'w::len word \<Rightarrow> nat \<Rightarrow> ('a, 'w word) channel \<Rightarrow> ('a list \<times> ('a, 'w word) channel) option" where
  "channel_drop 0 N t c = None"
| "channel_drop (Suc k) N t c =
     (case try_recv N t c of
        (Empty, c) \<Rightarrow> Some ([], c)
      | (Got v, c) \<Rightarrow> map_option (map_prod ((#) v) id) (channel_drop k N t c)
      | (Undef, c) \<Rightarrow> None)"

text \<open>
  The future \<open>Send\<close> is its \<open>value\<close>; a poll after \<open>Ready\<close> panics (\<open>None\<close>). A poll of \<open>Recv\<close> that
  reads an uninitialised slot is \<open>None\<close>.
\<close>

definition send_poll ::
  "'w::len word \<Rightarrow> nat \<Rightarrow> waker \<Rightarrow> 'a option \<Rightarrow> ('a, 'w word) channel \<Rightarrow>
     (unit poll \<times> 'a option \<times> ('a, 'w word) channel) option" where
  "send_poll N t w value c =
     (case value of
        None \<Rightarrow> None
      | Some v \<Rightarrow>
          Some (case try_send N t v c of
                  (Inr u, c) \<Rightarrow> (Ready (), None, c)
                | (Inl v, c) \<Rightarrow>
                    (let c = c\<lparr>ch_send_waker := aw_run t (aw_register t w (ch_send_waker c))\<rparr>
                     in case try_send N t v c of
                          (Inr u, c) \<Rightarrow> (Ready (), None, c)
                        | (Inl v, c) \<Rightarrow> (Pending, Some v, c))))"

definition recv_poll ::
  "'w::len word \<Rightarrow> nat \<Rightarrow> waker \<Rightarrow> ('a, 'w word) channel \<Rightarrow> ('a poll \<times> ('a, 'w word) channel) option" where
  "recv_poll N t w c =
     (case try_recv N t c of
        (Got v, c) \<Rightarrow> Some (Ready v, c)
      | (Undef, c) \<Rightarrow> None
      | (Empty, c) \<Rightarrow>
          (let c = c\<lparr>ch_recv_waker := aw_run t (aw_register t w (ch_recv_waker c))\<rparr>
           in case try_recv N t c of
                (Got v, c) \<Rightarrow> Some (Ready v, c)
              | (Undef, c) \<Rightarrow> None
              | (Empty, c) \<Rightarrow> Some (Pending, c)))"

section \<open>Representation\<close>

text \<open>
  \<open>chan_rep N H c xs\<close>: after \<open>H\<close> values have been received, the channel holds \<open>xs\<close>. The slot of
  the \<open>i\<close>-th value ever sent is \<open>i mod N\<close>: this needs that \<open>N\<close> divides the number of counter
  values, or that the counters have not wrapped around yet.
\<close>

definition fits :: "'w::len word \<Rightarrow> nat \<Rightarrow> bool" where
  "fits N T \<longleftrightarrow> unat N dvd 2 ^ LENGTH('w) \<or> T \<le> 2 ^ LENGTH('w)"

definition slot_of :: "'w::len word \<Rightarrow> nat \<Rightarrow> nat" where
  "slot_of N i = unat ((of_nat i :: 'w word) mod N)"

definition chan_rep :: "'w::len word \<Rightarrow> nat \<Rightarrow> ('a, 'w word) channel \<Rightarrow> 'a list \<Rightarrow> bool" where
  "chan_rep N H c xs \<longleftrightarrow>
     ch_head c = of_nat H \<and> ch_tail c = of_nat (H + length xs) \<and> length xs \<le> unat N \<and>
     length (ch_buf c) = unat N \<and> (\<forall>i < length xs. ch_buf c ! ((H + i) mod unat N) = Some (xs ! i))"

lemma slot_of_mod:
  assumes "fits N (Suc i)"
  shows "slot_of (N :: 'w::len word) i = i mod unat N"
proof -
  have "slot_of N i = (i mod 2 ^ LENGTH('w)) mod unat N"
    by (simp add: slot_of_def unat_mod unat_of_nat)
  moreover have "(i mod 2 ^ LENGTH('w)) mod unat N = i mod unat N"
    using assms by (auto simp: fits_def mod_mod_cancel)
  ultimately show ?thesis by simp
qed

lemma fits_mono: "fits N T \<Longrightarrow> S \<le> T \<Longrightarrow> fits N S"
  by (auto simp: fits_def)

lemma counter_diff:
  assumes "k \<le> unat (N :: 'w::len word)"
  shows "unat ((of_nat (H + k) :: 'w word) - of_nat H) = k"
proof -
  have "k < 2 ^ LENGTH('w)" using assms unsigned_less [of N] by (rule le_less_trans)
  then show ?thesis by (simp add: unat_of_nat)
qed

lemma chan_rep_diff: "chan_rep N H c xs \<Longrightarrow> unat (ch_tail c - ch_head c) = length xs"
  using counter_diff [of "length xs" N H] by (simp add: chan_rep_def)

lemma chan_rep_full: "chan_rep N H c xs \<Longrightarrow> ch_tail c - ch_head c \<ge> N \<longleftrightarrow> length xs = unat N"
  using chan_rep_diff [of N H c xs] by (auto simp: word_le_nat_alt chan_rep_def)

lemma chan_rep_empty: "chan_rep N H c xs \<Longrightarrow> ch_head c = ch_tail c \<longleftrightarrow> xs = []"
  using chan_rep_diff [of N H c xs] by (metis length_0_conv right_minus_eq unat_eq_zero)

lemma chan_rep_new: "chan_rep N 0 (channel_new N) []"
  by (simp add: chan_rep_def channel_new_def)

lemma slots_differ:
  assumes "(i :: nat) < j" and "j < i + n"
  shows "i mod n \<noteq> j mod n"
proof
  assume "i mod n = j mod n"
  then have "n dvd j - i" using assms(1) by (metis less_imp_le mod_eq_dvd_iff_nat)
  moreover have "0 < j - i" "j - i < n" using assms by auto
  ultimately show False using dvd_imp_le by fastforce
qed

lemma chan_rep_push:
  assumes r: "chan_rep N H c xs" and "length xs < unat N" and f: "fits N (H + length xs + 1)"
  shows "chan_rep N H (push_slot N v c) (xs @ [v])"
proof -
  have idx: "unat (ch_tail c mod N) = (H + length xs) mod unat N"
    using r slot_of_mod [of N "H + length xs"] f by (simp add: chan_rep_def slot_of_def)
  have pos: "(H + length xs) mod unat N < unat N" using assms(2) by simp
  have buf: "ch_buf (push_slot N v c) = (ch_buf c)[(H + length xs) mod unat N := Some v]"
    by (simp add: push_slot_def Let_def idx)
  have len: "length (ch_buf c) = unat N" using r by (simp add: chan_rep_def)
  have "ch_buf (push_slot N v c) ! ((H + i) mod unat N) = Some ((xs @ [v]) ! i)"
    if "i < length (xs @ [v])" for i
  proof (cases "i = length xs")
    case True
    then show ?thesis using pos by (simp add: buf len)
  next
    case False
    with that have i: "i < length xs" by simp
    then have "(H + i) mod unat N \<noteq> (H + length xs) mod unat N"
      using assms(2) by (intro slots_differ) auto
    then show ?thesis using r i by (simp add: buf chan_rep_def nth_append)
  qed
  then show ?thesis using r assms(2) by (simp add: chan_rep_def push_slot_def Let_def ac_simps)
qed

lemma chan_rep_pop:
  assumes r: "chan_rep N H c (x # xs)" and f: "fits N (H + Suc (length xs))"
  shows "\<exists>c'. pop_slot N c = (Got x, c') \<and> chan_rep N (Suc H) c' xs"
proof -
  have idx: "unat (ch_head c mod N) = H mod unat N"
    using r slot_of_mod [of N H] fits_mono [OF f] by (simp add: chan_rep_def slot_of_def)
  have hd: "ch_buf c ! (H mod unat N) = Some x"
    using r by (simp add: chan_rep_def) (metis Nat.add_0_right nth_Cons_0 zero_less_Suc)
  let ?c = "c\<lparr>ch_buf := (ch_buf c)[H mod unat N := None], ch_head := ch_head c + 1\<rparr>"
  have "ch_buf ?c ! ((Suc H + i) mod unat N) = Some (xs ! i)" if i: "i < length xs" for i
  proof -
    have "H mod unat N \<noteq> (Suc H + i) mod unat N"
      using r i by (intro slots_differ) (auto simp: chan_rep_def)
    moreover have "ch_buf c ! ((H + Suc i) mod unat N) = Some ((x # xs) ! Suc i)"
      using r i by (simp only: chan_rep_def length_Cons Suc_less_eq)
    ultimately show ?thesis by simp
  qed
  then have "chan_rep N (Suc H) ?c xs" using r by (simp add: chan_rep_def ac_simps)
  moreover have "pop_slot N c = (Got x, ?c)" by (simp add: pop_slot_def Let_def idx hd)
  ultimately show ?thesis by blast
qed

lemma chan_rep_wakers [simp]:
  "chan_rep N H (c\<lparr>ch_recv_waker := a\<rparr>) xs \<longleftrightarrow> chan_rep N H c xs"
  "chan_rep N H (c\<lparr>ch_send_waker := a\<rparr>) xs \<longleftrightarrow> chan_rep N H c xs"
  by (simp_all add: chan_rep_def)

lemma try_send_rep:
  assumes "chan_rep N H c xs" and "fits N (H + length xs + 1)"
  shows "length xs < unat N \<Longrightarrow> \<exists>c'. try_send N t v c = (Ok (), c') \<and> chan_rep N H c' (xs @ [v])"
    and "\<not> length xs < unat N \<Longrightarrow> try_send N t v c = (Err v, c)"
  using chan_rep_full [OF assms(1)] chan_rep_push [OF assms(1) _ assms(2), of v] assms(1)
  by (auto simp: try_send_def Let_def chan_rep_def [of N H c])

lemma try_recv_rep:
  assumes "chan_rep N H c xs" and "fits N (H + length xs)"
  shows "xs = [] \<Longrightarrow> try_recv N t c = (Empty, c)"
    and "xs = x # ys \<Longrightarrow> \<exists>c'. try_recv N t c = (Got x, c') \<and> chan_rep N (Suc H) c' ys"
  using chan_rep_empty [OF assms(1)] chan_rep_pop [of N H c x ys] assms
  by (auto simp: try_recv_def)

section \<open>Against a bounded queue\<close>

datatype 'a ch_op = OpSend 'a | OpRecv

text \<open>The values accepted and received by a sequence of operations, and the final channel.\<close>

fun chan_run ::
  "'w::len word \<Rightarrow> 'a ch_op list \<Rightarrow> ('a, 'w word) channel \<Rightarrow> ('a list \<times> 'a list \<times> ('a, 'w word) channel) option" where
  "chan_run N [] c = Some ([], [], c)"
| "chan_run N (OpSend v # ops) c =
     (case try_send N 0 v c of
        (Inr u, c) \<Rightarrow> map_option (map_prod ((#) v) id) (chan_run N ops c)
      | (Inl v, c) \<Rightarrow> chan_run N ops c)"
| "chan_run N (OpRecv # ops) c =
     (case try_recv N 1 c of
        (Got v, c) \<Rightarrow> map_option (map_prod id (map_prod ((#) v) id)) (chan_run N ops c)
      | (Empty, c) \<Rightarrow> chan_run N ops c
      | (Undef, c) \<Rightarrow> None)"

fun queue_run :: "nat \<Rightarrow> 'a ch_op list \<Rightarrow> 'a list \<Rightarrow> 'a list \<times> 'a list \<times> 'a list" where
  "queue_run n [] xs = ([], [], xs)"
| "queue_run n (OpSend v # ops) xs =
     (if length xs < n then map_prod ((#) v) id (queue_run n ops (xs @ [v])) else queue_run n ops xs)"
| "queue_run n (OpRecv # ops) [] = queue_run n ops []"
| "queue_run n (OpRecv # ops) (x # xs) = map_prod id (map_prod ((#) x) id) (queue_run n ops xs)"

lemma chan_run_queue:
  "chan_rep N H c xs \<Longrightarrow> fits N (H + length xs + length ops) \<Longrightarrow>
   \<exists>c' H'. chan_run N ops c = Some (fst (queue_run (unat N) ops xs), fst (snd (queue_run (unat N) ops xs)), c') \<and>
     chan_rep N H' c' (snd (snd (queue_run (unat N) ops xs)))"
proof (induction "unat N" ops xs arbitrary: H c rule: queue_run.induct)
  case (1 xs)
  then show ?case by auto
next
  case (2 v ops xs)
  have f: "fits N (H + length xs + 1)" using fits_mono [OF 2(4)] by simp
  show ?case
  proof (cases "length xs < unat N")
    case True
    from try_send_rep(1) [OF 2(3) f True, of 0 v] obtain c1 where c1: "try_send N 0 v c = (Ok (), c1)"
      and r1: "chan_rep N H c1 (xs @ [v])" by blast
    have "fits N (H + length (xs @ [v]) + length ops)" using 2(4) by simp
    from 2(1) [OF True r1 this] show ?thesis using c1 True by auto
  next
    case False
    have "fits N (H + length xs + length ops)" using fits_mono [OF 2(4)] by simp
    from 2(2) [OF False 2(3) this] show ?thesis
      using try_send_rep(2) [OF 2(3) f False, of 0 v] False by auto
  qed
next
  case (3 ops)
  have f: "fits N (H + length [])" and f': "fits N (H + length [] + length ops)"
    using fits_mono [OF 3(3)] by simp_all
  from 3(1) [OF 3(2) f'] try_recv_rep(1) [OF 3(2) f, of 1] show ?case by auto
next
  case (4 ops x xs)
  have f: "fits N (H + length (x # xs))" and f': "fits N (Suc H + length xs + length ops)"
    using fits_mono [OF 4(3)] by simp_all
  from try_recv_rep(2) [OF 4(2) f refl, of 1] obtain c1 where c1: "try_recv N 1 c = (Got x, c1)"
    and r1: "chan_rep N (Suc H) c1 xs" by blast
  from 4(1) [OF r1 f'] c1 show ?case by auto
qed

lemma queue_run_fifo:
  "length xs \<le> n \<Longrightarrow> queue_run n ops xs = (acc, got, ys) \<Longrightarrow> xs @ acc = got @ ys \<and> length ys \<le> n"
proof (induction n ops xs arbitrary: acc got ys rule: queue_run.induct)
  case (2 n v ops xs)
  then show ?case by (cases "queue_run n ops (xs @ [v])") (auto split: if_splits)
next
  case (4 n ops x xs)
  then show ?case by (cases "queue_run n ops xs") auto
qed auto

lemma channel_drop_rep:
  "chan_rep N H c xs \<Longrightarrow> fits N (H + length xs) \<Longrightarrow> length xs < k \<Longrightarrow>
   \<exists>c'. channel_drop k N t c = Some (xs, c') \<and> chan_rep N (H + length xs) c' []"
proof (induction k arbitrary: H c xs)
  case (Suc k)
  show ?case
  proof (cases xs)
    case Nil
    with try_recv_rep(1) [OF Suc.prems(1,2) Nil, of t] Suc.prems(1) show ?thesis by auto
  next
    case (Cons x ys)
    from try_recv_rep(2) [OF Suc.prems(1,2) Cons, of t] obtain c1 where c1: "try_recv N t c = (Got x, c1)"
      and r1: "chan_rep N (Suc H) c1 ys" by blast
    from Suc.IH [OF r1] Suc.prems(2,3) Cons c1 show ?thesis by auto
  qed
qed simp

section \<open>The two futures and the wake protocol\<close>

text \<open>
  \<open>try_recv\<close> and \<open>try_send\<close> without the call of the other side's waker, as the attempt and the
  notification of the protocol.
\<close>

definition recv_attempt :: "'w::len word \<Rightarrow> ('a, 'w word) channel \<Rightarrow> 'a recv_res option \<times> ('a, 'w word) channel" where
  "recv_attempt N c = (if ch_head c = ch_tail c then (None, c) else map_prod Some id (pop_slot N c))"

definition recv_put :: "'w::len word \<Rightarrow> unit \<Rightarrow> ('a, 'w word) channel \<Rightarrow> ('a, 'w word) channel option" where
  "recv_put N u c =
     (case recv_attempt N c of (Some (Got v), c) \<Rightarrow> Some c | _ \<Rightarrow> None)"

definition send_attempt :: "'w::len word \<Rightarrow> 'a \<Rightarrow> ('a, 'w word) channel \<Rightarrow> unit option \<times> ('a, 'w word) channel" where
  "send_attempt N v c =
     (if ch_tail c - ch_head c \<ge> N then (None, c) else (Some (), push_slot N v c))"

definition send_put :: "'w::len word \<Rightarrow> 'a \<Rightarrow> ('a, 'w word) channel \<Rightarrow> ('a, 'w word) channel option" where
  "send_put N v c =
     (case send_attempt N v c of (Some u, c) \<Rightarrow> Some c | _ \<Rightarrow> None)"

lemma try_send_split:
  "try_send N t v c =
     (case send_put N v c of
        None \<Rightarrow> (Err v, c)
      | Some c \<Rightarrow> (Ok (), c\<lparr>ch_recv_waker := aw_run t (aw_wake t (ch_recv_waker c))\<rparr>))"
  by (simp add: try_send_def send_put_def send_attempt_def Let_def)

lemma try_recv_split:
  "try_recv N t c =
     (case recv_attempt N c of
        (None, c) \<Rightarrow> (Empty, c)
      | (Some (Got v), c) \<Rightarrow> (Got v, c\<lparr>ch_send_waker := aw_run t (aw_wake t (ch_send_waker c))\<rparr>)
      | (Some r, c) \<Rightarrow> (r, c))"
  by (auto simp: try_recv_def recv_attempt_def split: prod.split recv_res.split)

definition chan_ok :: "'w::len word \<Rightarrow> ('a, 'w word) channel \<Rightarrow> bool" where
  "chan_ok N c \<longleftrightarrow> unat N dvd 2 ^ LENGTH('w) \<and> (\<exists>H xs. chan_rep N H c xs)"

lemma chan_okI: "chan_rep N H c xs \<Longrightarrow> unat (N :: 'w::len word) dvd 2 ^ LENGTH('w) \<Longrightarrow> chan_ok N c"
  by (auto simp: chan_ok_def)

lemma chan_ok_new: "unat N dvd 2 ^ LENGTH('w) \<Longrightarrow> chan_ok (N :: 'w::len word) (channel_new N)"
  using chan_rep_new by (auto simp: chan_ok_def)

lemma recv_attempt_rep:
  assumes "chan_rep N H c xs" and "unat (N :: 'w::len word) dvd 2 ^ LENGTH('w)"
  shows "xs = [] \<Longrightarrow> recv_attempt N c = (None, c)"
    and "xs = x # ys \<Longrightarrow> \<exists>c'. recv_attempt N c = (Some (Got x), c') \<and> chan_rep N (Suc H) c' ys"
  using chan_rep_empty [OF assms(1)] chan_rep_pop [of N H c x ys] assms
  by (auto simp: recv_attempt_def fits_def)

lemma send_attempt_rep:
  assumes "chan_rep N H c xs" and "unat (N :: 'w::len word) dvd 2 ^ LENGTH('w)"
  shows "length xs < unat N \<Longrightarrow> \<exists>c'. send_attempt N v c = (Some (), c') \<and> chan_rep N H c' (xs @ [v])"
    and "\<not> length xs < unat N \<Longrightarrow> send_attempt N v c = (None, c)"
  using chan_rep_full [OF assms(1)] chan_rep_push [OF assms(1), of v] assms
  by (auto simp: send_attempt_def fits_def chan_rep_def [of N H c])

lemma recv_source:
  fixes N :: "'w::len word"
  shows "wake_pair (recv_attempt N) (send_put N) (chan_ok N) (\<lambda>c :: ('a, 'w word) channel. ch_head c \<noteq> ch_tail c)"
proof
  fix s :: "('a, 'w word) channel"
  assume ok: "chan_ok N s"
  then obtain H xs where r: "chan_rep N H s xs" and d: "unat N dvd 2 ^ LENGTH('w)" by (auto simp: chan_ok_def)
  note R = recv_attempt_rep [OF r d] and S = send_attempt_rep [OF r d]
  show "chan_ok N (snd (recv_attempt N s))"
    using R ok chan_okI [OF _ d] by (cases xs) auto
  show "fst (recv_attempt N s) = None \<longleftrightarrow> \<not> ch_head s \<noteq> ch_tail s"
    using R chan_rep_empty [OF r] by (cases xs) auto
  show "\<not> ch_head (snd (recv_attempt N s)) \<noteq> ch_tail (snd (recv_attempt N s))" if "\<not> ch_head s \<noteq> ch_tail s"
    using that by (simp add: recv_attempt_def)
  fix v s'
  assume put: "send_put N v s = Some s'"
  then have "length xs < unat N" using S(2) [of v] by (cases "length xs < unat N") (auto simp: send_put_def)
  with S(1) [of v] put have "chan_rep N H s' (xs @ [v])" by (auto simp: send_put_def)
  then show "chan_ok N s'" and "ch_head s' \<noteq> ch_tail s'"
    using chan_rep_empty d by (auto simp: chan_ok_def)
qed

lemma send_source:
  fixes N :: "'w::len word"
  shows "wake_pair (send_attempt N v) (recv_put N) (chan_ok N)
     (\<lambda>c :: ('a, 'w word) channel. \<not> ch_tail c - ch_head c \<ge> N)"
proof
  fix s :: "('a, 'w word) channel"
  assume ok: "chan_ok N s"
  then obtain H xs where r: "chan_rep N H s xs" and d: "unat N dvd 2 ^ LENGTH('w)" by (auto simp: chan_ok_def)
  note R = recv_attempt_rep [OF r d] and S = send_attempt_rep [OF r d]
  have le: "length xs \<le> unat N" using r by (simp add: chan_rep_def)
  show "chan_ok N (snd (send_attempt N v s))"
    using S [of v] ok chan_okI [OF _ d] by (cases "length xs < unat N") auto
  show "fst (send_attempt N v s) = None \<longleftrightarrow> \<not> \<not> ch_tail s - ch_head s \<ge> N"
    by (simp add: send_attempt_def)
  show "\<not> \<not> ch_tail (snd (send_attempt N v s)) - ch_head (snd (send_attempt N v s)) \<ge> N"
    if "\<not> \<not> ch_tail s - ch_head s \<ge> N"
    using that by (simp add: send_attempt_def)
  fix u s'
  assume put: "recv_put N u s = Some s'"
  then obtain x ys where xs: "xs = x # ys" using R(1) by (cases xs) (auto simp: recv_put_def)
  with R(2) put have r': "chan_rep N (Suc H) s' ys" by (auto simp: recv_put_def)
  then show "chan_ok N s'" using d by (auto simp: chan_ok_def)
  show "\<not> ch_tail s' - ch_head s' \<ge> N" using chan_rep_full [OF r'] le xs by simp
qed

interpretation chan_recv: wake_pair "recv_attempt N" "send_put N" "chan_ok N" "\<lambda>c. ch_head c \<noteq> ch_tail c"
  for N :: "'w::len word"
  by (rule recv_source)

interpretation chan_send: wake_pair "send_attempt N v" "recv_put N" "chan_ok N" "\<lambda>c. \<not> ch_tail c - ch_head c \<ge> N"
  for N :: "'w::len word" and v :: 'a
  by (rule send_source)

section \<open>Properties\<close>

text \<open>
  C10: used by its two tasks, a channel whose capacity divides the number of counter values is a
  bounded queue, for ever: any sequence of \<open>try_send\<close> and \<open>try_recv\<close>, of any length and so across
  any number of wrap-arounds of the counters, accepts and returns exactly what a queue of capacity
  \<open>N\<close> does, never reads an uninitialised slot, and delivers the accepted values in order. With any
  other capacity this holds for the first \<open>2 ^ LENGTH('w)\<close> operations.
\<close>

theorem channel_is_bounded_queue:
  fixes N :: "'w::len word"
  assumes "unat N dvd 2 ^ LENGTH('w) \<or> length ops \<le> 2 ^ LENGTH('w)"
  shows "\<exists>acc got ys c'. queue_run (unat N) ops [] = (acc, got, ys) \<and>
     chan_run N ops (channel_new N) = Some (acc, got, c') \<and> unat (ch_len c') = length ys \<and>
     acc = got @ ys \<and> length ys \<le> unat N"
proof -
  obtain acc got ys where q: "queue_run (unat N) ops [] = (acc, got, ys)"
    by (cases "queue_run (unat N) ops []")
  have "fits N (0 + length [] + length ops)" using assms by (simp add: fits_def)
  from chan_run_queue [OF chan_rep_new this] q obtain c' H'
    where "chan_run N ops (channel_new N) = Some (acc, got, c')" and "chan_rep N H' c' ys" by auto
  with queue_run_fifo [OF _ q] chan_rep_diff [of N H' c' ys] q show ?thesis
    by (auto simp: ch_len_def)
qed

theorem channel_is_bounded_queue_witness:
  "\<exists>c'. chan_run (2 :: 8 word) [OpSend ''a'', OpSend ''b'', OpSend ''c'', OpRecv] (channel_new 2) =
     Some ([''a'', ''b''], [''a''], c') \<and> unat (ch_len c') = 1"
  using channel_is_bounded_queue [of "2 :: 8 word" "[OpSend ''a'', OpSend ''b'', OpSend ''c'', OpRecv]"]
  by auto

text \<open>A value sent and received at once.\<close>

definition pass_one :: "'a \<Rightarrow> ('a, 32 word) channel \<Rightarrow> ('a, 32 word) channel" where
  "pass_one v c = snd (try_recv 3 1 (snd (try_send 3 0 v c)))"

lemma pass_many:
  "k < 2 ^ 32 \<Longrightarrow> chan_rep 3 k ((pass_one v ^^ k) (channel_new 3)) []"
proof (induction k)
  case 0
  show ?case using chan_rep_new [of "3 :: 32 word"] by simp
next
  case (Suc k)
  define c where "c = (pass_one v ^^ k) (channel_new 3)"
  have r: "chan_rep 3 k c []" using Suc by (simp add: c_def)
  have f: "fits (3 :: 32 word) (Suc k)" using Suc.prems by (simp add: fits_def)
  from try_send_rep(1) [OF r, of 0 v] f obtain c1 where c1: "try_send 3 0 v c = (Ok (), c1)"
    and r1: "chan_rep 3 k c1 [v]" by auto
  from try_recv_rep(2) [OF r1 _ refl, of 1] f obtain c2 where c2: "try_recv 3 1 c1 = (Got v, c2)"
    and r2: "chan_rep 3 (Suc k) c2 []" by auto
  have "pass_one v c = c2" by (simp only: pass_one_def c1 c2 snd_conv)
  then have "(pass_one v ^^ Suc k) (channel_new 3) = c2" by (simp add: c_def)
  with r2 show ?case by (simp only:)
qed

text \<open>
  C36: with a capacity that does not divide the number of counter values the channel breaks when the
  counters wrap: on a 32-bit target a channel of capacity 3 that has passed \<open>2 ^ 32 - 1\<close> values
  writes the next two values it accepts to the same slot, so that the first is lost, the second is
  received in its place, and the next \<open>try_recv\<close> reads a slot that has been moved out.
\<close>

theorem channel_wrap_loses_value:
  "let c = (pass_one v ^^ (2 ^ 32 - 1)) (channel_new 3);
       (r1, c) = try_send 3 0 a c;
       (r2, c) = try_send 3 0 b c;
       (r3, c) = try_recv 3 1 c;
       (r4, c) = try_recv 3 1 c
   in r1 = Ok () \<and> r2 = Ok () \<and> r3 = Got b \<and> r4 = Undef"
proof -
  define c where "c = (pass_one v ^^ (2 ^ 32 - 1)) (channel_new 3)"
  have "chan_rep 3 (2 ^ 32 - 1) c []"
    unfolding c_def by (rule pass_many) simp
  then have ht: "ch_head c = 0xffffffff" "ch_tail c = 0xffffffff" and len: "length (ch_buf c) = 3"
    by (simp_all add: chan_rep_def)
  show ?thesis
    unfolding c_def [symmetric]
    by (simp add: try_send_def try_recv_def push_slot_def pop_slot_def Let_def ht len word_le_nat_alt)
qed

text \<open>
  Dropping a channel receives every value it still holds, in order and each once, and ends.
\<close>

theorem channel_drop_drains:
  assumes "chan_rep N H c xs" and "fits N (H + length xs)"
  shows "\<exists>c'. channel_drop (Suc (unat (ch_len c))) N t c = Some (xs, c') \<and> is_empty c'"
proof -
  from channel_drop_rep [OF assms, of "Suc (unat (ch_len c))" t] chan_rep_diff [OF assms(1)]
  obtain c' where "channel_drop (Suc (unat (ch_len c))) N t c = Some (xs, c')"
    and "chan_rep N (H + length xs) c' []" by (auto simp: ch_len_def)
  then show ?thesis using chan_rep_empty [of N _ c' "[]"] by (auto simp: is_empty_def ch_len_def)
qed

theorem channel_drop_drains_witness:
  "\<exists>c'. channel_drop 3 (4 :: 8 word) 0 (snd (try_send 4 0 (8::nat) (snd (try_send 4 0 7 (channel_new 4))))) =
     Some ([7, 8], c') \<and> is_empty c'"
proof -
  have f: "fits (4 :: 8 word) n" for n by (simp add: fits_def)
  from try_send_rep(1) [OF chan_rep_new, of "4 :: 8 word" 0 "7::nat"] f obtain c1
    where c1: "try_send 4 0 (7::nat) (channel_new 4) = (Ok (), c1)" and r1: "chan_rep (4 :: 8 word) 0 c1 [7]" by auto
  from try_send_rep(1) [OF r1 f, of 0 "8::nat"] obtain c2
    where c2: "try_send 4 0 8 c1 = (Ok (), c2)" and r2: "chan_rep (4 :: 8 word) 0 c2 [7, 8]" by auto
  have "unat (ch_len c2) = 2" using chan_rep_diff [OF r2] by (simp add: ch_len_def)
  with channel_drop_drains [OF r2 f, of 0] c1 c2 show ?thesis by (simp add: eval_nat_numeral)
qed

text \<open>
  A receiver never sleeps through a value: when \<open>Recv::poll\<close> has returned \<open>Pending\<close>, the channel
  holds a value and no \<open>try_send\<close> is under way, the task has been woken since that poll began.
\<close>

theorem channel_recv_no_lost_wakeup:
  fixes N :: "'w::len word"
  assumes "unat N dvd 2 ^ LENGTH('w)"
    and "s = ws_run (recv_attempt N) (send_put N) acts (ws_new (channel_new N))"
    and "ws_poll s = PPending" and "ch_head (ws_shared s) \<noteq> ch_tail (ws_shared s)"
    and "\<And>i. aw_pcs (ws_aw s) (Suc i) = Idle"
  shows "ws_mark s < length (aw_woken (ws_aw s))"
  using chan_recv.no_lost_wakeup [OF assms(2) chan_ok_new [OF assms(1)] assms(3-5)] .

definition recv_race_end :: "((nat, 8 word) channel, nat recv_res) wake_sys" where
  "recv_race_end = ws_run (recv_attempt 2) (send_put 2)
     [Poll, PollStep, PollStep, PollStep, PollStep, PollStep, Notify 0 7, NotifyStep 0, NotifyStep 0,
      NotifyStep 0, NotifyStep 0] (ws_new (channel_new 2))"

theorem channel_recv_no_lost_wakeup_witness:
  "0 < length (aw_woken (ws_aw recv_race_end))"
proof -
  have "ws_poll recv_race_end = PPending \<and> ch_tail (ws_shared recv_race_end) = 1 \<and>
      ch_head (ws_shared recv_race_end) = 0 \<and> (\<forall>i. aw_pcs (ws_aw recv_race_end) i = Idle)"
    unfolding recv_race_end_def
    by (simp add: ws_eval recv_attempt_def send_put_def send_attempt_def push_slot_def channel_new_def Let_def)
  then have "ws_mark recv_race_end < length (aw_woken (ws_aw recv_race_end))"
    by (intro channel_recv_no_lost_wakeup [OF _ recv_race_end_def]) simp_all
  then show ?thesis by linarith
qed

text \<open>
  A sender never sleeps through a free slot: when \<open>Send::poll\<close> has returned \<open>Pending\<close>, the
  channel has room and no \<open>try_recv\<close> is under way, the task has been woken since that poll began.
\<close>

theorem channel_send_no_lost_wakeup:
  fixes N :: "'w::len word"
  assumes "chan_ok N c"
    and "s = ws_run (send_attempt N v) (recv_put N) acts (ws_new c)"
    and "ws_poll s = PPending" and "\<not> is_full N (ws_shared s)"
    and "\<And>i. aw_pcs (ws_aw s) (Suc i) = Idle"
  shows "ws_mark s < length (aw_woken (ws_aw s))"
  using chan_send.no_lost_wakeup [OF assms(2,1,3) _ assms(5)] assms(4) by (simp add: is_full_def ch_len_def)

definition full_channel :: "(nat, 8 word) channel" where
  "full_channel = push_slot 1 7 (channel_new 1)"

definition send_race_end :: "((nat, 8 word) channel, unit) wake_sys" where
  "send_race_end = ws_run (send_attempt 1 9) (recv_put 1)
     [Poll, PollStep, PollStep, PollStep, PollStep, PollStep, Notify 0 (), NotifyStep 0, NotifyStep 0,
      NotifyStep 0, NotifyStep 0] (ws_new full_channel)"

theorem channel_send_no_lost_wakeup_witness:
  "0 < length (aw_woken (ws_aw send_race_end))"
proof -
  have "chan_rep 1 0 full_channel [7]"
    unfolding full_channel_def using chan_rep_push [OF chan_rep_new, of "1 :: 8 word" "7::nat"]
    by (simp add: fits_def)
  then have ok: "chan_ok 1 full_channel" by (rule chan_okI) simp
  have "ws_poll send_race_end = PPending \<and> \<not> is_full 1 (ws_shared send_race_end) \<and>
      (\<forall>i. aw_pcs (ws_aw send_race_end) i = Idle)"
    unfolding send_race_end_def
    by (simp add: ws_eval send_attempt_def recv_put_def recv_attempt_def push_slot_def pop_slot_def
        full_channel_def channel_new_def is_full_def ch_len_def Let_def)
  then have "ws_mark send_race_end < length (aw_woken (ws_aw send_race_end))"
    by (intro channel_send_no_lost_wakeup [OF ok send_race_end_def]) simp_all
  then show ?thesis by linarith
qed

end
