(* ===== verification/Channel_Spsc.thy ===== *)
theory Channel_Spsc
  imports Channel
begin

text \<open>
  \<open>channel.rs\<close> with its two sides on two threads: one producer in \<open>try_send\<close> and one consumer in
  \<open>try_recv\<close>, interleaved at every access to the counters and to a slot. Each side reads its own
  counter without synchronisation and the other side's counter once per call; the slot is read and
  written only between these accesses.
\<close>

section \<open>The system\<close>

text \<open>
  \<open>SHead h v\<close>: \<open>head\<close> has been loaded; \<open>SWritten v\<close>: the slot has been written.
  \<open>RTail t\<close>: \<open>tail\<close> has been loaded; \<open>RRead v\<close>: the slot has been read.
\<close>

datatype ('a, 'u) send_pc = SIdle | SHead 'u 'a | SWritten 'a

datatype ('a, 'u) recv_pc = RIdle | RTail 'u | RRead 'a | RUndef

record ('a, 'u) spsc =
  sp_buf :: "'a option list"
  sp_head :: 'u
  sp_tail :: 'u
  sp_send :: "('a, 'u) send_pc"
  sp_recv :: "('a, 'u) recv_pc"
  sp_sent :: "'a list"
  sp_got :: "'a list"

datatype 'a spsc_act = CallSend 'a | StepSend | CallRecv | StepRecv

definition spsc_new :: "'w::len word \<Rightarrow> ('a, 'w word) spsc" where
  "spsc_new N = \<lparr>sp_buf = replicate (unat N) None, sp_head = 0, sp_tail = 0, sp_send = SIdle,
     sp_recv = RIdle, sp_sent = [], sp_got = []\<rparr>"

definition step_send :: "'w::len word \<Rightarrow> ('a, 'w word) spsc \<Rightarrow> ('a, 'w word) spsc" where
  "step_send N s =
     (case sp_send s of
        SIdle \<Rightarrow> s
      | SHead head v \<Rightarrow>
          if sp_tail s - head \<ge> N then s\<lparr>sp_send := SIdle\<rparr>
          else s\<lparr>sp_buf := (sp_buf s)[unat (sp_tail s mod N) := Some v], sp_send := SWritten v\<rparr>
      | SWritten v \<Rightarrow> s\<lparr>sp_tail := sp_tail s + 1, sp_send := SIdle, sp_sent := sp_sent s @ [v]\<rparr>)"

definition step_recv :: "'w::len word \<Rightarrow> ('a, 'w word) spsc \<Rightarrow> ('a, 'w word) spsc" where
  "step_recv N s =
     (case sp_recv s of
        RIdle \<Rightarrow> s
      | RTail tail \<Rightarrow>
          if sp_head s = tail then s\<lparr>sp_recv := RIdle\<rparr>
          else (case sp_buf s ! unat (sp_head s mod N) of
                  None \<Rightarrow> s\<lparr>sp_recv := RUndef\<rparr>
                | Some v \<Rightarrow> s\<lparr>sp_buf := (sp_buf s)[unat (sp_head s mod N) := None], sp_recv := RRead v\<rparr>)
      | RRead v \<Rightarrow> s\<lparr>sp_head := sp_head s + 1, sp_recv := RIdle, sp_got := sp_got s @ [v]\<rparr>
      | RUndef \<Rightarrow> s)"

fun spsc_do :: "'w::len word \<Rightarrow> 'a spsc_act \<Rightarrow> ('a, 'w word) spsc \<Rightarrow> ('a, 'w word) spsc" where
  "spsc_do N (CallSend v) s = (if sp_send s = SIdle then s\<lparr>sp_send := SHead (sp_head s) v\<rparr> else s)"
| "spsc_do N StepSend s = step_send N s"
| "spsc_do N CallRecv s = (if sp_recv s = RIdle then s\<lparr>sp_recv := RTail (sp_tail s)\<rparr> else s)"
| "spsc_do N StepRecv s = step_recv N s"

definition spsc_run :: "'w::len word \<Rightarrow> 'a spsc_act list \<Rightarrow> ('a, 'w word) spsc \<Rightarrow> ('a, 'w word) spsc" where
  "spsc_run N acts s = fold (spsc_do N) acts s"

text \<open>The slot a side is about to access, if it is.\<close>

definition send_access :: "'w::len word \<Rightarrow> ('a, 'w word) spsc \<Rightarrow> nat option" where
  "send_access N s =
     (case sp_send s of
        SHead head v \<Rightarrow> if sp_tail s - head \<ge> N then None else Some (unat (sp_tail s mod N))
      | _ \<Rightarrow> None)"

definition recv_access :: "'w::len word \<Rightarrow> ('a, 'w word) spsc \<Rightarrow> nat option" where
  "recv_access N s =
     (case sp_recv s of
        RTail tail \<Rightarrow> if sp_head s = tail then None else Some (unat (sp_head s mod N))
      | _ \<Rightarrow> None)"

section \<open>Invariant\<close>

text \<open>
  The counters are the numbers of values received and published so far. A loaded counter is an
  older, and so safer, value: the producer sees at most as many free slots as there are, the
  consumer at most as many values.
\<close>

definition full_slots :: "nat \<Rightarrow> ('a, 'u) spsc \<Rightarrow> nat \<Rightarrow> nat \<Rightarrow> bool" where
  "full_slots n s H T \<longleftrightarrow> (\<forall>i. H \<le> i \<and> i < T \<longrightarrow> sp_buf s ! (i mod n) = Some (sp_sent s ! i))"

definition send_inv :: "'w::len word \<Rightarrow> ('a, 'w word) spsc \<Rightarrow> nat \<Rightarrow> nat \<Rightarrow> bool" where
  "send_inv N s H T \<longleftrightarrow>
     (case sp_send s of
        SIdle \<Rightarrow> True
      | SHead head v \<Rightarrow> (\<exists>h. head = of_nat h \<and> h \<le> H \<and> T \<le> h + unat N)
      | SWritten v \<Rightarrow> T < H + unat N \<and> sp_buf s ! (T mod unat N) = Some v)"

definition recv_inv :: "'w::len word \<Rightarrow> ('a, 'w word) spsc \<Rightarrow> nat \<Rightarrow> nat \<Rightarrow> bool" where
  "recv_inv N s H T \<longleftrightarrow>
     (case sp_recv s of
        RIdle \<Rightarrow> full_slots (unat N) s H T
      | RTail tail \<Rightarrow> full_slots (unat N) s H T \<and> (\<exists>t. tail = of_nat t \<and> H \<le> t \<and> t \<le> T)
      | RRead v \<Rightarrow> full_slots (unat N) s (Suc H) T \<and> H < T \<and> v = sp_sent s ! H
      | RUndef \<Rightarrow> False)"

definition spsc_inv :: "'w::len word \<Rightarrow> ('a, 'w word) spsc \<Rightarrow> nat \<Rightarrow> nat \<Rightarrow> bool" where
  "spsc_inv N s H T \<longleftrightarrow>
     sp_head s = of_nat H \<and> sp_tail s = of_nat T \<and> H \<le> T \<and> T \<le> H + unat N \<and>
     length (sp_buf s) = unat N \<and> length (sp_sent s) = T \<and> sp_got s = take H (sp_sent s) \<and>
     send_inv N s H T \<and> recv_inv N s H T"

lemma counters_differ:
  fixes N :: "'w::len word"
  assumes "h \<le> t" and "t \<le> h + unat N"
  shows "unat ((of_nat t :: 'w word) - of_nat h) = t - h" and "(of_nat h :: 'w word) = of_nat t \<longleftrightarrow> h = t"
proof -
  from assms obtain k where k: "t = h + k" and "k \<le> unat N" by (metis add_le_cancel_left le_Suc_ex)
  then show d: "unat ((of_nat t :: 'w word) - of_nat h) = t - h" using counter_diff [of k N h] by simp
  show "(of_nat h :: 'w word) = of_nat t \<longleftrightarrow> h = t"
  proof
    assume "(of_nat h :: 'w word) = of_nat t"
    then have "unat ((of_nat t :: 'w word) - of_nat h) = 0" by simp
    then show "h = t" using d assms(1) by simp
  qed simp
qed

lemma slot_mod:
  fixes N :: "'w::len word"
  assumes "unat N dvd 2 ^ LENGTH('w)"
  shows "unat ((of_nat i :: 'w word) mod N) = i mod unat N"
  using slot_of_mod [of N i] assms by (simp add: slot_of_def fits_def)

lemma spsc_inv_new: "spsc_inv N (spsc_new N) 0 0"
  by (simp add: spsc_inv_def spsc_new_def send_inv_def recv_inv_def full_slots_def)

lemma full_slots_write:
  assumes "full_slots n s H T" and "T < K + n" and "K \<le> H" and "sp_sent s' = sp_sent s"
    and "sp_buf s' = (sp_buf s)[T mod n := x]"
  shows "full_slots n s' H T"
  unfolding full_slots_def
proof (intro allI impI)
  fix i assume i: "H \<le> i \<and> i < T"
  then have "i mod n \<noteq> T mod n" using assms(2,3) by (intro slots_differ) auto
  then show "sp_buf s' ! (i mod n) = Some (sp_sent s' ! i)"
    using assms(1,4,5) i by (simp add: full_slots_def)
qed

lemma recv_inv_transfer:
  assumes "recv_inv N s H T" and "sp_recv s' = sp_recv s" and "T \<le> T'"
    and "\<And>i. i < T \<Longrightarrow> sp_sent s' ! i = sp_sent s ! i"
    and "\<And>K. H \<le> K \<Longrightarrow> full_slots (unat N) s K T \<Longrightarrow> full_slots (unat N) s' K T'"
  shows "recv_inv N s' H T'"
proof (cases "sp_recv s")
  case RIdle
  with assms(1,2) assms(5) [of H] show ?thesis by (simp add: recv_inv_def)
next
  case (RTail tail)
  with assms(1) obtain t where "tail = of_nat t" "H \<le> t" "t \<le> T'" using assms(3) by (auto simp: recv_inv_def)
  with RTail assms(1,2) assms(5) [of H] show ?thesis by (auto simp: recv_inv_def)
next
  case (RRead v)
  with assms(1,2,3) assms(4) [of H] assms(5) [of "Suc H"] show ?thesis by (simp add: recv_inv_def)
next
  case RUndef
  with assms(1) show ?thesis by (simp add: recv_inv_def)
qed

lemma spsc_inv_step_send:
  fixes N :: "'w::len word"
  assumes inv: "spsc_inv N s H T" and d: "unat N dvd 2 ^ LENGTH('w)"
  shows "\<exists>T'. spsc_inv N (step_send N s) H T'"
proof (cases "sp_send s")
  case SIdle
  with inv show ?thesis by (auto simp: step_send_def)
next
  case (SHead head v)
  with inv obtain h where h: "head = of_nat h" "h \<le> H" "T \<le> h + unat N"
    by (auto simp: spsc_inv_def send_inv_def)
  have T: "sp_tail s = of_nat T" "H \<le> T" "length (sp_buf s) = unat N" using inv by (auto simp: spsc_inv_def)
  have diff: "unat (sp_tail s - head) = T - h" using counters_differ(1) [of h T N] h T by simp
  show ?thesis
  proof (cases "sp_tail s - head \<ge> N")
    case True
    have "recv_inv N s H T" using inv by (simp add: spsc_inv_def)
    then have "recv_inv N (s\<lparr>sp_send := SIdle\<rparr>) H T"
      by (rule recv_inv_transfer) (simp_all add: full_slots_def)
    then have "spsc_inv N (s\<lparr>sp_send := SIdle\<rparr>) H T"
      using inv by (simp add: spsc_inv_def send_inv_def)
    moreover have "step_send N s = s\<lparr>sp_send := SIdle\<rparr>" using True SHead by (simp add: step_send_def)
    ultimately show ?thesis by metis
  next
    case False
    then have room: "T < h + unat N" using diff h T by (simp add: word_le_nat_alt)
    define s' where "s' = s\<lparr>sp_buf := (sp_buf s)[T mod unat N := Some v], sp_send := SWritten v\<rparr>"
    have step: "step_send N s = s'"
      using False SHead slot_mod [OF d, of T] by (simp add: step_send_def s'_def T)
    have keep: "full_slots (unat N) s' K T" if "full_slots (unat N) s K T" and "H \<le> K" for K
      by (rule full_slots_write [OF that(1) room]) (use that h(2) in \<open>simp_all add: s'_def\<close>)
    have "recv_inv N s H T" using inv by (simp add: spsc_inv_def)
    then have "recv_inv N s' H T"
      by (rule recv_inv_transfer) (use keep in \<open>simp_all add: s'_def\<close>)
    moreover have "0 < unat N" using room h(2) T(2) by linarith
    then have "T mod unat N < length (sp_buf s)" by (simp add: T)
    then have "send_inv N s' H T"
      using room h by (simp add: send_inv_def s'_def)
    ultimately have "spsc_inv N s' H T"
      using inv by (simp add: spsc_inv_def s'_def)
    then show ?thesis unfolding step by blast
  qed
next
  case (SWritten v)
  with inv have w: "T < H + unat N" "sp_buf s ! (T mod unat N) = Some v" by (auto simp: spsc_inv_def send_inv_def)
  define s' where "s' = s\<lparr>sp_tail := sp_tail s + 1, sp_send := SIdle, sp_sent := sp_sent s @ [v]\<rparr>"
  have step: "step_send N s = s'" using SWritten by (simp add: step_send_def s'_def)
  have len: "length (sp_sent s) = T" using inv by (simp add: spsc_inv_def)
  have more: "full_slots (unat N) s' K (Suc T)" if "full_slots (unat N) s K T" for K
    unfolding full_slots_def
  proof (intro allI impI)
    fix i assume i: "K \<le> i \<and> i < Suc T"
    show "sp_buf s' ! (i mod unat N) = Some (sp_sent s' ! i)"
    proof (cases "i = T")
      case True
      then show ?thesis using w(2) len by (simp add: s'_def nth_append)
    next
      case False
      then show ?thesis using that i len by (simp add: full_slots_def s'_def nth_append)
    qed
  qed
  have "recv_inv N s' H (Suc T)"
  proof (rule recv_inv_transfer)
    show "recv_inv N s H T" using inv by (simp add: spsc_inv_def)
  qed (use more len in \<open>simp_all add: s'_def nth_append\<close>)
  then have "spsc_inv N s' H (Suc T)"
    using inv w by (simp add: spsc_inv_def s'_def send_inv_def)
  then show ?thesis unfolding step by blast
qed

lemma spsc_inv_step_recv:
  fixes N :: "'w::len word"
  assumes inv: "spsc_inv N s H T" and d: "unat N dvd 2 ^ LENGTH('w)"
  shows "\<exists>H'. spsc_inv N (step_recv N s) H' T"
proof (cases "sp_recv s")
  case RIdle
  with inv show ?thesis by (auto simp: step_recv_def)
next
  case (RTail tail)
  with inv obtain t where t: "tail = of_nat t" "H \<le> t" "t \<le> T" and full: "full_slots (unat N) s H T"
    by (auto simp: spsc_inv_def recv_inv_def)
  have H: "sp_head s = of_nat H" "T \<le> H + unat N" using inv by (auto simp: spsc_inv_def)
  have eq: "sp_head s = tail \<longleftrightarrow> H = t" using counters_differ(2) [of H t N] t H by simp
  show ?thesis
  proof (cases "H = t")
    case True
    have "spsc_inv N (s\<lparr>sp_recv := RIdle\<rparr>) H T"
      using inv full by (auto simp: spsc_inv_def send_inv_def recv_inv_def full_slots_def split: send_pc.splits)
    with True RTail eq show ?thesis by (auto simp: step_recv_def)
  next
    case False
    with t have lt: "H < T" by simp
    then have slot: "sp_buf s ! (H mod unat N) = Some (sp_sent s ! H)" using full by (simp add: full_slots_def)
    define s' where "s' = s\<lparr>sp_buf := (sp_buf s)[H mod unat N := None], sp_recv := RRead (sp_sent s ! H)\<rparr>"
    have step: "step_recv N s = s'"
      using False RTail eq slot slot_mod [OF d, of H] by (simp add: step_recv_def s'_def H)
    have "full_slots (unat N) s' (Suc H) T"
      unfolding full_slots_def
    proof (intro allI impI)
      fix i assume i: "Suc H \<le> i \<and> i < T"
      then have "H mod unat N \<noteq> i mod unat N" using H by (intro slots_differ) auto
      then show "sp_buf s' ! (i mod unat N) = Some (sp_sent s' ! i)"
        using full i by (simp add: full_slots_def s'_def)
    qed
    then have "recv_inv N s' H T" using lt by (simp add: recv_inv_def s'_def)
    moreover have "send_inv N s' H T"
    proof (cases "sp_send s")
      case (SWritten v)
      with inv have w: "T < H + unat N" "sp_buf s ! (T mod unat N) = Some v"
        by (auto simp: spsc_inv_def send_inv_def)
      then have "H mod unat N \<noteq> T mod unat N" using lt by (intro slots_differ) auto
      with w SWritten show ?thesis by (simp add: send_inv_def s'_def)
    qed (use inv in \<open>auto simp: spsc_inv_def send_inv_def s'_def\<close>)
    ultimately have "spsc_inv N s' H T"
      using inv by (simp add: spsc_inv_def s'_def)
    then show ?thesis unfolding step by blast
  qed
next
  case (RRead v)
  with inv have r: "full_slots (unat N) s (Suc H) T" "H < T" "v = sp_sent s ! H"
    by (auto simp: spsc_inv_def recv_inv_def)
  define s' where "s' = s\<lparr>sp_head := sp_head s + 1, sp_recv := RIdle, sp_got := sp_got s @ [v]\<rparr>"
  have step: "step_recv N s = s'" using RRead by (simp add: step_recv_def s'_def)
  have "send_inv N s' (Suc H) T"
    using inv by (fastforce simp: spsc_inv_def send_inv_def s'_def split: send_pc.splits)
  moreover have "recv_inv N s' (Suc H) T"
    using r by (simp add: recv_inv_def s'_def full_slots_def)
  ultimately have "spsc_inv N s' (Suc H) T"
    using inv r by (simp add: spsc_inv_def s'_def take_Suc_conv_app_nth)
  then show ?thesis unfolding step by blast
next
  case RUndef
  with inv show ?thesis by (simp add: spsc_inv_def recv_inv_def)
qed

lemma spsc_inv_calls:
  assumes "spsc_inv N s H T"
  shows "sp_send s = SIdle \<Longrightarrow> spsc_inv N (s\<lparr>sp_send := SHead (sp_head s) v\<rparr>) H T"
    and "sp_recv s = RIdle \<Longrightarrow> spsc_inv N (s\<lparr>sp_recv := RTail (sp_tail s)\<rparr>) H T"
  using assms
  by (auto simp: spsc_inv_def send_inv_def recv_inv_def full_slots_def split: recv_pc.splits send_pc.splits)

lemma spsc_inv_do:
  fixes N :: "'w::len word"
  assumes "spsc_inv N s H T" and "unat N dvd 2 ^ LENGTH('w)"
  shows "\<exists>H' T'. spsc_inv N (spsc_do N act s) H' T'"
proof (cases act)
  case (CallSend v)
  with spsc_inv_calls(1) [OF assms(1)] assms(1) show ?thesis by (cases "sp_send s = SIdle") auto
next
  case StepSend
  with spsc_inv_step_send [OF assms] show ?thesis by auto
next
  case CallRecv
  with spsc_inv_calls(2) [OF assms(1)] assms(1) show ?thesis by (cases "sp_recv s = RIdle") auto
next
  case StepRecv
  with spsc_inv_step_recv [OF assms] show ?thesis by auto
qed

lemma spsc_inv_run:
  fixes N :: "'w::len word"
  assumes "unat N dvd 2 ^ LENGTH('w)"
  shows "spsc_inv N s H T \<Longrightarrow> \<exists>H' T'. spsc_inv N (spsc_run N acts s) H' T'"
proof (induction acts arbitrary: s H T)
  case (Cons act acts)
  from spsc_inv_do [OF Cons.prems assms, of act] Cons.IH show ?case by (auto simp: spsc_run_def)
qed (auto simp: spsc_run_def)

lemma spsc_no_race:
  fixes N :: "'w::len word"
  assumes inv: "spsc_inv N s H T" and d: "unat N dvd 2 ^ LENGTH('w)"
    and "send_access N s = Some i" and "recv_access N s = Some j"
  shows "i \<noteq> j"
proof -
  from assms(3) obtain head v where s: "sp_send s = SHead head v" and nf: "\<not> sp_tail s - head \<ge> N"
    and i: "i = unat (sp_tail s mod N)" by (auto simp: send_access_def split: send_pc.splits if_splits)
  from assms(4) obtain tail where r: "sp_recv s = RTail tail" and ne: "sp_head s \<noteq> tail"
    and j: "j = unat (sp_head s mod N)" by (auto simp: recv_access_def split: recv_pc.splits if_splits)
  from inv s obtain h where h: "head = of_nat h" "h \<le> H" "T \<le> h + unat N" by (auto simp: spsc_inv_def send_inv_def)
  from inv r obtain t where t: "tail = of_nat t" "H \<le> t" "t \<le> T" by (auto simp: spsc_inv_def recv_inv_def)
  have c: "sp_head s = of_nat H" "sp_tail s = of_nat T" "H \<le> T" using inv by (auto simp: spsc_inv_def)
  have "unat (sp_tail s - head) = T - h" using counters_differ(1) [of h T N] h c by simp
  then have "T < h + unat N" using nf h c by (simp add: word_le_nat_alt)
  moreover have "H < T" using ne t c by (cases "H = t") auto
  ultimately have "H mod unat N \<noteq> T mod unat N" using h by (intro slots_differ) auto
  then show ?thesis unfolding i j c slot_mod [OF d] by simp
qed

section \<open>Properties\<close>

text \<open>
  On two threads the channel is a lossless queue: whatever the interleaving of the producer's
  and the consumer's steps, the received values are a prefix of the published ones, in order, with
  at most \<open>N\<close> between them, and no uninitialised slot is ever read.
\<close>

theorem channel_spsc_fifo:
  fixes N :: "'w::len word"
  assumes "unat N dvd 2 ^ LENGTH('w)"
  shows "let s = spsc_run N acts (spsc_new N)
     in sp_got s = take (length (sp_got s)) (sp_sent s) \<and>
        length (sp_sent s) - length (sp_got s) \<le> unat N \<and> sp_recv s \<noteq> RUndef"
proof -
  from spsc_inv_run [OF assms spsc_inv_new, of acts] obtain H T
    where inv: "spsc_inv N (spsc_run N acts (spsc_new N)) H T" by blast
  then show ?thesis by (auto simp: spsc_inv_def recv_inv_def Let_def)
qed

theorem channel_spsc_fifo_witness:
  "let s = spsc_run (2 :: 8 word) [CallSend (5 :: nat), StepSend, CallRecv, StepSend, CallSend 6, StepRecv,
       CallRecv, StepSend, StepRecv, StepRecv] (spsc_new 2)
   in sp_got s = [5] \<and> sp_got s = take (length (sp_got s)) (sp_sent s)"
proof -
  let ?acts = "[CallSend (5 :: nat), StepSend, CallRecv, StepSend, CallSend 6, StepRecv,
       CallRecv, StepSend, StepRecv, StepRecv]"
  let ?s = "spsc_run (2 :: 8 word) ?acts (spsc_new 2)"
  have "sp_got ?s = [5]"
    by (simp add: spsc_run_def spsc_new_def step_send_def step_recv_def word_le_nat_alt)
  moreover have "sp_got ?s = take (length (sp_got ?s)) (sp_sent ?s)"
    using channel_spsc_fifo [of "2 :: 8 word" ?acts] unfolding Let_def by (rule conjunct1) simp
  ultimately show ?thesis unfolding Let_def by blast
qed

text \<open>
  The two sides never touch the same slot at the same time: when the producer is about to write
  a slot and the consumer about to read one, they are different slots.
\<close>

theorem channel_spsc_no_race:
  fixes N :: "'w::len word"
  assumes "unat N dvd 2 ^ LENGTH('w)"
    and "send_access N (spsc_run N acts (spsc_new N)) = Some i"
    and "recv_access N (spsc_run N acts (spsc_new N)) = Some j"
  shows "i \<noteq> j"
  using spsc_inv_run [OF assms(1) spsc_inv_new, of acts] spsc_no_race [OF _ assms] by blast

theorem channel_spsc_no_race_witness:
  "send_access (2 :: 8 word) (spsc_run 2 [CallSend (5 :: nat), StepSend, StepSend, CallSend 6, CallRecv] (spsc_new 2)) = Some 1 \<and>
   recv_access (2 :: 8 word) (spsc_run 2 [CallSend (5 :: nat), StepSend, StepSend, CallSend 6, CallRecv] (spsc_new 2)) = Some 0 \<and>
   (1 :: nat) \<noteq> 0"
proof -
  let ?s = "spsc_run (2 :: 8 word) [CallSend (5 :: nat), StepSend, StepSend, CallSend 6, CallRecv] (spsc_new 2)"
  have a: "send_access 2 ?s = Some 1" "recv_access 2 ?s = Some 0"
    by (simp_all add: spsc_run_def spsc_new_def step_send_def send_access_def recv_access_def word_le_nat_alt)
  with channel_spsc_no_race [OF _ a] show ?thesis by simp
qed

end
