(* ===== verification/Channel_Ra.thy ===== *)
theory Channel_Ra
  imports Ra_Memory Channel_Spsc
begin

text \<open>
  \<open>crates/px4-workqueue/src/channel.rs\<close> under the orderings it names: \<open>try_send\<close> on one thread and \<open>try_recv\<close> on
  another, over the memory of \<open>Ra_Memory\<close>. The counters are atomic locations, a slot is a plain one. Every load
  may return an old value; \<open>rc_bad\<close> records a data race on a slot and the reading of a slot without a value. The
  counters are \<open>'w word\<close>s that wrap.
\<close>

section \<open>State and steps\<close>

datatype chan_loc = Head | Tail | Slot nat

text \<open>
  What a side does next: load the counter of the other side, load its own, access the slot,
  store its own counter.
\<close>

datatype ('a, 'u) ra_send =
    SendIdle
  | SendHead 'a
  | SendTail 'a 'u
  | SendSlot 'a 'u
  | SendStore 'a 'u

datatype ('a, 'u) ra_recv =
    RecvIdle
  | RecvTail
  | RecvHead 'u
  | RecvSlot 'u
  | RecvStore 'u 'a

record ('a, 'u) ra_chan =
  rc_mem :: "(chan_loc, 'u) memory"
  rc_buf :: "'a option list"
  rc_sview :: "chan_loc view"
  rc_rview :: "chan_loc view"
  rc_send :: "('a, 'u) ra_send"
  rc_recv :: "('a, 'u) ra_recv"
  rc_sent :: "'a list"
  rc_got :: "'a list"
  rc_bad :: bool

definition ra_chan_new :: "'w::len word \<Rightarrow> ('a, 'w word) ra_chan" where
  "ra_chan_new N =
     \<lparr>rc_mem = mem_new (\<lambda>l. case l of Slot j \<Rightarrow> None | _ \<Rightarrow> Some 0), rc_buf = replicate (unat N) None,
      rc_sview = (\<lambda>_. 0), rc_rview = (\<lambda>_. 0), rc_send = SendIdle, rc_recv = RecvIdle,
      rc_sent = [], rc_got = [], rc_bad = False\<rparr>"

definition ra_step_send :: "'w::len word \<Rightarrow> nat \<Rightarrow> ('a, 'w word) ra_chan \<Rightarrow> ('a, 'w word) ra_chan" where
  "ra_step_send N n s =
     (case rc_send s of
        SendIdle \<Rightarrow> s
      | SendHead v \<Rightarrow>
          (case ra_load Acquire n Head (rc_mem s) (rc_sview s) of
             (head, V) \<Rightarrow> s\<lparr>rc_sview := V, rc_send := SendTail v head\<rparr>)
      | SendTail v head \<Rightarrow>
          (case ra_load Relaxed n Tail (rc_mem s) (rc_sview s) of
             (tail, V) \<Rightarrow> s\<lparr>rc_sview := V, rc_send := (if tail - head \<ge> N then SendIdle else SendSlot v tail)\<rparr>)
      | SendSlot v tail \<Rightarrow>
          (let idx = unat (tail mod N)
           in case plain_access (Slot idx) (rc_mem s) (rc_sview s) of
                (race, m, V) \<Rightarrow>
                  s\<lparr>rc_mem := m, rc_sview := V, rc_buf := (rc_buf s)[idx := Some v],
                    rc_bad := (rc_bad s \<or> race), rc_send := SendStore v tail\<rparr>)
      | SendStore v tail \<Rightarrow>
          (case ra_store Release Tail (tail + 1) (rc_mem s) (rc_sview s) of
             (m, V) \<Rightarrow> s\<lparr>rc_mem := m, rc_sview := V, rc_sent := rc_sent s @ [v], rc_send := SendIdle\<rparr>))"

definition ra_step_recv :: "'w::len word \<Rightarrow> nat \<Rightarrow> ('a, 'w word) ra_chan \<Rightarrow> ('a, 'w word) ra_chan" where
  "ra_step_recv N n s =
     (case rc_recv s of
        RecvIdle \<Rightarrow> s
      | RecvTail \<Rightarrow>
          (case ra_load Acquire n Tail (rc_mem s) (rc_rview s) of
             (tail, V) \<Rightarrow> s\<lparr>rc_rview := V, rc_recv := RecvHead tail\<rparr>)
      | RecvHead tail \<Rightarrow>
          (case ra_load Relaxed n Head (rc_mem s) (rc_rview s) of
             (head, V) \<Rightarrow> s\<lparr>rc_rview := V, rc_recv := (if head = tail then RecvIdle else RecvSlot head)\<rparr>)
      | RecvSlot head \<Rightarrow>
          (let idx = unat (head mod N)
           in case plain_access (Slot idx) (rc_mem s) (rc_rview s) of
                (race, m, V) \<Rightarrow>
                  (case rc_buf s ! idx of
                     None \<Rightarrow> s\<lparr>rc_mem := m, rc_rview := V, rc_bad := True, rc_recv := RecvIdle\<rparr>
                   | Some v \<Rightarrow>
                       s\<lparr>rc_mem := m, rc_rview := V, rc_buf := (rc_buf s)[idx := None],
                         rc_bad := (rc_bad s \<or> race), rc_recv := RecvStore head v\<rparr>))
      | RecvStore head v \<Rightarrow>
          (case ra_store Release Head (head + 1) (rc_mem s) (rc_rview s) of
             (m, V) \<Rightarrow> s\<lparr>rc_mem := m, rc_rview := V, rc_got := rc_got s @ [v], rc_recv := RecvIdle\<rparr>))"

text \<open>\<open>n\<close> says which of the readable values the next load returns.\<close>

datatype 'a ra_act = RaCallSend 'a | RaSend nat | RaCallRecv | RaRecv nat

fun ra_do :: "'w::len word \<Rightarrow> 'a ra_act \<Rightarrow> ('a, 'w word) ra_chan \<Rightarrow> ('a, 'w word) ra_chan" where
  "ra_do N (RaCallSend v) s = (if rc_send s = SendIdle then s\<lparr>rc_send := SendHead v\<rparr> else s)"
| "ra_do N (RaSend n) s = ra_step_send N n s"
| "ra_do N RaCallRecv s = (if rc_recv s = RecvIdle then s\<lparr>rc_recv := RecvTail\<rparr> else s)"
| "ra_do N (RaRecv n) s = ra_step_recv N n s"

definition ra_run :: "'w::len word \<Rightarrow> 'a ra_act list \<Rightarrow> ('a, 'w word) ra_chan \<Rightarrow> ('a, 'w word) ra_chan" where
  "ra_run N acts s = fold (ra_do N) acts s"

text \<open>
  \<open>len\<close> on a thread with the view \<open>V\<close>: two loads, between which the other threads go on.
\<close>

definition ra_len_tail :: "nat \<Rightarrow> ('a, 'u) ra_chan \<Rightarrow> chan_loc view \<Rightarrow> 'u \<times> chan_loc view" where
  "ra_len_tail n s V = ra_load Acquire n Tail (rc_mem s) V"

definition ra_len_head :: "nat \<Rightarrow> 'w::len word \<Rightarrow> ('a, 'w word) ra_chan \<Rightarrow> chan_loc view \<Rightarrow> 'w word" where
  "ra_len_head n tail s V = tail - fst (ra_load Acquire n Head (rc_mem s) V)"

section \<open>Counting the accesses of a slot\<close>

text \<open>How many of the first \<open>t\<close> values go to slot \<open>j\<close> of \<open>n\<close>.\<close>

definition uses :: "nat \<Rightarrow> nat \<Rightarrow> nat \<Rightarrow> nat" where
  "uses n t j = length (filter (\<lambda>i. i mod n = j) [0..<t])"

lemma uses_0 [simp]: "uses n 0 j = 0"
  by (simp add: uses_def)

lemma uses_Suc: "uses n (Suc t) j = uses n t j + of_bool (t mod n = j)"
  by (simp add: uses_def)

lemma uses_mono: "s \<le> t \<Longrightarrow> uses n s j \<le> uses n t j"
  by (induction t) (auto simp: le_Suc_eq uses_Suc)

lemma uses_same:
  assumes "s \<le> t" and "\<And>i. s \<le> i \<Longrightarrow> i < t \<Longrightarrow> i mod n \<noteq> j"
  shows "uses n s j = uses n t j"
  using assms by (induction t) (auto simp: le_Suc_eq uses_Suc)

lemma uses_write:
  assumes "t < h + n" and "h \<le> r" and "r \<le> t"
  shows "uses n r (t mod n) = uses n h (t mod n)" and "uses n t (t mod n) = uses n h (t mod n)"
proof -
  have "uses n h (t mod n) = uses n t (t mod n)"
  proof (rule uses_same)
    fix i assume "h \<le> i" and "i < t"
    then show "i mod n \<noteq> t mod n" using assms(1) by (intro slots_differ) auto
  qed (use assms in simp)
  then show "uses n t (t mod n) = uses n h (t mod n)" by simp
  then show "uses n r (t mod n) = uses n h (t mod n)"
    using uses_mono [OF assms(2), of n "t mod n"] uses_mono [OF assms(3), of n "t mod n"] by simp
qed

lemma uses_read:
  assumes "h < w" and "w \<le> h + n"
  shows "uses n w (h mod n) = uses n h (h mod n) + 1"
proof -
  have "uses n (Suc h) (h mod n) = uses n w (h mod n)"
  proof (rule uses_same)
    fix i assume "Suc h \<le> i" and "i < w"
    then show "i mod n \<noteq> h mod n" using assms slots_differ [of h i n] by auto
  qed (use assms in simp)
  then show ?thesis by (simp add: uses_Suc)
qed

section \<open>Invariant\<close>

text \<open>
  The knowledge that travels with the counters: the entry \<open>t\<close> of \<open>tail\<close> carries the writes of the
  first \<open>t\<close> values, the entry \<open>h\<close> of \<open>head\<close> the reads of the first \<open>h\<close>. A slot is written and read in turn, so
  after \<open>u\<close> writes and \<open>u\<close> reads of it its clock is \<open>2 * u\<close>.
\<close>

definition tail_ok :: "nat \<Rightarrow> nat \<Rightarrow> (chan_loc, 'w::len word) memory \<Rightarrow> bool" where
  "tail_ok n T m \<longleftrightarrow>
     length (mm_hist m Tail) = Suc T \<and>
     (\<forall>t \<le> T. ms_value (mm_hist m Tail ! t) = of_nat t \<and> ms_view (mm_hist m Tail ! t) Tail \<le> t \<and>
        (\<forall>j. 2 * uses n t j - 1 \<le> ms_view (mm_hist m Tail ! t) (Slot j)))"

definition head_ok :: "nat \<Rightarrow> nat \<Rightarrow> (chan_loc, 'w::len word) memory \<Rightarrow> bool" where
  "head_ok n H m \<longleftrightarrow>
     length (mm_hist m Head) = Suc H \<and>
     (\<forall>h \<le> H. ms_value (mm_hist m Head ! h) = of_nat h \<and> ms_view (mm_hist m Head ! h) Head \<le> h \<and>
        (\<forall>j. 2 * uses n h j \<le> ms_view (mm_hist m Head ! h) (Slot j)))"

text \<open>The number of values written to a slot and read from one so far.\<close>

definition written :: "('a, 'u) ra_chan \<Rightarrow> nat" where
  "written s = rc_sview s Tail + (case rc_send s of SendStore v t \<Rightarrow> 1 | _ \<Rightarrow> 0)"

definition taken :: "('a, 'u) ra_chan \<Rightarrow> nat" where
  "taken s = rc_rview s Head + (case rc_recv s of RecvStore h v \<Rightarrow> 1 | _ \<Rightarrow> 0)"

definition ra_mem_ok :: "nat \<Rightarrow> ('a, 'w::len word) ra_chan \<Rightarrow> bool" where
  "ra_mem_ok n s \<longleftrightarrow>
     mem_ok (rc_mem s) \<and> view_ok (rc_mem s) (rc_sview s) \<and> view_ok (rc_mem s) (rc_rview s) \<and>
     (\<forall>j. mm_hist (rc_mem s) (Slot j) = []) \<and>
     tail_ok n (rc_sview s Tail) (rc_mem s) \<and> head_ok n (rc_rview s Head) (rc_mem s) \<and>
     (\<forall>j. mm_clock (rc_mem s) (Slot j) = uses n (written s) j + uses n (taken s) j)"

definition ra_views_ok :: "nat \<Rightarrow> ('a, 'w::len word) ra_chan \<Rightarrow> bool" where
  "ra_views_ok n s \<longleftrightarrow>
     rc_sview s Head \<le> rc_rview s Head \<and> rc_rview s Head \<le> rc_rview s Tail \<and>
     rc_rview s Tail \<le> rc_sview s Tail \<and> rc_sview s Tail \<le> rc_sview s Head + n \<and>
     (\<forall>j. 2 * uses n (written s) j - 1 \<le> rc_sview s (Slot j)) \<and>
     (\<forall>j. 2 * uses n (rc_sview s Head) j \<le> rc_sview s (Slot j)) \<and>
     (\<forall>j. 2 * uses n (taken s) j \<le> rc_rview s (Slot j)) \<and>
     (\<forall>j. 2 * uses n (rc_rview s Tail) j - 1 \<le> rc_rview s (Slot j))"

definition ra_send_ok :: "nat \<Rightarrow> ('a, 'w::len word) ra_chan \<Rightarrow> bool" where
  "ra_send_ok n s \<longleftrightarrow>
     (case rc_send s of
        SendTail v head \<Rightarrow> head = of_nat (rc_sview s Head)
      | SendSlot v tail \<Rightarrow> tail = of_nat (rc_sview s Tail) \<and> rc_sview s Tail < rc_sview s Head + n
      | SendStore v tail \<Rightarrow>
          tail = of_nat (rc_sview s Tail) \<and> rc_sview s Tail < rc_sview s Head + n \<and>
          rc_buf s ! (rc_sview s Tail mod n) = Some v
      | _ \<Rightarrow> True)"

definition ra_recv_ok :: "('a, 'w::len word) ra_chan \<Rightarrow> bool" where
  "ra_recv_ok s \<longleftrightarrow>
     (case rc_recv s of
        RecvHead tail \<Rightarrow> tail = of_nat (rc_rview s Tail)
      | RecvSlot head \<Rightarrow> head = of_nat (rc_rview s Head) \<and> rc_rview s Head < rc_rview s Tail
      | RecvStore head v \<Rightarrow>
          head = of_nat (rc_rview s Head) \<and> rc_rview s Head < rc_rview s Tail \<and>
          v = rc_sent s ! rc_rview s Head
      | _ \<Rightarrow> True)"

definition ra_data_ok :: "nat \<Rightarrow> ('a, 'u) ra_chan \<Rightarrow> bool" where
  "ra_data_ok n s \<longleftrightarrow>
     length (rc_buf s) = n \<and> length (rc_sent s) = rc_sview s Tail \<and>
     rc_got s = take (rc_rview s Head) (rc_sent s) \<and> \<not> rc_bad s \<and>
     (\<forall>i. taken s \<le> i \<and> i < rc_sview s Tail \<longrightarrow> rc_buf s ! (i mod n) = Some (rc_sent s ! i))"

definition ra_inv :: "nat \<Rightarrow> ('a, 'w::len word) ra_chan \<Rightarrow> bool" where
  "ra_inv n s \<longleftrightarrow> ra_mem_ok n s \<and> ra_views_ok n s \<and> ra_send_ok n s \<and> ra_recv_ok s \<and> ra_data_ok n s"

lemmas ra_parts = ra_mem_ok_def ra_views_ok_def ra_send_ok_def ra_recv_ok_def ra_data_ok_def

lemma ra_inv_new: "ra_inv (unat N) (ra_chan_new N)"
  by (simp add: ra_inv_def ra_parts ra_chan_new_def tail_ok_def head_ok_def written_def taken_def mem_new_ok)
     (simp add: mem_new_def)

lemma ra_invD:
  assumes "ra_inv n s"
  shows "mem_ok (rc_mem s)" "view_ok (rc_mem s) (rc_sview s)" "view_ok (rc_mem s) (rc_rview s)"
    "\<And>j. mm_hist (rc_mem s) (Slot j) = []"
    "tail_ok n (rc_sview s Tail) (rc_mem s)" "head_ok n (rc_rview s Head) (rc_mem s)"
    "\<And>j. mm_clock (rc_mem s) (Slot j) = uses n (written s) j + uses n (taken s) j"
    "rc_sview s Head \<le> rc_rview s Head" "rc_rview s Head \<le> rc_rview s Tail"
    "rc_rview s Tail \<le> rc_sview s Tail" "rc_sview s Tail \<le> rc_sview s Head + n"
  using assms by (auto simp: ra_inv_def ra_mem_ok_def ra_views_ok_def)

lemma tail_hist [dest]: "tail_ok n T m \<Longrightarrow> mm_hist m Tail \<noteq> []" "head_ok n H m \<Longrightarrow> mm_hist m Head \<noteq> []"
  by (auto simp: tail_ok_def head_ok_def)

text \<open>Loading the other side's counter.\<close>

lemma ra_inv_load_head:
  assumes inv: "ra_inv n s" and pc: "rc_send s = SendHead v"
    and ld: "ra_load Acquire k Head (rc_mem s) (rc_sview s) = (head, V)"
  shows "ra_inv n (s\<lparr>rc_sview := V, rc_send := SendTail v head\<rparr>)"
proof -
  note d = ra_invD [OF inv]
  have ne: "mm_hist (rc_mem s) Head \<noteq> []" using d(6) by blast
  from ra_load_spec [OF ld d(2) ne] obtain h where h: "rc_sview s Head \<le> h" "h < length (mm_hist (rc_mem s) Head)"
    and head: "head = ms_value (mm_hist (rc_mem s) Head ! h)"
    and V: "V = view_join ((rc_sview s)(Head := h)) (ms_view (mm_hist (rc_mem s) Head ! h))" by auto
  let ?W = "ms_view (mm_hist (rc_mem s) Head ! h)"
  have hH: "h \<le> rc_rview s Head" using h(2) d(6) by (simp add: head_ok_def)
  then have msg: "head = of_nat h" "?W Head \<le> h" "\<And>j. 2 * uses n h j \<le> ?W (Slot j)"
    using d(6) head by (auto simp: head_ok_def)
  have okV: "view_ok (rc_mem s) V" by (rule view_ok_load [OF ld d(2,1) ne])
  have lenT: "length (mm_hist (rc_mem s) Tail) = Suc (rc_sview s Tail)" using d(5) by (simp add: tail_ok_def)
  have "V Tail \<le> rc_sview s Tail" using okV lenT by (auto simp: view_ok_def less_Suc_eq_le dest!: spec [of _ Tail])
  then have VT: "V Tail = rc_sview s Tail" by (simp add: V)
  have VH: "V Head = h" using msg(2) by (simp add: V)
  have VS: "V (Slot j) = max (rc_sview s (Slot j)) (?W (Slot j))" for j by (simp add: V)
  have w: "written (s\<lparr>rc_sview := V, rc_send := SendTail v head\<rparr>) = written s"
    "taken (s\<lparr>rc_sview := V, rc_send := SendTail v head\<rparr>) = taken s"
    using pc by (simp_all add: written_def taken_def VT)
  let ?s = "s\<lparr>rc_sview := V, rc_send := SendTail v head\<rparr>"
  have "ra_mem_ok n ?s" using inv okV by (simp add: ra_inv_def ra_mem_ok_def w VT)
  moreover have "ra_views_ok n ?s"
    using inv h(1) hH msg(3) by (simp add: ra_inv_def ra_views_ok_def w VT VH VS le_max_iff_disj)
  moreover have "ra_send_ok n ?s" by (simp add: ra_send_ok_def VH msg(1))
  moreover have "ra_recv_ok ?s" using inv by (simp add: ra_inv_def ra_recv_ok_def cong: ra_recv.case_cong)
  moreover have "ra_data_ok n ?s" using inv by (simp add: ra_inv_def ra_data_ok_def w VT)
  ultimately show ?thesis by (simp add: ra_inv_def)
qed

lemma ra_inv_load_tail:
  assumes inv: "ra_inv n s" and pc: "rc_recv s = RecvTail"
    and ld: "ra_load Acquire k Tail (rc_mem s) (rc_rview s) = (tail, V)"
  shows "ra_inv n (s\<lparr>rc_rview := V, rc_recv := RecvHead tail\<rparr>)"
proof -
  note d = ra_invD [OF inv]
  have ne: "mm_hist (rc_mem s) Tail \<noteq> []" using d(5) by blast
  from ra_load_spec [OF ld d(3) ne] obtain t where t: "rc_rview s Tail \<le> t" "t < length (mm_hist (rc_mem s) Tail)"
    and tail: "tail = ms_value (mm_hist (rc_mem s) Tail ! t)"
    and V: "V = view_join ((rc_rview s)(Tail := t)) (ms_view (mm_hist (rc_mem s) Tail ! t))" by auto
  let ?W = "ms_view (mm_hist (rc_mem s) Tail ! t)"
  have tT: "t \<le> rc_sview s Tail" using t(2) d(5) by (simp add: tail_ok_def)
  then have msg: "tail = of_nat t" "?W Tail \<le> t" "\<And>j. 2 * uses n t j - 1 \<le> ?W (Slot j)"
    using d(5) tail by (auto simp: tail_ok_def)
  have okV: "view_ok (rc_mem s) V" by (rule view_ok_load [OF ld d(3,1) ne])
  have lenH: "length (mm_hist (rc_mem s) Head) = Suc (rc_rview s Head)" using d(6) by (simp add: head_ok_def)
  have "V Head \<le> rc_rview s Head" using okV lenH by (auto simp: view_ok_def less_Suc_eq_le dest!: spec [of _ Head])
  then have VH: "V Head = rc_rview s Head" by (simp add: V)
  have VT: "V Tail = t" using msg(2) by (simp add: V)
  have VS: "V (Slot j) = max (rc_rview s (Slot j)) (?W (Slot j))" for j by (simp add: V)
  have w: "written (s\<lparr>rc_rview := V, rc_recv := RecvHead tail\<rparr>) = written s"
    "taken (s\<lparr>rc_rview := V, rc_recv := RecvHead tail\<rparr>) = taken s"
    using pc by (simp_all add: written_def taken_def VH)
  let ?s = "s\<lparr>rc_rview := V, rc_recv := RecvHead tail\<rparr>"
  have "ra_mem_ok n ?s" using inv okV by (simp add: ra_inv_def ra_mem_ok_def w VH)
  moreover have "ra_views_ok n ?s"
    using inv t(1) tT msg(3) by (simp add: ra_inv_def ra_views_ok_def w VT VH VS le_max_iff_disj)
  moreover have "ra_send_ok n ?s" using inv by (simp add: ra_inv_def ra_send_ok_def cong: ra_send.case_cong)
  moreover have "ra_recv_ok ?s" by (simp add: ra_recv_ok_def VT msg(1))
  moreover have "ra_data_ok n ?s" using inv by (simp add: ra_inv_def ra_data_ok_def w VH)
  ultimately show ?thesis by (simp add: ra_inv_def)
qed

lemma ra_inv_check_send:
  fixes N :: "'w::len word"
  assumes inv: "ra_inv (unat N) s" and pc: "rc_send s = SendTail v head"
    and ld: "ra_load Relaxed k Tail (rc_mem s) (rc_sview s) = (tail, V)"
  shows "ra_inv (unat N) (s\<lparr>rc_sview := V, rc_send := (if tail - head \<ge> N then SendIdle else SendSlot v tail)\<rparr>)"
    (is "ra_inv ?n ?s")
proof -
  note d = ra_invD [OF inv]
  have len: "length (mm_hist (rc_mem s) Tail) = Suc (rc_sview s Tail)" using d(5) by (simp add: tail_ok_def)
  from ra_load_own [OF ld d(2) len] have V: "V = rc_sview s"
    and tail: "tail = of_nat (rc_sview s Tail)" using d(5) by (auto simp: tail_ok_def)
  have head: "head = of_nat (rc_sview s Head)" using inv pc by (simp add: ra_inv_def ra_send_ok_def)
  have "unat (tail - head) = rc_sview s Tail - rc_sview s Head"
    unfolding tail head using d(8-11) by (intro counters_differ(1) [of _ _ N]) linarith+
  then have room: "tail - head \<ge> N \<longleftrightarrow> unat N \<le> rc_sview s Tail - rc_sview s Head"
    by (simp add: word_le_nat_alt)
  have w: "written ?s = written s" "taken ?s = taken s" using pc by (simp_all add: written_def taken_def V)
  have "ra_mem_ok ?n ?s" using inv by (simp add: ra_inv_def ra_mem_ok_def w) (simp add: V)
  moreover have "ra_views_ok ?n ?s" using inv by (simp add: ra_inv_def ra_views_ok_def w) (simp add: V)
  moreover have "ra_send_ok ?n ?s" using room d(8-11) by (auto simp: ra_send_ok_def V tail)
  moreover have "ra_recv_ok ?s" using inv by (simp add: ra_inv_def ra_recv_ok_def V cong: ra_recv.case_cong)
  moreover have "ra_data_ok ?n ?s" using inv by (simp add: ra_inv_def ra_data_ok_def w) (simp add: V)
  ultimately show ?thesis by (simp add: ra_inv_def)
qed

lemma ra_inv_check_recv:
  fixes s :: "('a, 'w::len word) ra_chan"
  assumes inv: "ra_inv (unat (N :: 'w word)) s" and pc: "rc_recv s = RecvHead tail"
    and ld: "ra_load Relaxed k Head (rc_mem s) (rc_rview s) = (head, V)"
  shows "ra_inv (unat N) (s\<lparr>rc_rview := V, rc_recv := (if head = tail then RecvIdle else RecvSlot head)\<rparr>)"
    (is "ra_inv ?n ?s")
proof -
  note d = ra_invD [OF inv]
  have len: "length (mm_hist (rc_mem s) Head) = Suc (rc_rview s Head)" using d(6) by (simp add: head_ok_def)
  from ra_load_own [OF ld d(3) len] have V: "V = rc_rview s"
    and head: "head = of_nat (rc_rview s Head)" using d(6) by (auto simp: head_ok_def)
  have tail: "tail = of_nat (rc_rview s Tail)" using inv pc by (simp add: ra_inv_def ra_recv_ok_def)
  have some: "head = tail \<longleftrightarrow> rc_rview s Head = rc_rview s Tail"
    unfolding tail head using d(8-11) by (intro counters_differ(2) [of _ _ N]) linarith+
  have w: "written ?s = written s" "taken ?s = taken s" using pc by (simp_all add: written_def taken_def V)
  have "ra_mem_ok ?n ?s" using inv by (simp add: ra_inv_def ra_mem_ok_def w) (simp add: V)
  moreover have "ra_views_ok ?n ?s" using inv by (simp add: ra_inv_def ra_views_ok_def w) (simp add: V)
  moreover have "ra_send_ok ?n ?s" using inv by (simp add: ra_inv_def ra_send_ok_def V cong: ra_send.case_cong)
  moreover have "ra_recv_ok ?s" using some d(9) by (auto simp: ra_recv_ok_def V head)
  moreover have "ra_data_ok ?n ?s" using inv by (simp add: ra_inv_def ra_data_ok_def w) (simp add: V)
  ultimately show ?thesis by (simp add: ra_inv_def)
qed

text \<open>Writing a slot: all earlier accesses are known.\<close>

lemma write_clock:
  assumes inv: "ra_inv n s" and pc: "rc_send s = SendSlot v tail" and idx: "idx = rc_sview s Tail mod n"
  shows "rc_sview s Tail < rc_sview s Head + n" "rc_sview s Head \<le> taken s" "taken s \<le> rc_sview s Tail"
    "written s = rc_sview s Tail" "mm_clock (rc_mem s) (Slot idx) = 2 * uses n (rc_sview s Tail) idx"
    "mm_clock (rc_mem s) (Slot idx) \<le> rc_sview s (Slot idx)"
proof -
  note d = ra_invD [OF inv]
  show room: "rc_sview s Tail < rc_sview s Head + n" using inv pc by (auto simp: ra_inv_def ra_send_ok_def)
  show tk: "rc_sview s Head \<le> taken s" "taken s \<le> rc_sview s Tail"
    using inv d(8-10) by (auto simp: ra_inv_def ra_recv_ok_def taken_def split: ra_recv.splits)
  show wr: "written s = rc_sview s Tail" using pc by (simp add: written_def)
  show "mm_clock (rc_mem s) (Slot idx) = 2 * uses n (rc_sview s Tail) idx"
    using uses_write [OF room tk] d(7) [of idx] wr by (simp add: idx)
  have "mm_clock (rc_mem s) (Slot idx) = 2 * uses n (rc_sview s Head) idx"
    using uses_write [OF room tk] d(7) [of idx] wr by (simp add: idx)
  also have "\<dots> \<le> rc_sview s (Slot idx)" using inv by (simp add: ra_inv_def ra_views_ok_def)
  finally show "mm_clock (rc_mem s) (Slot idx) \<le> rc_sview s (Slot idx)" .
qed

lemma ra_inv_write:
  assumes inv: "ra_inv n s" and pc: "rc_send s = SendSlot v tail" and idx: "idx = rc_sview s Tail mod n"
    and acc: "plain_access (Slot idx) (rc_mem s) (rc_sview s) = (race, m, V)"
  shows "\<not> race \<and> ra_inv n (s\<lparr>rc_mem := m, rc_sview := V, rc_buf := (rc_buf s)[idx := Some v],
     rc_bad := False, rc_send := SendStore v tail\<rparr>)"
    (is "_ \<and> ra_inv n ?s")
proof -
  note d = ra_invD [OF inv]
  let ?T = "rc_sview s Tail" and ?h = "rc_sview s Head"
  have tail: "tail = of_nat ?T" using inv pc by (auto simp: ra_inv_def ra_send_ok_def)
  note room = write_clock(1) [OF inv pc refl] and tk = write_clock(2,3) [OF inv pc refl] and wr = write_clock(4) [OF inv pc refl]
  note clock = write_clock(5) [OF inv pc idx]
  have race: "\<not> race" using acc write_clock(6) [OF inv pc idx] by (auto simp: plain_access_def Let_def)
  have m: "mm_hist m = mm_hist (rc_mem s)"
    "mm_clock m = (mm_clock (rc_mem s))(Slot idx := mm_clock (rc_mem s) (Slot idx) + 1)"
    and V: "V = (rc_sview s)(Slot idx := mm_clock (rc_mem s) (Slot idx) + 1)"
    using acc by (auto simp: plain_access_def Let_def)
  note ok = plain_access_ok [OF acc d(2,1,4)]
  have w: "written ?s = Suc ?T" "taken ?s = taken s" by (simp_all add: written_def taken_def V)
  have t: "tail_ok n ?T m" "head_ok n (rc_rview s Head) m"
    using d(5,6) by (simp_all add: tail_ok_def head_ok_def m)
  have "ra_mem_ok n ?s"
    using ok d(3,4,7) t by (auto simp: ra_mem_ok_def w) (simp_all add: V m uses_Suc idx wr)
  moreover have "2 * uses n (Suc ?T) j - 1 \<le> V (Slot j)" for j
  proof (cases "j = idx")
    case True
    then show ?thesis by (simp add: uses_Suc V clock idx [symmetric])
  next
    case False
    then have "uses n (Suc ?T) j = uses n (written s) j" by (simp add: uses_Suc wr idx)
    then show ?thesis using inv False by (simp add: ra_inv_def ra_views_ok_def V)
  qed
  moreover have "2 * uses n ?h j \<le> V (Slot j)" for j
  proof -
    have "2 * uses n ?h j \<le> rc_sview s (Slot j)" using inv by (simp add: ra_inv_def ra_views_ok_def)
    then show ?thesis using uses_write(2) [OF room tk] clock by (auto simp: V idx)
  qed
  ultimately have "ra_views_ok n ?s" "ra_mem_ok n ?s"
    using inv by (simp_all add: ra_inv_def ra_views_ok_def w) (simp_all add: V)
  moreover have len: "length (rc_buf s) = n" using inv by (simp add: ra_inv_def ra_data_ok_def)
  then have "ra_send_ok n ?s" using room d(8-11) tail idx by (simp add: ra_send_ok_def V)
  moreover have "ra_recv_ok ?s" using inv by (simp add: ra_inv_def ra_recv_ok_def cong: ra_recv.case_cong)
  moreover have "ra_data_ok n ?s"
  proof -
    have "(rc_buf s)[idx := Some v] ! (i mod n) = Some (rc_sent s ! i)" if "taken s \<le> i" "i < ?T" for i
    proof -
      have "i mod n \<noteq> idx" unfolding idx using that room tk by (intro slots_differ) auto
      then show ?thesis using inv that by (simp add: ra_inv_def ra_data_ok_def)
    qed
    moreover have "V Tail = ?T" by (simp add: V)
    ultimately show ?thesis using inv by (simp add: ra_inv_def ra_data_ok_def w)
  qed
  ultimately show ?thesis using race by (simp add: ra_inv_def)
qed


text \<open>Reading a slot: its value is there and its write is known.\<close>

lemma read_clock:
  assumes inv: "ra_inv n s" and pc: "rc_recv s = RecvSlot head" and idx: "idx = rc_rview s Head mod n"
  shows "rc_rview s Head < rc_rview s Tail" "taken s = rc_rview s Head"
    "uses n (rc_rview s Tail) idx = uses n (rc_rview s Head) idx + 1"
    "mm_clock (rc_mem s) (Slot idx) = 2 * uses n (rc_rview s Head) idx + 1"
    "mm_clock (rc_mem s) (Slot idx) \<le> rc_rview s (Slot idx)"
proof -
  note d = ra_invD [OF inv]
  let ?T = "rc_sview s Tail" and ?H = "rc_rview s Head" and ?t = "rc_rview s Tail"
  show some: "?H < ?t" using inv pc by (auto simp: ra_inv_def ra_recv_ok_def)
  show tk: "taken s = ?H" using pc by (simp add: taken_def)
  have wr: "?T \<le> written s" "written s \<le> ?H + n"
    using inv d(8-11) by (auto simp: ra_inv_def ra_send_ok_def written_def split: ra_send.splits)
  have uw: "uses n (written s) idx = uses n ?H idx + 1" unfolding idx by (rule uses_read) (use some wr d(10) in auto)
  show ut: "uses n ?t idx = uses n ?H idx + 1" unfolding idx by (rule uses_read) (use some d(8-11) in auto)
  show clock: "mm_clock (rc_mem s) (Slot idx) = 2 * uses n ?H idx + 1" using d(7) [of idx] uw tk by simp
  have "2 * uses n ?t idx - 1 \<le> rc_rview s (Slot idx)" using inv by (simp add: ra_inv_def ra_views_ok_def)
  then show "mm_clock (rc_mem s) (Slot idx) \<le> rc_rview s (Slot idx)" using ut clock by simp
qed

lemma ra_inv_read:
  assumes inv: "ra_inv n s" and pc: "rc_recv s = RecvSlot head" and idx: "idx = rc_rview s Head mod n"
    and acc: "plain_access (Slot idx) (rc_mem s) (rc_rview s) = (race, m, V)"
  shows "\<not> race \<and> rc_buf s ! idx = Some (rc_sent s ! rc_rview s Head) \<and>
    ra_inv n (s\<lparr>rc_mem := m, rc_rview := V, rc_buf := (rc_buf s)[idx := None],
      rc_bad := False, rc_recv := RecvStore head (rc_sent s ! rc_rview s Head)\<rparr>)"
    (is "_ \<and> _ \<and> ra_inv n ?s")
proof -
  note d = ra_invD [OF inv]
  let ?T = "rc_sview s Tail" and ?H = "rc_rview s Head" and ?t = "rc_rview s Tail"
  have head: "head = of_nat ?H" using inv pc by (auto simp: ra_inv_def ra_recv_ok_def)
  note some = read_clock(1) [OF inv pc refl] and tk = read_clock(2) [OF inv pc refl]
  note ut = read_clock(3) [OF inv pc idx] and clock = read_clock(4) [OF inv pc idx]
  have race: "\<not> race" using acc read_clock(5) [OF inv pc idx] by (auto simp: plain_access_def Let_def)
  have m: "mm_hist m = mm_hist (rc_mem s)"
    "mm_clock m = (mm_clock (rc_mem s))(Slot idx := mm_clock (rc_mem s) (Slot idx) + 1)"
    and V: "V = (rc_rview s)(Slot idx := mm_clock (rc_mem s) (Slot idx) + 1)"
    using acc by (auto simp: plain_access_def Let_def)
  have VH: "V Head = ?H" "V Tail = ?t" by (simp_all add: V)
  note ok = plain_access_ok [OF acc d(3,1,4)]
  have w: "written ?s = written s" "taken ?s = Suc ?H" by (simp_all add: written_def taken_def VH)
  have t: "tail_ok n ?T m" "head_ok n ?H m"
    using d(5,6) by (simp_all add: tail_ok_def head_ok_def m)
  have "ra_mem_ok n ?s"
    using ok d(2,4,7) t by (auto simp: ra_mem_ok_def w VH) (simp_all add: m uses_Suc idx tk)
  moreover have "2 * uses n (Suc ?H) j \<le> V (Slot j)" for j
  proof (cases "j = idx")
    case True
    then show ?thesis by (simp add: uses_Suc V clock idx [symmetric])
  next
    case False
    then have "uses n (Suc ?H) j = uses n (taken s) j" by (simp add: uses_Suc tk idx)
    then show ?thesis using inv False by (simp add: ra_inv_def ra_views_ok_def V)
  qed
  moreover have "2 * uses n ?t j - 1 \<le> V (Slot j)" for j
  proof -
    have "2 * uses n ?t j - 1 \<le> rc_rview s (Slot j)" using inv by (simp add: ra_inv_def ra_views_ok_def)
    then show ?thesis using ut clock by (auto simp: V)
  qed
  ultimately have "ra_views_ok n ?s" "ra_mem_ok n ?s"
    using inv by (simp_all add: ra_inv_def ra_views_ok_def w VH)
  moreover have "?H < ?T" using some d(10) by simp
  then have slot: "rc_buf s ! idx = Some (rc_sent s ! ?H)" using inv tk by (simp add: ra_inv_def ra_data_ok_def idx)
  moreover have "ra_send_ok n ?s"
  proof (cases "rc_send s")
    case (SendStore v tail)
    then have room: "?T < rc_sview s Head + n" "rc_buf s ! (?T mod n) = Some v"
      using inv by (auto simp: ra_inv_def ra_send_ok_def)
    then have "?H mod n \<noteq> ?T mod n" using some d(8-11) by (intro slots_differ) auto
    then show ?thesis using inv SendStore room by (simp add: ra_inv_def ra_send_ok_def idx)
  qed (use inv in \<open>simp_all add: ra_inv_def ra_send_ok_def\<close>)
  moreover have "ra_recv_ok ?s" using some head by (simp add: ra_recv_ok_def VH)
  moreover have "ra_data_ok n ?s"
  proof -
    have "(rc_buf s)[idx := None] ! (i mod n) = Some (rc_sent s ! i)" if "Suc ?H \<le> i" "i < ?T" for i
    proof -
      have "?H mod n \<noteq> i mod n" using that d(8-11) by (intro slots_differ) auto
      then show ?thesis using inv that tk by (simp add: ra_inv_def ra_data_ok_def idx)
    qed
    then show ?thesis using inv by (simp add: ra_inv_def ra_data_ok_def w VH)
  qed
  ultimately show ?thesis using race by (simp add: ra_inv_def)
qed

text \<open>Publishing a counter publishes what its side has done.\<close>

lemma ra_inv_publish:
  assumes inv: "ra_inv n s" and pc: "rc_send s = SendStore v tail"
    and st: "ra_store Release Tail (tail + 1) (rc_mem s) (rc_sview s) = (m, V)"
  shows "ra_inv n (s\<lparr>rc_mem := m, rc_sview := V, rc_sent := rc_sent s @ [v], rc_send := SendIdle\<rparr>)"
    (is "ra_inv n ?s")
proof -
  note d = ra_invD [OF inv]
  let ?T = "rc_sview s Tail"
  have p: "tail = of_nat ?T" "?T < rc_sview s Head + n" "rc_buf s ! (?T mod n) = Some v"
    using inv pc by (auto simp: ra_inv_def ra_send_ok_def)
  have len: "length (mm_hist (rc_mem s) Tail) = Suc ?T" using d(5) by (simp add: tail_ok_def)
  then have V: "V = (rc_sview s)(Tail := Suc ?T)"
    and m: "mm_hist m = (mm_hist (rc_mem s))(Tail := mm_hist (rc_mem s) Tail @ [\<lparr>ms_value = tail + 1, ms_view = V\<rparr>])"
      "mm_clock m = mm_clock (rc_mem s)"
    using st by (auto simp: ra_store_def Let_def)
  have VT: "V Tail = Suc ?T" by (simp add: V)
  have ne: "mm_hist (rc_mem s) Tail \<noteq> []" using d(5) by blast
  note ok = ra_store_ok [OF st d(2,1) ne]
  have wr: "written s = Suc ?T" using pc by (simp add: written_def)
  have w: "written ?s = Suc ?T" "taken ?s = taken s" by (simp_all add: written_def taken_def V)
  have vS: "2 * uses n (Suc ?T) j - 1 \<le> rc_sview s (Slot j)" for j
    using inv wr by (simp add: ra_inv_def ra_views_ok_def)
  have "tail_ok n (Suc ?T) m"
    using d(5) vS by (auto simp: tail_ok_def m nth_append len p(1) le_Suc_eq V)
  then have "ra_mem_ok n ?s"
    using ok d(3,4,6,7) by (simp add: ra_mem_ok_def w wr) (simp add: m V head_ok_def)
  moreover have "ra_views_ok n ?s"
    using inv p(2) vS by (simp add: ra_inv_def ra_views_ok_def w) (simp add: V)
  moreover have "ra_recv_ok ?s"
    using inv d(10) by (auto simp: ra_inv_def ra_recv_ok_def ra_data_ok_def nth_append split: ra_recv.splits)
  moreover have "ra_data_ok n ?s"
    using inv p(3) d(9,10) by (auto simp: ra_inv_def ra_data_ok_def w VT nth_append less_Suc_eq)
  ultimately show ?thesis by (simp add: ra_inv_def ra_send_ok_def)
qed

lemma ra_inv_release:
  assumes inv: "ra_inv n s" and pc: "rc_recv s = RecvStore head v"
    and st: "ra_store Release Head (head + 1) (rc_mem s) (rc_rview s) = (m, V)"
  shows "ra_inv n (s\<lparr>rc_mem := m, rc_rview := V, rc_got := rc_got s @ [v], rc_recv := RecvIdle\<rparr>)"
    (is "ra_inv n ?s")
proof -
  note d = ra_invD [OF inv]
  let ?H = "rc_rview s Head"
  have p: "head = of_nat ?H" "?H < rc_rview s Tail" "v = rc_sent s ! ?H"
    using inv pc by (auto simp: ra_inv_def ra_recv_ok_def)
  have len: "length (mm_hist (rc_mem s) Head) = Suc ?H" using d(6) by (simp add: head_ok_def)
  then have V: "V = (rc_rview s)(Head := Suc ?H)"
    and m: "mm_hist m = (mm_hist (rc_mem s))(Head := mm_hist (rc_mem s) Head @ [\<lparr>ms_value = head + 1, ms_view = V\<rparr>])"
      "mm_clock m = mm_clock (rc_mem s)"
    using st by (auto simp: ra_store_def Let_def)
  have VH: "V Head = Suc ?H" by (simp add: V)
  have ne: "mm_hist (rc_mem s) Head \<noteq> []" using d(6) by blast
  note ok = ra_store_ok [OF st d(3,1) ne]
  have tk: "taken s = Suc ?H" using pc by (simp add: taken_def)
  have w: "written ?s = written s" "taken ?s = Suc ?H" by (simp_all add: written_def taken_def V)
  have vS: "2 * uses n (Suc ?H) j \<le> rc_rview s (Slot j)" for j
    using inv tk by (simp add: ra_inv_def ra_views_ok_def)
  have "head_ok n (Suc ?H) m"
    using d(6) vS by (auto simp: head_ok_def m nth_append len p(1) le_Suc_eq V)
  then have "ra_mem_ok n ?s"
    using ok d(2,4,5,7) by (simp add: ra_mem_ok_def w tk) (simp add: m V tail_ok_def)
  moreover have "ra_views_ok n ?s"
    using inv p(2) vS by (simp add: ra_inv_def ra_views_ok_def w) (simp add: V)
  moreover have "ra_send_ok n ?s" using inv by (simp add: ra_inv_def ra_send_ok_def cong: ra_send.case_cong)
  moreover have "ra_data_ok n ?s"
    using inv p d(9,10) unfolding ra_data_ok_def w
    by (simp add: ra_inv_def ra_data_ok_def tk VH take_Suc_conv_app_nth)
  ultimately show ?thesis by (simp add: ra_inv_def ra_recv_ok_def)
qed


text \<open>The sends that have been begun: the index of a slot is right as long as that many values fit.\<close>

definition begun :: "('a, 'u) ra_chan \<Rightarrow> nat" where
  "begun s = length (rc_sent s) + (if rc_send s = SendIdle then 0 else 1)"

lemma ra_inv_step_send:
  fixes N :: "'w::len word"
  assumes inv: "ra_inv (unat N) s" and fit: "fits N (begun s)"
  shows "ra_inv (unat N) (ra_step_send N n s)"
proof (cases "rc_send s")
  case (SendHead v)
  with ra_inv_load_head [OF inv] show ?thesis by (simp add: ra_step_send_def split: prod.split)
next
  case (SendTail v head)
  with ra_inv_check_send [OF inv] show ?thesis by (simp add: ra_step_send_def split: prod.split)
next
  case (SendSlot v tail)
  then have "tail = of_nat (rc_sview s Tail)" and "begun s = Suc (rc_sview s Tail)"
    using inv by (simp_all add: ra_inv_def ra_send_ok_def ra_data_ok_def begun_def)
  then have idx: "unat (tail mod N) = rc_sview s Tail mod unat N"
    using slot_of_mod [of N "rc_sview s Tail"] fit by (simp add: slot_of_def)
  obtain race m V where acc: "plain_access (Slot (unat (tail mod N))) (rc_mem s) (rc_sview s) = (race, m, V)"
    by (metis surj_pair)
  have "\<not> rc_bad s" using inv by (simp add: ra_inv_def ra_data_ok_def)
  with SendSlot ra_inv_write [OF inv SendSlot idx acc] acc show ?thesis
    by (simp add: ra_step_send_def Let_def)
next
  case (SendStore v tail)
  with ra_inv_publish [OF inv] show ?thesis by (simp add: ra_step_send_def split: prod.split)
qed (use inv in \<open>simp add: ra_step_send_def\<close>)

lemma ra_inv_step_recv:
  fixes N :: "'w::len word"
  assumes inv: "ra_inv (unat N) s" and fit: "fits N (begun s)"
  shows "ra_inv (unat N) (ra_step_recv N n s)"
proof (cases "rc_recv s")
  case RecvTail
  with ra_inv_load_tail [OF inv] show ?thesis by (simp add: ra_step_recv_def split: prod.split)
next
  case (RecvHead tail)
  with ra_inv_check_recv [OF inv] show ?thesis by (simp add: ra_step_recv_def split: prod.split)
next
  case (RecvSlot head)
  then have "head = of_nat (rc_rview s Head)" and "Suc (rc_rview s Head) \<le> begun s"
    using inv ra_invD(10) [OF inv] by (auto simp: ra_inv_def ra_recv_ok_def ra_data_ok_def begun_def)
  then have idx: "unat (head mod N) = rc_rview s Head mod unat N"
    using slot_of_mod [of N "rc_rview s Head"] fits_mono [OF fit] by (simp add: slot_of_def)
  obtain race m V where acc: "plain_access (Slot (unat (head mod N))) (rc_mem s) (rc_rview s) = (race, m, V)"
    by (metis surj_pair)
  have "\<not> rc_bad s" using inv by (simp add: ra_inv_def ra_data_ok_def)
  with RecvSlot ra_inv_read [OF inv RecvSlot idx acc] acc show ?thesis
    by (simp add: ra_step_recv_def Let_def)
next
  case (RecvStore head v)
  with ra_inv_release [OF inv] show ?thesis by (simp add: ra_step_recv_def split: prod.split)
qed (use inv in \<open>simp add: ra_step_recv_def\<close>)

lemma ra_inv_call_send: "ra_inv n s \<Longrightarrow> rc_send s = SendIdle \<Longrightarrow> ra_inv n (s\<lparr>rc_send := SendHead v\<rparr>)"
  by (simp add: ra_inv_def ra_parts written_def taken_def cong: ra_recv.case_cong)

lemma ra_inv_call_recv: "ra_inv n s \<Longrightarrow> rc_recv s = RecvIdle \<Longrightarrow> ra_inv n (s\<lparr>rc_recv := RecvTail\<rparr>)"
  by (simp add: ra_inv_def ra_parts written_def taken_def cong: ra_send.case_cong)

lemma ra_inv_do:
  fixes N :: "'w::len word"
  assumes "ra_inv (unat N) s" and "fits N (begun s)"
  shows "ra_inv (unat N) (ra_do N act s)"
  using assms by (cases act) (auto intro: ra_inv_call_send ra_inv_call_recv ra_inv_step_send ra_inv_step_recv)

fun send_call :: "'a ra_act \<Rightarrow> bool" where
  "send_call (RaCallSend v) = True"
| "send_call act = False"

definition send_calls :: "'a ra_act list \<Rightarrow> nat" where
  "send_calls acts = length (filter send_call acts)"

lemma begun_do: "begun (ra_do N act s) \<le> begun s + of_bool (send_call act)"
proof (cases act)
  case (RaSend n)
  then show ?thesis
    by (auto simp: begun_def ra_step_send_def Let_def split: ra_send.split prod.split)
next
  case (RaRecv n)
  then show ?thesis
    by (auto simp: begun_def ra_step_recv_def Let_def split: ra_recv.split prod.split option.split)
qed (auto simp: begun_def)

lemma ra_inv_run:
  fixes N :: "'w::len word"
  shows "ra_inv (unat N) s \<Longrightarrow> fits N (begun s + send_calls acts) \<Longrightarrow> ra_inv (unat N) (ra_run N acts s)"
proof (induction acts arbitrary: s)
  case (Cons act acts)
  have "ra_inv (unat N) (ra_do N act s)"
    using Cons.prems by (intro ra_inv_do) (auto elim: fits_mono)
  moreover have "begun (ra_do N act s) + send_calls acts \<le> begun s + send_calls (act # acts)"
    using begun_do [of N act s] by (cases "send_call act") (simp_all add: send_calls_def)
  ultimately have "ra_inv (unat N) (ra_run N acts (ra_do N act s))"
    using Cons.IH fits_mono [OF Cons.prems(2)] by blast
  then show ?case by (simp add: ra_run_def)
qed (simp add: ra_run_def)

lemma ra_inv_reached: "fits N (send_calls acts) \<Longrightarrow> ra_inv (unat N) (ra_run N acts (ra_chan_new N))"
  by (rule ra_inv_run [OF ra_inv_new]) (simp add: begun_def ra_chan_new_def)

text \<open>\<open>len\<close> on the sender's or the receiver's own thread.\<close>

lemma ra_len_owner:
  fixes N :: "'w::len word" and s :: "('a, 'w word) ra_chan"
  assumes inv: "ra_inv (unat N) s" and own: "V = rc_sview s \<or> V = rc_rview s"
    and t: "ra_len_tail n s V = (tail, V')"
  shows "unat (ra_len_head k tail s V') \<le> unat N"
proof -
  note d = ra_invD [OF inv]
  have ne: "mm_hist (rc_mem s) Head \<noteq> []" "mm_hist (rc_mem s) Tail \<noteq> []" using d(5,6) by blast+
  have okV: "view_ok (rc_mem s) V" using own d(2,3) by blast
  have bounds: "rc_sview s Head \<le> V Head" "V Head \<le> rc_rview s Head" "rc_rview s Tail \<le> V Tail"
    using own d(8,10) by auto
  note ld = t [unfolded ra_len_tail_def]
  from ra_load_spec [OF ld okV ne(2)] obtain i where i: "V Tail \<le> i" "i < length (mm_hist (rc_mem s) Tail)"
    and tail: "tail = ms_value (mm_hist (rc_mem s) Tail ! i)"
    and V': "V' = view_join (V(Tail := i)) (ms_view (mm_hist (rc_mem s) Tail ! i))" by auto
  have iT: "i \<le> rc_sview s Tail" using i(2) d(5) by (simp add: tail_ok_def)
  have tail: "tail = of_nat i" using tail iT d(5) by (simp add: tail_ok_def)
  have okV': "view_ok (rc_mem s) V'" by (rule view_ok_load [OF ld okV d(1) ne(2)])
  obtain head V'' where hd: "ra_load Acquire k Head (rc_mem s) V' = (head, V'')" by (metis surj_pair)
  from ra_load_spec [OF hd okV' ne(1)] obtain h where h: "V' Head \<le> h" "h < length (mm_hist (rc_mem s) Head)"
    and head: "head = ms_value (mm_hist (rc_mem s) Head ! h)" by metis
  have hH: "h \<le> rc_rview s Head" using h(2) d(6) by (simp add: head_ok_def)
  have head: "head = of_nat h" using head hH d(6) by (simp add: head_ok_def)
  have "V Head \<le> h" using h(1) by (simp add: V')
  then have "unat (tail - head) = i - h"
    unfolding tail head using hH iT bounds i(1) d(8-11) by (intro counters_differ(1) [of _ _ N]) linarith+
  then show ?thesis using hd \<open>V Head \<le> h\<close> iT bounds d(8-11) by (simp add: ra_len_head_def)
qed

section \<open>Properties\<close>

text \<open>
  C5: the orderings of \<open>channel.rs\<close> suffice: on two threads, with \<open>Acquire\<close> loads of the other
  side's counter that may return old values, \<open>Relaxed\<close> loads of the own one and \<open>Release\<close> stores, there
  is no data race on a slot and no slot is read without a value, and the values received are, in order, a prefix of
  the ones published, with at most \<open>N\<close> between them. The capacity has to divide the range of the counters, \<open>2 ^ w\<close>, or
  \<open>try_send\<close> be called at most \<open>2 ^ w\<close> times: the index of a slot is a counter modulo the capacity, and
  \<open>channel_wrap_loses_value\<close> shows what the wrap does otherwise.
\<close>

theorem channel_orderings_suffice:
  fixes N :: "'w::len word"
  assumes "unat N dvd 2 ^ LENGTH('w) \<or> send_calls acts \<le> 2 ^ LENGTH('w)"
  shows "let s = ra_run N acts (ra_chan_new N)
     in \<not> rc_bad s \<and> rc_got s = take (length (rc_got s)) (rc_sent s) \<and>
        length (rc_sent s) \<le> length (rc_got s) + unat N"
proof -
  have inv: "ra_inv (unat N) (ra_run N acts (ra_chan_new N))"
    using assms by (intro ra_inv_reached) (simp add: fits_def)
  let ?s = "ra_run N acts (ra_chan_new N)"
  have "rc_sview ?s Tail \<le> rc_rview ?s Head + unat N" using ra_invD(8,11) [OF inv] by linarith
  with inv ra_invD(9,10) [OF inv] show ?thesis by (auto simp: ra_inv_def ra_data_ok_def Let_def)
qed


text \<open>One value goes through a channel of three slots; the producer then reads an old \<open>head\<close>.\<close>

definition one_value :: "nat ra_act list" where
  "one_value =
     [RaCallSend 5, RaSend 0, RaSend 0, RaSend 0, RaSend 0,
      RaCallRecv, RaRecv 1, RaRecv 0, RaRecv 0, RaRecv 0]"

lemmas ra_eval = ra_run_def one_value_def ra_chan_new_def mem_new_def ra_step_send_def ra_step_recv_def ra_load_def
  ra_store_def plain_access_def read_index_def Let_def word_le_nat_alt

lemma one_value_run:
  "let s = ra_run (3 :: 8 word) (one_value @ [RaCallSend 6, RaSend 0, RaSend 0, RaSend 0, RaSend 0]) (ra_chan_new 3)
   in rc_sent s = [5, 6] \<and> rc_got s = [5] \<and> rc_sview s Head = 0"
  by (simp add: ra_eval)

theorem channel_orderings_suffice_witness:
  "let s = ra_run (3 :: 8 word) (one_value @ [RaCallSend 6, RaSend 0, RaSend 0, RaSend 0, RaSend 0]) (ra_chan_new 3)
   in \<not> rc_bad s \<and> rc_got s = take 1 (rc_sent s) \<and> rc_sent s = [5, 6]"
proof -
  let ?acts = "one_value @ [RaCallSend 6, RaSend 0, RaSend 0, RaSend 0, RaSend 0]"
  have "unat (3 :: 8 word) dvd 2 ^ LENGTH(8) \<or> send_calls ?acts \<le> 2 ^ LENGTH(8)"
    by (simp add: send_calls_def one_value_def)
  from channel_orderings_suffice [OF this] one_value_run show ?thesis by (simp add: Let_def)
qed

text \<open>
  \<open>len\<close> called by the sender or by the receiver never exceeds the capacity, whatever the other side does
  between its two loads and however old the values are that they return.
\<close>

theorem channel_len_owner:
  fixes N :: "'w::len word" and s :: "('a, 'w word) ra_chan"
  assumes "unat N dvd 2 ^ LENGTH('w) \<or> send_calls acts \<le> 2 ^ LENGTH('w)" and "s = ra_run N acts (ra_chan_new N)"
    and "V = rc_sview s \<or> V = rc_rview s" and "ra_len_tail n s V = (tail, V')"
  shows "unat (ra_len_head k tail s V') \<le> unat N"
  using ra_len_owner [OF _ assms(3,4)] ra_inv_reached [of N acts] assms(1,2) by (simp add: fits_def)

theorem channel_len_owner_witness:
  "let s = ra_run (2 :: 8 word) one_value (ra_chan_new 2); (tail, V) = ra_len_tail 0 s (rc_sview s)
   in unat (ra_len_head 0 tail s V) \<le> 2"
proof -
  let ?s = "ra_run (2 :: 8 word) one_value (ra_chan_new 2)"
  obtain tail V where l: "ra_len_tail 0 ?s (rc_sview ?s) = (tail, V)" by (metis surj_pair)
  have "unat (ra_len_head 0 tail ?s V) \<le> unat (2 :: 8 word)"
    by (rule channel_len_owner [OF _ refl _ l]) simp_all
  with l show ?thesis by (simp add: Let_def)
qed

section \<open>\<open>len\<close> on a third thread\<close>

text \<open>What one value does on its way through a channel that holds none, with loads that return the newest value.\<close>

lemma send_look:
  assumes inv: "ra_inv n s" and pc: "rc_send s = SendHead v" and k: "k = rc_rview s Head"
  shows "rc_send (ra_step_send N k s) = SendTail v (of_nat k) \<and> rc_sview (ra_step_send N k s) Head = k \<and>
    rc_sview (ra_step_send N k s) Tail = rc_sview s Tail"
proof -
  note d = ra_invD [OF inv]
  have len: "length (mm_hist (rc_mem s) Head) = Suc k" using d(6) k by (simp add: head_ok_def)
  then have i: "read_index k Head (rc_mem s) (rc_sview s) = k" using d(8) k by (simp add: read_index_def)
  have m: "ms_value (mm_hist (rc_mem s) Head ! k) = of_nat k" "ms_view (mm_hist (rc_mem s) Head ! k) Head \<le> k"
    using d(6) k by (auto simp: head_ok_def)
  obtain head V where ld: "ra_load Acquire k Head (rc_mem s) (rc_sview s) = (head, V)" by (metis surj_pair)
  then have V: "head = of_nat k" "V Head = k" using m by (auto simp: ra_load_def Let_def i)
  have "ra_inv n (s\<lparr>rc_sview := V, rc_send := SendTail v head\<rparr>)" by (rule ra_inv_load_head [OF inv pc ld])
  then have "length (mm_hist (rc_mem s) Tail) = Suc (V Tail)"
    by (auto dest!: ra_invD(5) simp: tail_ok_def)
  with d(5) have "V Tail = rc_sview s Tail" by (simp add: tail_ok_def)
  with V ld pc show ?thesis by (simp add: ra_step_send_def)
qed

lemma recv_look:
  assumes inv: "ra_inv n s" and pc: "rc_recv s = RecvTail" and k: "k = rc_sview s Tail"
  shows "rc_recv (ra_step_recv N k s) = RecvHead (of_nat k) \<and> rc_rview (ra_step_recv N k s) Tail = k \<and>
    rc_rview (ra_step_recv N k s) Head = rc_rview s Head"
proof -
  note d = ra_invD [OF inv]
  have len: "length (mm_hist (rc_mem s) Tail) = Suc k" using d(5) k by (simp add: tail_ok_def)
  then have i: "read_index k Tail (rc_mem s) (rc_rview s) = k" using d(10) k by (simp add: read_index_def)
  have m: "ms_value (mm_hist (rc_mem s) Tail ! k) = of_nat k" "ms_view (mm_hist (rc_mem s) Tail ! k) Tail \<le> k"
    using d(5) k by (auto simp: tail_ok_def)
  obtain tail V where ld: "ra_load Acquire k Tail (rc_mem s) (rc_rview s) = (tail, V)" by (metis surj_pair)
  then have V: "tail = of_nat k" "V Tail = k" using m by (auto simp: ra_load_def Let_def i)
  have "ra_inv n (s\<lparr>rc_rview := V, rc_recv := RecvHead tail\<rparr>)" by (rule ra_inv_load_tail [OF inv pc ld])
  then have "length (mm_hist (rc_mem s) Head) = Suc (V Head)"
    by (auto dest!: ra_invD(6) simp: head_ok_def)
  with d(6) have "V Head = rc_rview s Head" by (simp add: head_ok_def)
  with V ld pc show ?thesis by (simp add: ra_step_recv_def)
qed

lemma send_check:
  fixes N :: "'w::len word"
  assumes inv: "ra_inv (unat N) s" and pc: "rc_send s = SendTail v head" and eq: "rc_sview s Head = rc_sview s Tail" and "0 < N"
  shows "rc_send (ra_step_send N k s) = SendSlot v (of_nat (rc_sview s Tail)) \<and> rc_sview (ra_step_send N k s) = rc_sview s"
proof -
  note d = ra_invD [OF inv]
  have len: "length (mm_hist (rc_mem s) Tail) = Suc (rc_sview s Tail)" using d(5) by (simp add: tail_ok_def)
  obtain tail V where ld: "ra_load Relaxed k Tail (rc_mem s) (rc_sview s) = (tail, V)" by (metis surj_pair)
  from ra_load_own [OF ld d(2) len] have "V = rc_sview s" "tail = of_nat (rc_sview s Tail)"
    using d(5) by (auto simp: tail_ok_def)
  moreover have "head = of_nat (rc_sview s Tail)" using inv pc eq by (simp add: ra_inv_def ra_send_ok_def)
  moreover have "\<not> N \<le> 0" using assms(4) by (simp only: not_le)
  ultimately show ?thesis using ld pc by (simp add: ra_step_send_def)
qed

lemma recv_check:
  fixes N :: "'w::len word"
  assumes inv: "ra_inv (unat N) s" and pc: "rc_recv s = RecvHead tail" and less: "rc_rview s Head < rc_rview s Tail"
  shows "rc_recv (ra_step_recv N k s) = RecvSlot (of_nat (rc_rview s Head)) \<and> rc_rview (ra_step_recv N k s) = rc_rview s"
proof -
  note d = ra_invD [OF inv]
  have len: "length (mm_hist (rc_mem s) Head) = Suc (rc_rview s Head)" using d(6) by (simp add: head_ok_def)
  obtain head V where ld: "ra_load Relaxed k Head (rc_mem s) (rc_rview s) = (head, V)" by (metis surj_pair)
  from ra_load_own [OF ld d(3) len] have h: "V = rc_rview s" "head = of_nat (rc_rview s Head)"
    using d(6) by (auto simp: head_ok_def)
  moreover have t: "tail = of_nat (rc_rview s Tail)" using inv pc by (simp add: ra_inv_def ra_recv_ok_def)
  have "head \<noteq> tail"
    using less d(8-11) counters_differ(2) [of "rc_rview s Head" "rc_rview s Tail" N] unfolding h(2) t by linarith
  ultimately show ?thesis using ld pc by (simp add: ra_step_recv_def)
qed

lemma send_finish:
  "rc_send s = SendSlot v tail \<Longrightarrow>
     rc_send (ra_step_send N k s) = SendStore v tail \<and> rc_sview (ra_step_send N k s) Tail = rc_sview s Tail"
  "rc_send s = SendStore v tail \<Longrightarrow>
     rc_send (ra_step_send N k s) = SendIdle \<and> rc_sent (ra_step_send N k s) = rc_sent s @ [v]"
  by (simp_all add: ra_step_send_def plain_access_def ra_store_def Let_def)

lemma ra_step_send_keeps:
  "rc_recv (ra_step_send N k s) = rc_recv s" "rc_rview (ra_step_send N k s) = rc_rview s" "rc_got (ra_step_send N k s) = rc_got s"
  "\<not> (\<exists>v tail. rc_send s = SendStore v tail) \<Longrightarrow> rc_sent (ra_step_send N k s) = rc_sent s"
  by (auto simp: ra_step_send_def Let_def split: ra_send.split prod.split)

lemma ra_step_recv_keeps:
  "rc_send (ra_step_recv N k s) = rc_send s" "rc_sview (ra_step_recv N k s) = rc_sview s" "rc_sent (ra_step_recv N k s) = rc_sent s"
  "\<not> (\<exists>h v. rc_recv s = RecvStore h v) \<Longrightarrow> rc_got (ra_step_recv N k s) = rc_got s"
  by (auto simp: ra_step_recv_def Let_def split: ra_recv.split prod.split option.split)

lemma recv_finish:
  assumes inv: "ra_inv (unat N) s" and fit: "fits N (begun s)"
  shows "rc_recv s = RecvSlot head \<Longrightarrow>
      (\<exists>v. rc_recv (ra_step_recv N k s) = RecvStore head v) \<and> rc_rview (ra_step_recv N k s) Head = rc_rview s Head \<and>
      rc_got (ra_step_recv N k s) = rc_got s"
    and "rc_recv s = RecvStore head v \<Longrightarrow>
      rc_recv (ra_step_recv N k s) = RecvIdle \<and> length (rc_got (ra_step_recv N k s)) = Suc (length (rc_got s))"
proof -
  assume pc: "rc_recv s = RecvSlot head"
  then have "head = of_nat (rc_rview s Head)" and "Suc (rc_rview s Head) \<le> begun s"
    using inv ra_invD(10) [OF inv] by (auto simp: ra_inv_def ra_recv_ok_def ra_data_ok_def begun_def)
  then have idx: "unat (head mod N) = rc_rview s Head mod unat N"
    using slot_of_mod [of N "rc_rview s Head"] fits_mono [OF fit] by (simp add: slot_of_def)
  obtain race m V where acc: "plain_access (Slot (unat (head mod N))) (rc_mem s) (rc_rview s) = (race, m, V)"
    by (metis surj_pair)
  then have "V Head = rc_rview s Head" by (auto simp: plain_access_def Let_def)
  with pc ra_inv_read [OF inv pc idx acc] acc
  show "(\<exists>v. rc_recv (ra_step_recv N k s) = RecvStore head v) \<and> rc_rview (ra_step_recv N k s) Head = rc_rview s Head \<and>
      rc_got (ra_step_recv N k s) = rc_got s"
    by (simp add: ra_step_recv_def Let_def)
next
  assume "rc_recv s = RecvStore head v"
  then show "rc_recv (ra_step_recv N k s) = RecvIdle \<and> length (rc_got (ra_step_recv N k s)) = Suc (length (rc_got s))"
    by (simp add: ra_step_recv_def ra_store_def Let_def)
qed

definition one_pass :: "'a \<Rightarrow> nat \<Rightarrow> 'a ra_act list" where
  "one_pass v k =
     [RaCallSend v, RaSend k, RaSend 0, RaSend 0, RaSend 0, RaCallRecv, RaRecv (Suc k), RaRecv 0, RaRecv 0, RaRecv 0]"

text \<open>Both sides are idle after \<open>vs\<close> has gone through, and the channel is empty.\<close>

definition drained :: "'w::len word \<Rightarrow> 'a list \<Rightarrow> ('a, 'w word) ra_chan \<Rightarrow> bool" where
  "drained N vs s \<longleftrightarrow>
     ra_inv (unat N) s \<and> rc_send s = SendIdle \<and> rc_recv s = RecvIdle \<and> rc_sent s = vs \<and> rc_got s = vs"

lemma drained_views:
  assumes "drained N vs s"
  shows "rc_sview s Tail = length vs" and "rc_rview s Head = length vs"
proof -
  have inv: "ra_inv (unat N) s" and vs: "rc_sent s = vs" "rc_got s = vs" using assms by (simp_all add: drained_def)
  show T: "rc_sview s Tail = length vs" using inv vs by (simp add: ra_inv_def ra_data_ok_def)
  have "length (rc_got s) = length (take (rc_rview s Head) (rc_sent s))" using inv by (simp add: ra_inv_def ra_data_ok_def)
  then show "rc_rview s Head = length vs" using ra_invD(9,10) [OF inv] T vs by simp
qed

text \<open>The sender's half of the way, then the receiver's.\<close>

definition half_way :: "'w::len word \<Rightarrow> 'a list \<Rightarrow> 'a \<Rightarrow> ('a, 'w word) ra_chan \<Rightarrow> bool" where
  "half_way N vs v s \<longleftrightarrow>
     ra_inv (unat N) s \<and> rc_send s = SendIdle \<and> rc_recv s = RecvIdle \<and> rc_sent s = vs @ [v] \<and> rc_got s = vs \<and>
     rc_rview s Head = length vs"

lemma send_half:
  fixes N :: "'w::len word"
  assumes d: "drained N vs s" and pos: "0 < N" and f: "fits N (Suc (length vs))"
  shows "half_way N vs v (ra_run N [RaCallSend v, RaSend (length vs), RaSend 0, RaSend 0, RaSend 0] s)"
proof -
  let ?k = "length vs"
  note step = ra_inv_step_send and views = drained_views [OF d]
  have inv: "ra_inv (unat N) s" and pc: "rc_send s = SendIdle" "rc_recv s = RecvIdle" and vs: "rc_sent s = vs" "rc_got s = vs"
    using d by (simp_all add: drained_def)
  have fit: "fits N (begun u)" if "rc_sent u = vs" for u :: "('a, 'w word) ra_chan"
    by (rule fits_mono [OF f]) (simp add: begun_def that)
  define s1 where "s1 = ra_do N (RaCallSend v) s"
  then have s1: "ra_inv (unat N) s1" "rc_send s1 = SendHead v" "rc_sview s1 = rc_sview s" "rc_rview s1 = rc_rview s"
      "rc_sent s1 = vs" "rc_recv s1 = RecvIdle" "rc_got s1 = vs"
    using ra_inv_call_send [OF inv pc(1)] pc vs by simp_all
  define s2 where "s2 = ra_step_send N ?k s1"
  then have s2: "ra_inv (unat N) s2" "rc_send s2 = SendTail v (of_nat ?k)" "rc_sview s2 Head = ?k" "rc_sview s2 Tail = ?k"
      "rc_rview s2 Head = ?k" "rc_sent s2 = vs" "rc_recv s2 = RecvIdle" "rc_got s2 = vs"
    using step [OF s1(1) fit] send_look [OF s1(1,2), of ?k N] s1 views by (simp_all add: ra_step_send_keeps)
  define s3 where "s3 = ra_step_send N 0 s2"
  then have s3: "ra_inv (unat N) s3" "rc_send s3 = SendSlot v (of_nat ?k)"
      "rc_rview s3 Head = ?k" "rc_sent s3 = vs" "rc_recv s3 = RecvIdle" "rc_got s3 = vs"
    using step [OF s2(1) fit] send_check [OF s2(1,2) _ pos, of 0] s2 by (simp_all add: ra_step_send_keeps)
  define s4 where "s4 = ra_step_send N 0 s3"
  then have s4: "ra_inv (unat N) s4" "rc_send s4 = SendStore v (of_nat ?k)"
      "rc_rview s4 Head = ?k" "rc_sent s4 = vs" "rc_recv s4 = RecvIdle" "rc_got s4 = vs"
    using step [OF s3(1) fit] send_finish(1) [OF s3(2), of N 0] s3 by (simp_all add: ra_step_send_keeps)
  have "half_way N vs v (ra_step_send N 0 s4)"
    using step [OF s4(1) fit] send_finish(2) [OF s4(2), of N 0] s4 by (simp add: half_way_def ra_step_send_keeps)
  then show ?thesis by (simp add: ra_run_def s4_def s3_def s2_def s1_def)
qed

lemma recv_half:
  fixes N :: "'w::len word"
  assumes h: "half_way N vs v s" and f: "fits N (Suc (length vs))"
  shows "drained N (vs @ [v]) (ra_run N [RaCallRecv, RaRecv (Suc (length vs)), RaRecv 0, RaRecv 0, RaRecv 0] s)"
proof -
  let ?k = "length vs"
  note step = ra_inv_step_recv
  have inv: "ra_inv (unat N) s" and pc: "rc_send s = SendIdle" "rc_recv s = RecvIdle"
    and vs: "rc_sent s = vs @ [v]" "rc_got s = vs" "rc_rview s Head = ?k"
    using h by (simp_all add: half_way_def)
  have T: "rc_sview s Tail = Suc ?k" using inv vs by (simp add: ra_inv_def ra_data_ok_def)
  have fit: "fits N (begun u)" if "rc_sent u = vs @ [v]" "rc_send u = SendIdle" for u :: "('a, 'w word) ra_chan"
    by (rule fits_mono [OF f]) (simp add: begun_def that)
  define s6 where "s6 = ra_do N RaCallRecv s"
  then have s6: "ra_inv (unat N) s6" "rc_recv s6 = RecvTail" "rc_sview s6 Tail = Suc ?k" "rc_rview s6 Head = ?k"
      "rc_sent s6 = vs @ [v]" "rc_send s6 = SendIdle" "rc_got s6 = vs"
    using ra_inv_call_recv [OF inv pc(2)] pc vs T by simp_all
  define s7 where "s7 = ra_step_recv N (Suc ?k) s6"
  then have s7: "ra_inv (unat N) s7" "rc_recv s7 = RecvHead (of_nat (Suc ?k))" "rc_rview s7 Head = ?k" "rc_rview s7 Tail = Suc ?k"
      "rc_sent s7 = vs @ [v]" "rc_send s7 = SendIdle" "rc_got s7 = vs"
    using step [OF s6(1) fit] recv_look [OF s6(1,2), of "Suc ?k" N] s6 by (simp_all add: ra_step_recv_keeps)
  define s8 where "s8 = ra_step_recv N 0 s7"
  then have s8: "ra_inv (unat N) s8" "rc_recv s8 = RecvSlot (of_nat ?k)" "rc_rview s8 Head = ?k"
      "rc_sent s8 = vs @ [v]" "rc_send s8 = SendIdle" "rc_got s8 = vs"
    using step [OF s7(1) fit] recv_check [OF s7(1,2), of 0] s7 by (simp_all add: ra_step_recv_keeps)
  define s9 where "s9 = ra_step_recv N 0 s8"
  obtain u where s9: "ra_inv (unat N) s9" "rc_recv s9 = RecvStore (of_nat ?k) u" "rc_sent s9 = vs @ [v]" "rc_send s9 = SendIdle"
      "rc_got s9 = vs"
    using step [OF s8(1) fit] recv_finish(1) [OF s8(1) fit s8(2), of 0] s8 by (auto simp: s9_def ra_step_recv_keeps)
  define s10 where "s10 = ra_step_recv N 0 s9"
  have s10: "ra_inv (unat N) s10" "rc_recv s10 = RecvIdle" "rc_sent s10 = vs @ [v]" "rc_send s10 = SendIdle"
      "length (rc_got s10) = Suc ?k"
    using step [OF s9(1) fit] recv_finish(2) [OF s9(1) fit s9(2), of 0] s9 by (simp_all add: s10_def ra_step_recv_keeps)
  have got: "rc_got s10 = take (rc_rview s10 Head) (vs @ [v])" using s10 by (simp add: ra_inv_def ra_data_ok_def)
  have "length (vs @ [v]) \<le> rc_rview s10 Head" using s10(5) unfolding got by simp
  with got have "rc_got s10 = vs @ [v]" by (simp only: take_all)
  then have "drained N (vs @ [v]) s10" using s10 by (simp add: drained_def)
  then show ?thesis by (simp add: ra_run_def s10_def s9_def s8_def s7_def s6_def)
qed

lemma drained_one_pass:
  assumes "drained N vs s" and "0 < N" and "fits N (Suc (length vs))"
  shows "drained N (vs @ [v]) (ra_run N (one_pass v (length vs)) s)"
  using recv_half [OF send_half [OF assms] assms(3)] by (simp add: one_pass_def ra_run_def)

lemma drained_reachable:
  fixes N :: "'w::len word"
  assumes "0 < N" and "length vs \<le> 2 ^ LENGTH('w)"
  shows "\<exists>acts. drained N vs (ra_run N acts (ra_chan_new N))"
  using assms(2)
proof (induction vs rule: rev_induct)
  case Nil
  show ?case
    by (rule exI [of _ "[]"]) (simp add: drained_def ra_inv_new ra_run_def, simp add: ra_chan_new_def)
next
  case (snoc v vs)
  then obtain acts where "drained N vs (ra_run N acts (ra_chan_new N))" by auto
  from drained_one_pass [OF this assms(1), of v] snoc.prems show ?case
    by (intro exI [of _ "acts @ one_pass v (length vs)"]) (simp add: fits_def ra_run_def)
qed

lemma len_of_new: "ra_len_tail 0 (ra_chan_new N) (\<lambda>_. 0) = (0, \<lambda>_. 0)"
  by (auto simp: ra_len_tail_def ra_load_def read_index_def ra_chan_new_def mem_new_def Let_def view_join_def)

text \<open>
  C37: \<open>len\<close> on any other thread can return any number whatever, for every capacity: it loads \<open>tail\<close> before \<open>head\<close>, so
  when values are sent and received in between, the difference wraps. For every \<open>x\<close> and any \<open>2 ^ w - x\<close> values there
  is a run in which these values, one after the other, go through a channel that was empty when \<open>tail\<close> was loaded and is
  empty again when \<open>head\<close> is, and \<open>len\<close> returns \<open>x\<close>; so \<open>is_full\<close> can hold and \<open>is_empty\<close> fail for an empty channel.
\<close>

theorem channel_len_overshoots:
  fixes N x :: "'w::len word"
  assumes "0 < N" and "length vs = unat (- x)"
  shows "\<exists>acts. let (tail, V) = ra_len_tail 0 (ra_chan_new N) (\<lambda>_. 0); s = ra_run N acts (ra_chan_new N)
     in rc_sent s = vs \<and> rc_got s = vs \<and> rc_send s = SendIdle \<and> rc_recv s = RecvIdle \<and>
        ra_len_head (length vs) tail s V = x"
proof -
  have "length vs \<le> 2 ^ LENGTH('w)" unfolding assms(2) by (rule less_imp_le [OF unsigned_less])
  from drained_reachable [OF assms(1) this] obtain acts where d: "drained N vs (ra_run N acts (ra_chan_new N))" ..
  let ?s = "ra_run N acts (ra_chan_new N)"
  have h: "head_ok (unat N) (length vs) (rc_mem ?s)"
    using d drained_views(2) [OF d] by (auto simp: drained_def dest: ra_invD(6))
  then have "length (mm_hist (rc_mem ?s) Head) = Suc (length vs)"
    and "ms_value (mm_hist (rc_mem ?s) Head ! length vs) = of_nat (length vs)"
    by (auto simp: head_ok_def)
  then have "ra_len_head (length vs) 0 ?s (\<lambda>_. 0) = - of_nat (length vs)"
    by (simp add: ra_len_head_def ra_load_def read_index_def Let_def)
  also have "\<dots> = x" by (simp add: assms(2))
  finally have "ra_len_head (length vs) 0 ?s (\<lambda>_. 0) = x" .
  then show ?thesis using d by (intro exI [of _ acts]) (simp add: len_of_new drained_def)
qed

theorem channel_len_overshoots_witness:
  "\<exists>acts. let (tail, V) = ra_len_tail 0 (ra_chan_new 2) (\<lambda>_. 0); s = ra_run (2 :: 64 word) acts (ra_chan_new 2)
     in rc_sent s = [5 :: nat] \<and> rc_got s = [5] \<and> rc_send s = SendIdle \<and> rc_recv s = RecvIdle \<and>
        ra_len_head 1 tail s V = - 1"
  using channel_len_overshoots [of "2 :: 64 word" "[5 :: nat]" "- 1"] by simp

end
