(* ===== verification/Waker_Ra.thy ===== *)
theory Waker_Ra
  imports Ra_Memory Atomic_Waker
begin

text \<open>
  \<open>crates/px4-workqueue/src/atomic_waker.rs\<close> under the orderings it names, for any number of threads over the
  memory of \<open>Ra_Memory\<close>: \<open>St\<close> is the atomic \<open>state\<close>, \<open>Sl\<close> the plain slot, \<open>Sig\<close> an atomic location of the
  caller (a counter of a channel, the permit of a \<open>Notify\<close>) and \<open>Dat i\<close> others that the threads use beside it.
  The program counters are those of \<open>Atomic_Waker\<close>; what is new is that a failing \<open>compare_exchange\<close> may have
  read an old state, and that an access to the slot is a data race, recorded in \<open>ar_race\<close>, when its thread does not
  know of all earlier ones.
\<close>

section \<open>State and steps\<close>

datatype aw_loc = St | Sl | Sig | Dat nat

record aw_ra =
  ar_mem :: "(aw_loc, usize) memory"
  ar_slot :: "waker option"
  ar_views :: "nat \<Rightarrow> aw_loc view"
  ar_pcs :: "nat \<Rightarrow> aw_pc"
  ar_woken :: "waker list"
  ar_race :: bool

definition ar_new :: aw_ra where
  "ar_new =
     \<lparr>ar_mem = mem_new (\<lambda>l. if l = Sl then None else Some 0), ar_slot = None, ar_views = (\<lambda>_ _. 0),
      ar_pcs = (\<lambda>_. Idle), ar_woken = [], ar_race = False\<rparr>"

text \<open>Thread \<open>t\<close> goes to \<open>pc\<close> with the memory and the view its operation leaves.\<close>

definition ar_goto :: "nat \<Rightarrow> aw_pc \<Rightarrow> (aw_loc, usize) memory \<Rightarrow> aw_loc view \<Rightarrow> aw_ra \<Rightarrow> aw_ra" where
  "ar_goto t pc m V s =
     s\<lparr>ar_mem := m, ar_views := (ar_views s)(t := V), ar_pcs := (ar_pcs s)(t := pc)\<rparr>"

definition ar_call :: "nat \<Rightarrow> aw_pc \<Rightarrow> aw_ra \<Rightarrow> aw_ra" where
  "ar_call t pc s = s\<lparr>ar_pcs := (ar_pcs s)(t := pc)\<rparr>"

definition ar_reg_cas :: "nat \<Rightarrow> nat \<Rightarrow> waker \<Rightarrow> aw_ra \<Rightarrow> aw_ra" where
  "ar_reg_cas n t w s =
     (case ra_cas Acquire Acquire n WAITING REGISTERING St (ar_mem s) (ar_views s t) of
        (r, m, V) \<Rightarrow>
          let x = (case r of Inr v \<Rightarrow> v | Inl v \<Rightarrow> v)
          in ar_goto t
               (if x = WAITING then RegWrite w
                else if x = WAKING then RegSelf w
                else if x = REGISTERING \<or> x = REGISTERING OR WAKING then Idle
                else Panicked) m V s)"

definition ar_reg_release :: "nat \<Rightarrow> nat \<Rightarrow> aw_ra \<Rightarrow> aw_ra" where
  "ar_reg_release n t s =
     (case ra_cas AcqRel Acquire n REGISTERING WAITING St (ar_mem s) (ar_views s t) of
        (Inr v, m, V) \<Rightarrow> ar_goto t Idle m V s
      | (Inl actual, m, V) \<Rightarrow> ar_goto t (if actual = REGISTERING OR WAKING then RegDrain else Panicked) m V s)"

definition ar_reset :: "nat \<Rightarrow> waker option \<Rightarrow> aw_ra \<Rightarrow> aw_ra" where
  "ar_reset t r s =
     (case ra_rmw AcqRel (\<lambda>_. WAITING) St (ar_mem s) (ar_views s t) of (v, m, V) \<Rightarrow> ar_goto t (Invoke r) m V s)"

definition ar_take_or :: "nat \<Rightarrow> aw_ra \<Rightarrow> aw_ra" where
  "ar_take_or t s =
     (case ra_rmw AcqRel (\<lambda>v. v OR WAKING) St (ar_mem s) (ar_views s t) of
        (v, m, V) \<Rightarrow> ar_goto t (if v = WAITING then TakeSlot else Invoke None) m V s)"

definition ar_take_release :: "nat \<Rightarrow> waker option \<Rightarrow> aw_ra \<Rightarrow> aw_ra" where
  "ar_take_release t r s =
     (case ra_rmw Release (\<lambda>v. v AND NOT WAKING) St (ar_mem s) (ar_views s t) of
        (v, m, V) \<Rightarrow> ar_goto t (Invoke r) m V s)"

text \<open>An access to the slot: it is left as \<open>x\<close>.\<close>

definition ar_slot_access :: "nat \<Rightarrow> aw_pc \<Rightarrow> waker option \<Rightarrow> aw_ra \<Rightarrow> aw_ra" where
  "ar_slot_access t pc x s =
     (case plain_access Sl (ar_mem s) (ar_views s t) of
        (race, m, V) \<Rightarrow> (ar_goto t pc m V s)\<lparr>ar_slot := x, ar_race := (ar_race s \<or> race)\<rparr>)"

definition ar_invoke :: "nat \<Rightarrow> waker option \<Rightarrow> aw_ra \<Rightarrow> aw_ra" where
  "ar_invoke t r s =
     (ar_call t Idle s)\<lparr>ar_woken := ar_woken s @ (case r of None \<Rightarrow> [] | Some w \<Rightarrow> [w])\<rparr>"

definition ar_step :: "nat \<Rightarrow> nat \<Rightarrow> aw_ra \<Rightarrow> aw_ra" where
  "ar_step n t s =
     (case ar_pcs s t of
        Idle \<Rightarrow> s
      | RegCas w \<Rightarrow> ar_reg_cas n t w s
      | RegWrite w \<Rightarrow> ar_slot_access t (RegRelease w) (Some w) s
      | RegRelease w \<Rightarrow> ar_reg_release n t s
      | RegDrain \<Rightarrow> ar_slot_access t (RegReset (ar_slot s)) None s
      | RegReset r \<Rightarrow> ar_reset t r s
      | RegSelf w \<Rightarrow> ar_invoke t (Some w) s
      | TakeOr \<Rightarrow> ar_take_or t s
      | TakeSlot \<Rightarrow> ar_slot_access t (TakeRelease (ar_slot s)) None s
      | TakeRelease r \<Rightarrow> ar_take_release t r s
      | Invoke r \<Rightarrow> ar_invoke t r s
      | Panicked \<Rightarrow> s)"

text \<open>
  What the threads do: call \<open>register\<close> or \<open>wake\<close>, go on, or load (any thread) or store (one thread, \<open>0\<close> here) the location
  \<open>Sig\<close>; \<open>n\<close> picks among the values a load may return.
\<close>

datatype ar_act =
    ArRegister nat waker
  | ArWake nat
  | ArStep nat nat
  | ArLoad nat nat
  | ArStore usize

fun ar_do :: "ar_act \<Rightarrow> aw_ra \<Rightarrow> aw_ra" where
  "ar_do (ArRegister t w) s = (if ar_pcs s t = Idle then ar_call t (RegCas w) s else s)"
| "ar_do (ArWake t) s = (if ar_pcs s t = Idle then ar_call t TakeOr s else s)"
| "ar_do (ArStep n t) s = ar_step n t s"
| "ar_do (ArLoad n t) s =
     (if ar_pcs s t = Idle
      then s\<lparr>ar_views := (ar_views s)(t := snd (ra_load Acquire n Sig (ar_mem s) (ar_views s t)))\<rparr> else s)"
| "ar_do (ArStore v) s =
     (if ar_pcs s 0 = Idle
      then (case ra_store Release Sig v (ar_mem s) (ar_views s 0) of
              (m, V) \<Rightarrow> s\<lparr>ar_mem := m, ar_views := (ar_views s)(0 := V)\<rparr>) else s)"

definition ar_run :: "ar_act list \<Rightarrow> aw_ra \<Rightarrow> aw_ra" where
  "ar_run acts s = fold ar_do acts s"

section \<open>Who knows of the accesses to the slot\<close>

text \<open>The state word and the program counters as \<open>Atomic_Waker\<close> has them.\<close>

abbreviation ar_hist :: "aw_ra \<Rightarrow> (aw_loc, usize) message list" where
  "ar_hist s \<equiv> mm_hist (ar_mem s) St"

definition sc_part :: "aw_ra \<Rightarrow> aw" where
  "sc_part s = \<lparr>aw_state = ms_value (last (ar_hist s)), aw_slot = ar_slot s, aw_pcs = ar_pcs s, aw_woken = ar_woken s\<rparr>"

lemma sc_part_sel [simp]:
  "aw_state (sc_part s) = ms_value (last (ar_hist s))" "aw_pcs (sc_part s) = ar_pcs s"
  by (simp_all add: sc_part_def)

text \<open>
  Whoever may touch the slot knows of all accesses to it; while nobody may, the newest entry
  of the state does. A registering thread sees no entry older than its own.
\<close>

definition slot_known :: "aw_ra \<Rightarrow> nat option \<Rightarrow> bool" where
  "slot_known s ow \<longleftrightarrow>
     (case ow of
        None \<Rightarrow> mm_clock (ar_mem s) Sl \<le> ms_view (last (ar_hist s)) Sl
      | Some t \<Rightarrow> mm_clock (ar_mem s) Sl \<le> ar_views s t Sl)"

definition sees_own :: "aw_ra \<Rightarrow> nat \<Rightarrow> bool" where
  "sees_own s t \<longleftrightarrow>
     (\<forall>k < length (ar_hist s). ar_views s t St \<le> k \<longrightarrow>
        ms_value (ar_hist s ! k) = REGISTERING \<or>
        ms_value (ar_hist s ! k) = REGISTERING OR WAKING \<and>
        ms_value (last (ar_hist s)) = REGISTERING OR WAKING)"

definition ar_mem_ok :: "aw_ra \<Rightarrow> bool" where
  "ar_mem_ok s \<longleftrightarrow>
     mem_ok (ar_mem s) \<and> (\<forall>t. view_ok (ar_mem s) (ar_views s t)) \<and>
     mm_hist (ar_mem s) Sl = [] \<and> ar_hist s \<noteq> [] \<and> mm_hist (ar_mem s) Sig \<noteq> [] \<and>
     (\<forall>msg \<in> set (ar_hist s). ms_value msg \<in> {0, 1, 2, 3})"

definition ar_inv :: "aw_ra \<Rightarrow> nat option \<Rightarrow> bool" where
  "ar_inv s ow \<longleftrightarrow>
     ar_mem_ok s \<and> owns (sc_part s) ow \<and> slot_known s ow \<and> \<not> ar_race s \<and>
     (\<forall>t. ow = Some t \<and> reg_owner (ar_pcs s t) \<longrightarrow> sees_own s t)"

lemma ar_inv_new: "ar_inv ar_new None"
  by (auto simp: ar_inv_def ar_mem_ok_def ar_new_def mem_new_ok owns_def slot_known_def)
     (auto simp: mem_new_def sc_part_def)

lemma ar_goto_sel [simp]:
  "ar_mem (ar_goto t pc m V s) = m" "ar_slot (ar_goto t pc m V s) = ar_slot s"
  "ar_views (ar_goto t pc m V s) = (ar_views s)(t := V)" "ar_pcs (ar_goto t pc m V s) = (ar_pcs s)(t := pc)"
  "ar_woken (ar_goto t pc m V s) = ar_woken s" "ar_race (ar_goto t pc m V s) = ar_race s"
  by (simp_all add: ar_goto_def)

lemma ar_call_sel [simp]:
  "ar_mem (ar_call t pc s) = ar_mem s" "ar_slot (ar_call t pc s) = ar_slot s"
  "ar_views (ar_call t pc s) = ar_views s" "ar_pcs (ar_call t pc s) = (ar_pcs s)(t := pc)"
  "ar_woken (ar_call t pc s) = ar_woken s" "ar_race (ar_call t pc s) = ar_race s"
  by (simp_all add: ar_call_def)

lemma ar_memD:
  assumes "ar_mem_ok s"
  shows "mem_ok (ar_mem s)" "\<And>t. view_ok (ar_mem s) (ar_views s t)" "mm_hist (ar_mem s) Sl = []"
    "ar_hist s \<noteq> []" "mm_hist (ar_mem s) Sig \<noteq> []"
  using assms by (auto simp: ar_mem_ok_def)

text \<open>A thread that is not the owner goes to another point outside, possibly with a larger view.\<close>

lemma ar_inv_outside:
  assumes "ar_inv s ow" and "\<not> owner (ar_pcs s t)" and "\<not> owner pc" and "pc \<noteq> Panicked"
    and "ar_mem s' = ar_mem s" and "ar_views s' = (ar_views s)(t := V)" and "ar_pcs s' = (ar_pcs s)(t := pc)"
    and "ar_race s' = ar_race s" and "view_ok (ar_mem s) V"
  shows "ar_inv s' ow"
proof -
  have ow: "ow \<noteq> Some t" using assms(1,2) by (auto simp: ar_inv_def owns_def)
  have "owns (sc_part s) ow" using assms(1) by (simp add: ar_inv_def)
  then have "owns (sc_part s') ow"
    by (rule owns_free_move) (use assms in simp_all)
  moreover have "ar_mem_ok s'" using assms by (simp add: ar_inv_def ar_mem_ok_def)
  moreover have "slot_known s' ow" using assms(1,5,6) ow by (auto simp: ar_inv_def slot_known_def split: option.splits)
  ultimately show ?thesis using assms ow by (auto simp: ar_inv_def sees_own_def)
qed

text \<open>A read-modify-write of the state.\<close>

lemma ar_mem_ok_rmw:
  assumes "ar_mem_ok s" and "ra_rmw ord f St (ar_mem s) (ar_views s t) = (v, m, V)"
    and "f (ms_value (last (ar_hist s))) \<in> {0, 1, 2, 3}"
    and "ar_mem s' = m" and "ar_views s' = (ar_views s)(t := V)"
  shows "ar_mem_ok s'"
proof -
  note d = ar_memD [OF assms(1)]
  from ra_rmw_spec [OF assms(2) d(2) d(1) d(4)] obtain msg where
    m: "mm_hist m = (mm_hist (ar_mem s))(St := ar_hist s @ [msg])" "ms_value msg = f v" "v = ms_value (last (ar_hist s))"
    by metis
  have "view_ok m V" "mem_ok m" "\<And>u. view_ok m (ar_views s u)"
    using ra_rmw_ok [OF assms(2) d(2) d(1) d(4)] d(2) by blast+
  with m d assms show ?thesis by (auto simp: ar_mem_ok_def)
qed


text \<open>The owner goes on without a store, possibly with a larger view.\<close>

lemma ar_inv_inside:
  assumes inv: "ar_inv s (Some t)" and "owner pc" and "owner_state pc (ms_value (last (ar_hist s)))"
    and "reg_owner pc = reg_owner (ar_pcs s t)" and "m = ar_mem s" and "view_ok (ar_mem s) V"
    and "\<And>x. ar_views s t x \<le> V x"
  shows "ar_inv (ar_goto t pc m V s) (Some t)"
proof -
  have ow: "owns (sc_part s) (Some t)" using inv by (simp add: ar_inv_def)
  have "owns (sc_part (ar_goto t pc m V s)) (Some t)"
    by (rule owns_keep [OF ow assms(2)]) (use assms(3,5) in simp_all)
  moreover have "ar_mem_ok (ar_goto t pc m V s)" using assms by (simp add: ar_inv_def ar_mem_ok_def)
  moreover have "mm_clock (ar_mem s) Sl \<le> V Sl"
    using inv assms(7) [of Sl] by (auto simp: ar_inv_def slot_known_def intro: order_trans)
  then have "slot_known (ar_goto t pc m V s) (Some t)" using assms(5) by (simp add: slot_known_def)
  moreover have "sees_own (ar_goto t pc m V s) t" if "sees_own s t"
    using that assms(5) order_trans [OF assms(7) [of St]] by (simp add: sees_own_def)
  ultimately show ?thesis using inv assms(4) by (auto simp: ar_inv_def)
qed

text \<open>The owner lets go of the slot, a thread gets hold of it, another thread sets \<open>WAKING\<close> meanwhile.\<close>

lemma ar_inv_release:
  assumes inv: "ar_inv s (Some t)" and rm: "ra_rmw ord f St (ar_mem s) (ar_views s t) = (v, m, V)"
    and "releases ord" and "f v = WAITING" and "\<not> owner pc" and "pc \<noteq> Panicked"
  shows "ar_inv (ar_goto t pc m V s) None"
proof -
  have mo: "ar_mem_ok s" using inv by (simp add: ar_inv_def)
  note d = ar_memD [OF mo]
  from ra_rmw_spec [OF rm d(2) d(1) d(4)] obtain msg where
    m: "mm_hist m = (mm_hist (ar_mem s))(St := ar_hist s @ [msg])" "mm_clock m = mm_clock (ar_mem s)"
      "ms_value msg = f v" "v = ms_value (last (ar_hist s))"
    and up: "ar_views s t Sl \<le> V Sl" and pass: "releases ord \<Longrightarrow> V Sl \<le> ms_view msg Sl" by metis
  have "ar_mem_ok (ar_goto t pc m V s)" by (rule ar_mem_ok_rmw [OF mo rm]) (use assms m in auto)
  moreover have "owns (sc_part (ar_goto t pc m V s)) None"
    by (rule owns_release [of "sc_part s" t pc]) (use assms m in \<open>auto simp: ar_inv_def\<close>)
  moreover have "mm_clock (ar_mem s) Sl \<le> ar_views s t Sl" using inv by (simp add: ar_inv_def slot_known_def)
  then have "slot_known (ar_goto t pc m V s) None" using up pass assms(3) by (simp add: slot_known_def m)
  ultimately show ?thesis using inv by (simp add: ar_inv_def)
qed

lemma ar_inv_acquire:
  assumes inv: "ar_inv s None" and rm: "ra_rmw ord f St (ar_mem s) (ar_views s t) = (v, m, V)"
    and "acquires ord" and "owner pc" and "owner_state pc (f v)" and "f v \<in> {0, 1, 2, 3}"
    and "reg_owner pc \<longrightarrow> f v = REGISTERING"
  shows "ar_inv (ar_goto t pc m V s) (Some t)"
proof -
  have mo: "ar_mem_ok s" using inv by (simp add: ar_inv_def)
  note d = ar_memD [OF mo]
  from ra_rmw_spec [OF rm d(2) d(1) d(4)] obtain msg where
    m: "mm_hist m = (mm_hist (ar_mem s))(St := ar_hist s @ [msg])" "mm_clock m = mm_clock (ar_mem s)"
      "ms_value msg = f v" "v = ms_value (last (ar_hist s))" "V St = length (ar_hist s)"
    and learn: "acquires ord \<Longrightarrow> ms_view (last (ar_hist s)) Sl \<le> V Sl" by metis
  have "ar_mem_ok (ar_goto t pc m V s)" by (rule ar_mem_ok_rmw [OF mo rm]) (use assms m in auto)
  moreover have "owns (sc_part (ar_goto t pc m V s)) (Some t)"
    by (rule owns_acquire [of "sc_part s" pc]) (use assms m in \<open>auto simp: ar_inv_def\<close>)
  moreover have "mm_clock (ar_mem s) Sl \<le> ms_view (last (ar_hist s)) Sl"
    using inv by (simp add: ar_inv_def slot_known_def)
  then have "slot_known (ar_goto t pc m V s) (Some t)" using learn assms(3) by (simp add: slot_known_def m)
  moreover have "reg_owner pc \<longrightarrow> sees_own (ar_goto t pc m V s) t"
    using assms(7) m by (auto simp: sees_own_def nth_append)
  ultimately show ?thesis using inv by (simp add: ar_inv_def)
qed

lemma ar_inv_or:
  assumes inv: "ar_inv s (Some u)" and rm: "ra_rmw ord (\<lambda>v. v OR WAKING) St (ar_mem s) (ar_views s t) = (v, m, V)"
    and "\<not> owner (ar_pcs s t)" and "\<not> owner pc" and "pc \<noteq> Panicked"
  shows "ar_inv (ar_goto t pc m V s) (Some u)"
proof -
  have mo: "ar_mem_ok s" and ow: "owns (sc_part s) (Some u)" using inv by (simp_all add: ar_inv_def)
  note d = ar_memD [OF mo]
  from ra_rmw_spec [OF rm d(2) d(1) d(4)] obtain msg where
    m: "mm_hist m = (mm_hist (ar_mem s))(St := ar_hist s @ [msg])" "mm_clock m = mm_clock (ar_mem s)"
      "ms_value msg = v OR WAKING" "v = ms_value (last (ar_hist s))" by metis
  have v: "v \<in> {0, 1, 2, 3}" using owns_states [OF ow] m(4) by simp
  have ut: "u \<noteq> t" using ow assms(3) by (auto simp: owns_def)
  have "ar_mem_ok (ar_goto t pc m V s)" by (rule ar_mem_ok_rmw [OF mo rm]) (use v m in auto)
  moreover have "owns (sc_part (ar_goto t pc m V s)) (Some u)"
    by (rule owns_or [OF ow, of t pc]) (use assms m in auto)
  moreover have "slot_known (ar_goto t pc m V s) (Some u)"
    using inv ut by (simp add: ar_inv_def slot_known_def m)
  moreover have "sees_own (ar_goto t pc m V s) u" if "reg_owner (ar_pcs s u)"
  proof -
    have so: "sees_own s u" using inv that by (simp add: ar_inv_def)
    have "ms_value msg = 3"
      using owns_my_state [OF ow] that m by (cases "ar_pcs s u") (auto simp: owner_state_def)
    with so show ?thesis using ut by (auto simp: sees_own_def m nth_append less_Suc_eq)
  qed
  ultimately show ?thesis using inv ut by (simp add: ar_inv_def)
qed

text \<open>The owner accesses the slot: it knows of all earlier accesses, so there is no race.\<close>

lemma ar_inv_slot:
  assumes inv: "ar_inv s (Some t)" and "owner pc" and "owner_state pc (ms_value (last (ar_hist s)))"
    and "reg_owner pc = reg_owner (ar_pcs s t)"
  shows "ar_inv (ar_slot_access t pc x s) (Some t)"
proof -
  obtain race m V where acc: "plain_access Sl (ar_mem s) (ar_views s t) = (race, m, V)" by (metis surj_pair)
  then have m: "mm_hist m = mm_hist (ar_mem s)" "V = (ar_views s t)(Sl := mm_clock m Sl)"
    "race = (ar_views s t Sl < mm_clock (ar_mem s) Sl)"
    by (auto simp: plain_access_def Let_def)
  have mo: "ar_mem_ok s" and ow: "owns (sc_part s) (Some t)" and known: "mm_clock (ar_mem s) Sl \<le> ar_views s t Sl"
    using inv by (auto simp: ar_inv_def slot_known_def)
  note d = ar_memD [OF mo]
  have s': "ar_slot_access t pc x s = (ar_goto t pc m V s)\<lparr>ar_slot := x, ar_race := ar_race s\<rparr>"
    using acc known m(3) by (simp add: ar_slot_access_def)
  have ok: "mem_ok m" "view_ok m V" "\<And>u. view_ok m (ar_views s u)"
    using plain_access_ok [OF acc d(2) d(1) d(3)] d(2) by blast+
  have "ar_mem_ok (ar_slot_access t pc x s)" using ok mo by (simp add: s' ar_mem_ok_def m(1))
  moreover have "owns (sc_part (ar_slot_access t pc x s)) (Some t)"
    by (rule owns_keep [OF ow assms(2)]) (use assms(3) in \<open>simp_all add: s' m(1)\<close>)
  moreover have "slot_known (ar_slot_access t pc x s) (Some t)" by (simp add: s' slot_known_def m(2))
  moreover have "sees_own s t \<longrightarrow> sees_own (ar_slot_access t pc x s) t"
    by (simp add: s' sees_own_def m(1,2))
  ultimately show ?thesis using inv assms(4) by (auto simp: ar_inv_def s')
qed

lemma ar_inv_owner: "ar_inv s ow \<Longrightarrow> owner (ar_pcs s t) \<Longrightarrow> ow = Some t"
  by (auto simp: ar_inv_def owns_def)

lemma ar_inv_state: "ar_inv s (Some t) \<Longrightarrow> owner_state (ar_pcs s t) (ms_value (last (ar_hist s)))"
  using owns_my_state [of "sc_part s" t] by (simp add: ar_inv_def)

lemma ar_inv_reg_cas:
  assumes inv: "ar_inv s ow" and pc: "ar_pcs s t = RegCas w"
  shows "\<exists>ow. ar_inv (ar_reg_cas n t w s) ow"
proof -
  have mo: "ar_mem_ok s" and own: "owns (sc_part s) ow" using inv by (simp_all add: ar_inv_def)
  note d = ar_memD [OF mo]
  obtain r m V where cas: "ra_cas Acquire Acquire n WAITING REGISTERING St (ar_mem s) (ar_views s t) = (r, m, V)"
    by (metis surj_pair)
  from cas d(2) d(1) d(4) show ?thesis
  proof (cases rule: ra_cas_cases)
    case Ok
    have "ow = None" using owns_None [OF own] Ok(2) by simp
    with inv have "ar_inv (ar_goto t (RegWrite w) m V s) (Some t)"
      by (intro ar_inv_acquire [OF _ Ok(3)]) (auto simp: owner_state_def)
    with cas Ok(1) show ?thesis by (auto simp: ar_reg_cas_def)
  next
    case (Err k v)
    have "v \<in> {0, 1, 2, 3}" using mo nth_mem [OF Err(5)] Err(6) unfolding ar_mem_ok_def by blast
    then have v: "v \<in> {1, 2, 3}" using Err(2) by auto
    let ?pc = "if v = WAKING then RegSelf w else Idle"
    have "ar_reg_cas n t w s = ar_goto t ?pc m V s" using cas Err(1) v by (auto simp: ar_reg_cas_def)
    moreover have "ar_inv (ar_goto t ?pc m V s) ow"
      by (rule ar_inv_outside [OF inv, of t ?pc]) (use pc Err(3,7) in simp_all)
    ultimately show ?thesis by metis
  qed
qed

lemma ar_inv_reg_release:
  assumes inv: "ar_inv s ow" and pc: "ar_pcs s t = RegRelease w"
  shows "\<exists>ow. ar_inv (ar_reg_release n t s) ow"
proof -
  have ow: "ow = Some t" using ar_inv_owner [OF inv] pc by simp
  have mo: "ar_mem_ok s" using inv by (simp add: ar_inv_def)
  note d = ar_memD [OF mo]
  obtain r m V where cas: "ra_cas AcqRel Acquire n REGISTERING WAITING St (ar_mem s) (ar_views s t) = (r, m, V)"
    by (metis surj_pair)
  from cas d(2) d(1) d(4) show ?thesis
  proof (cases rule: ra_cas_cases)
    case Ok
    have "ar_inv (ar_goto t Idle m V s) None"
      by (rule ar_inv_release [OF inv [unfolded ow] Ok(3)]) simp_all
    with cas Ok(1) show ?thesis by (auto simp: ar_reg_release_def)
  next
    case (Err k v)
    have sees: "sees_own s t" using inv ow pc by (simp add: ar_inv_def)
    then have v: "v = 3" "ms_value (last (ar_hist s)) = 3" using Err(2,4,5,6) by (auto simp: sees_own_def)
    have "ar_inv (ar_goto t RegDrain m V s) (Some t)"
      by (rule ar_inv_inside [OF inv [unfolded ow]]) (use pc Err v in \<open>auto simp: owner_state_def\<close>)
    with cas Err(1) v show ?thesis by (auto simp: ar_reg_release_def)
  qed
qed

lemma ar_inv_take_or:
  assumes inv: "ar_inv s ow" and pc: "ar_pcs s t = TakeOr"
  shows "\<exists>ow. ar_inv (ar_take_or t s) ow"
proof -
  have mo: "ar_mem_ok s" and own: "owns (sc_part s) ow" using inv by (simp_all add: ar_inv_def)
  note d = ar_memD [OF mo]
  obtain v m V where rm: "ra_rmw AcqRel (\<lambda>v. v OR WAKING) St (ar_mem s) (ar_views s t) = (v, m, V)"
    by (metis surj_pair)
  have v: "v = ms_value (last (ar_hist s))" using rm by (auto simp: ra_rmw_def Let_def)
  show ?thesis
  proof (cases ow)
    case None
    then have v0: "v = 0" using owns_None [OF own] v by simp
    have "ar_inv (ar_goto t TakeSlot m V s) (Some t)"
      by (rule ar_inv_acquire [OF inv [unfolded None] rm]) (simp_all add: v0 owner_state_def)
    with rm v0 show ?thesis by (auto simp: ar_take_or_def)
  next
    case (Some u)
    then have "v \<noteq> 0" using owns_None [OF own] v by simp
    moreover have "ar_inv (ar_goto t (Invoke None) m V s) (Some u)"
      by (rule ar_inv_or [OF inv [unfolded Some] rm]) (simp_all add: pc)
    ultimately show ?thesis using rm by (auto simp: ar_take_or_def)
  qed
qed

lemma ar_inv_reset:
  assumes inv: "ar_inv s ow" and pc: "ar_pcs s t = RegReset r"
  shows "\<exists>ow. ar_inv (ar_reset t r s) ow"
proof -
  have ow: "ow = Some t" using ar_inv_owner [OF inv] pc by simp
  obtain v m V where rm: "ra_rmw AcqRel (\<lambda>_. WAITING) St (ar_mem s) (ar_views s t) = (v, m, V)" by (metis surj_pair)
  have "ar_inv (ar_goto t (Invoke r) m V s) None"
    by (rule ar_inv_release [OF inv [unfolded ow] rm]) simp_all
  with rm show ?thesis by (auto simp: ar_reset_def)
qed

lemma ar_inv_take_release:
  assumes inv: "ar_inv s ow" and pc: "ar_pcs s t = TakeRelease r"
  shows "\<exists>ow. ar_inv (ar_take_release t r s) ow"
proof -
  have ow: "ow = Some t" using ar_inv_owner [OF inv] pc by simp
  obtain v m V where rm: "ra_rmw Release (\<lambda>v. v AND NOT WAKING) St (ar_mem s) (ar_views s t) = (v, m, V)"
    by (metis surj_pair)
  have "v = ms_value (last (ar_hist s))" using rm by (auto simp: ra_rmw_def Let_def)
  then have "v = 2" using ar_inv_state [OF inv [unfolded ow]] pc by (simp add: owner_state_def)
  then have "ar_inv (ar_goto t (Invoke r) m V s) None"
    by (intro ar_inv_release [OF inv [unfolded ow] rm]) simp_all
  with rm show ?thesis by (auto simp: ar_take_release_def)
qed

lemma ar_inv_invoke:
  assumes "ar_inv s ow" and "\<not> owner (ar_pcs s t)"
  shows "ar_inv (ar_invoke t r s) ow"
  by (rule ar_inv_outside [OF assms(1,2), where pc = Idle and V = "ar_views s t"])
     (use assms ar_memD(2) in \<open>simp_all add: ar_invoke_def ar_inv_def\<close>)

lemma ar_inv_step:
  assumes inv: "ar_inv s ow"
  shows "\<exists>ow. ar_inv (ar_step n t s) ow"
proof -
  have slot: "\<exists>ow. ar_inv (ar_slot_access t pc x s) ow"
    if "owner (ar_pcs s t)" "owner pc" "reg_owner pc = reg_owner (ar_pcs s t)"
      "owner_state (ar_pcs s t) = owner_state pc" for pc x
    using ar_inv_slot [of s t pc x] ar_inv_owner [OF inv that(1)] inv ar_inv_state [of s t] that by auto
  show ?thesis
  proof (cases "ar_pcs s t")
    case (RegCas w)
    with ar_inv_reg_cas [OF inv RegCas] show ?thesis by (simp add: ar_step_def)
  next
    case (RegWrite w)
    with slot [of "RegRelease w"] show ?thesis by (simp add: ar_step_def owner_state_def fun_eq_iff)
  next
    case (RegRelease w)
    with ar_inv_reg_release [OF inv RegRelease] show ?thesis by (simp add: ar_step_def)
  next
    case RegDrain
    with slot [of "RegReset (ar_slot s)"] show ?thesis by (simp add: ar_step_def owner_state_def fun_eq_iff)
  next
    case (RegReset r)
    with ar_inv_reset [OF inv RegReset] show ?thesis by (simp add: ar_step_def)
  next
    case (RegSelf w)
    with ar_inv_invoke [OF inv, of t] show ?thesis by (auto simp: ar_step_def)
  next
    case TakeOr
    with ar_inv_take_or [OF inv TakeOr] show ?thesis by (simp add: ar_step_def)
  next
    case TakeSlot
    with slot [of "TakeRelease (ar_slot s)"] show ?thesis by (simp add: ar_step_def owner_state_def fun_eq_iff)
  next
    case (TakeRelease r)
    with ar_inv_take_release [OF inv TakeRelease] show ?thesis by (simp add: ar_step_def)
  next
    case (Invoke r)
    with ar_inv_invoke [OF inv, of t] show ?thesis by (auto simp: ar_step_def)
  qed (use inv in \<open>auto simp: ar_step_def\<close>)
qed

lemma ar_inv_store:
  assumes inv: "ar_inv s ow" and st: "ra_store Release Sig x (ar_mem s) (ar_views s u) = (m, V)"
  shows "ar_inv (s\<lparr>ar_mem := m, ar_views := (ar_views s)(u := V)\<rparr>) ow"
proof -
  have mo: "ar_mem_ok s" using inv by (simp add: ar_inv_def)
  note d = ar_memD [OF mo]
  have m: "mm_hist m St = ar_hist s" "mm_hist m Sl = mm_hist (ar_mem s) Sl" "mm_clock m = mm_clock (ar_mem s)"
    "mm_hist m Sig \<noteq> []" "V Sl = ar_views s u Sl" "V St = ar_views s u St"
    using st by (auto simp: ra_store_def Let_def)
  have "mem_ok m" "view_ok m V" "\<And>t. view_ok m (ar_views s t)"
    using ra_store_ok [OF st d(2) d(1) d(5)] d(2) by blast+
  then have "ar_mem_ok (s\<lparr>ar_mem := m, ar_views := (ar_views s)(u := V)\<rparr>)"
    using mo m by (simp add: ar_mem_ok_def)
  then show ?thesis
    using inv m by (auto simp: ar_inv_def slot_known_def sees_own_def sc_part_def split: option.splits)
qed

lemma ar_inv_do:
  assumes "ar_inv s ow"
  shows "\<exists>ow. ar_inv (ar_do act s) ow"
proof (cases act)
  case (ArRegister t w)
  have "ar_inv (ar_call t (RegCas w) s) ow" if "ar_pcs s t = Idle"
    by (rule ar_inv_outside [OF assms, of t "RegCas w" _ "ar_views s t"])
       (use assms that ar_memD(2) in \<open>auto simp: ar_inv_def\<close>)
  with ArRegister assms show ?thesis by auto
next
  case (ArWake t)
  have "ar_inv (ar_call t TakeOr s) ow" if "ar_pcs s t = Idle"
    by (rule ar_inv_outside [OF assms, of t TakeOr _ "ar_views s t"])
       (use assms that ar_memD(2) in \<open>auto simp: ar_inv_def\<close>)
  with ArWake assms show ?thesis by auto
next
  case (ArStep n t)
  with ar_inv_step [OF assms] show ?thesis by simp
next
  case (ArLoad n t)
  obtain v V where ld: "ra_load Acquire n Sig (ar_mem s) (ar_views s t) = (v, V)" by (metis surj_pair)
  have mo: "ar_mem_ok s" using assms by (simp add: ar_inv_def)
  note d = ar_memD [OF mo]
  have "ar_inv (s\<lparr>ar_views := (ar_views s)(t := V)\<rparr>) ow" if "ar_pcs s t = Idle"
    by (rule ar_inv_outside [OF assms, of t Idle])
       (use that view_ok_load [OF ld d(2) d(1) d(5)] in \<open>auto simp: fun_upd_idem\<close>)
  with ArLoad ld assms show ?thesis by auto
next
  case (ArStore v)
  obtain m V where st: "ra_store Release Sig v (ar_mem s) (ar_views s 0) = (m, V)" by (metis surj_pair)
  with ArStore ar_inv_store [OF assms st] assms show ?thesis by auto
qed

lemma ar_inv_run: "ar_inv s ow \<Longrightarrow> \<exists>ow. ar_inv (ar_run acts s) ow"
proof (induction acts arbitrary: s ow)
  case (Cons act acts)
  from ar_inv_do [OF Cons.prems, of act] Cons.IH show ?case by (auto simp: ar_run_def)
qed (auto simp: ar_run_def)

section \<open>What a step of the waker leaves alone\<close>

lemma ar_step_other: "t \<noteq> u \<Longrightarrow> ar_pcs (ar_step n t a) u = ar_pcs a u"
  by (cases "ar_pcs a t")
     (auto simp: ar_step_def ar_reg_cas_def ar_reg_release_def ar_slot_access_def ar_reset_def ar_invoke_def
       ar_take_or_def ar_take_release_def Let_def split: prod.split sum.split)

lemma ar_step_view_other: "t \<noteq> u \<Longrightarrow> ar_views (ar_step n t a) u = ar_views a u"
  by (cases "ar_pcs a t")
     (auto simp: ar_step_def ar_reg_cas_def ar_reg_release_def ar_slot_access_def ar_reset_def ar_invoke_def
       ar_take_or_def ar_take_release_def Let_def split: prod.split sum.split)

text \<open>The knowledge of the newest state about \<open>Sig\<close> and the views only grow.\<close>

definition knows_more :: "aw_ra \<Rightarrow> aw_ra \<Rightarrow> bool" where
  "knows_more a b \<longleftrightarrow>
     mm_hist (ar_mem b) Sig = mm_hist (ar_mem a) Sig \<and>
     ms_view (last (ar_hist a)) Sig \<le> ms_view (last (ar_hist b)) Sig \<and>
     (\<forall>u x. x \<noteq> Sl \<longrightarrow> ar_views a u x \<le> ar_views b u x)"

lemma knows_more_refl: "knows_more a a"
  by (simp add: knows_more_def)

lemma knows_more_rmw:
  assumes "ar_mem_ok a" and "ra_rmw ord f St (ar_mem a) (ar_views a t) = (v, m, V)"
  shows "knows_more a (ar_goto t pc m V a)"
proof -
  note d = ar_memD [OF assms(1)]
  from ra_rmw_spec [OF assms(2) d(2) d(1) d(4)] obtain msg where
    m: "mm_hist m = (mm_hist (ar_mem a))(St := ar_hist a @ [msg])"
    and V: "\<And>x. ar_views a t x \<le> V x" and msg: "ms_view (last (ar_hist a)) Sig \<le> ms_view msg Sig" by metis
  then show ?thesis by (simp add: knows_more_def)
qed

lemma knows_more_cas:
  assumes "ar_mem_ok a" and "ra_cas succ fail n e new St (ar_mem a) (ar_views a t) = (r, m, V)"
  shows "knows_more a (ar_goto t pc m V a)"
proof -
  note d = ar_memD [OF assms(1)]
  from assms(2) d(2) d(1) d(4) show ?thesis
  proof (cases rule: ra_cas_cases)
    case Ok
    from knows_more_rmw [OF assms(1) Ok(3)] show ?thesis .
  next
    case Err
    then show ?thesis by (simp add: knows_more_def)
  qed
qed

lemma knows_more_slot:
  assumes "ar_inv a (Some t)"
  shows "knows_more a (ar_slot_access t pc x a)"
  using assms
  by (auto simp: knows_more_def ar_slot_access_def plain_access_def Let_def ar_inv_def slot_known_def)

lemma ar_step_knows:
  assumes "ar_inv a ow"
  shows "knows_more a (ar_step n t a)"
proof -
  have mo: "ar_mem_ok a" using assms by (simp add: ar_inv_def)
  have slot: "knows_more a (ar_slot_access t pc x a)" if "owner (ar_pcs a t)" for pc x
    using knows_more_slot ar_inv_owner [OF assms that] assms by metis
  show ?thesis
  proof (cases "ar_pcs a t")
    case (RegCas w)
    with knows_more_cas [OF mo] show ?thesis by (auto simp: ar_step_def ar_reg_cas_def Let_def split: prod.split)
  next
    case (RegRelease w)
    with knows_more_cas [OF mo] show ?thesis
      by (auto simp: ar_step_def ar_reg_release_def split: prod.split sum.split)
  next
    case (RegReset r)
    with knows_more_rmw [OF mo] show ?thesis by (auto simp: ar_step_def ar_reset_def split: prod.split)
  next
    case TakeOr
    with knows_more_rmw [OF mo] show ?thesis by (auto simp: ar_step_def ar_take_or_def split: prod.split)
  next
    case (TakeRelease r)
    with knows_more_rmw [OF mo] show ?thesis by (auto simp: ar_step_def ar_take_release_def split: prod.split)
  qed (use slot in \<open>simp_all add: ar_step_def ar_invoke_def knows_more_def\<close>)
qed

section \<open>Property\<close>

text \<open>
  C9: the orderings of \<open>atomic_waker.rs\<close> suffice: whatever the interleaving of any number of threads and whatever old
  states a failing \<open>compare_exchange\<close> reads, no two threads race on the slot, there is at most one thread (\<open>ow\<close>) at
  a point of the code that touches it, and no \<open>debug_assert\<close> fails.
\<close>

theorem waker_orderings_suffice:
  "\<not> ar_race (ar_run acts ar_new) \<and>
   (\<exists>ow. \<forall>t. owner (ar_pcs (ar_run acts ar_new) t) = (ow = Some t) \<and> ar_pcs (ar_run acts ar_new) t \<noteq> Panicked)"
proof -
  from ar_inv_run [OF ar_inv_new, of acts] obtain ow where "ar_inv (ar_run acts ar_new) ow" by blast
  then show ?thesis by (auto simp: ar_inv_def owns_def)
qed

end
