(* ===== verification/Wait_Ra.thy ===== *)
theory Wait_Ra
  imports Waker_Ra Channel_Spsc
begin

text \<open>
  The two futures of \<open>crates/px4-workqueue/src/channel.rs\<close> over the memory of \<open>Ra_Memory\<close>, with their
  \<open>AtomicWaker\<close> as in \<open>Waker_Ra\<close>. On one side (thread 1) \<open>Recv::poll\<close> waits for \<open>tail\<close> to move, or \<open>Send::poll\<close> for \<open>head\<close>; on the
  other (thread 0) \<open>try_send\<close>, or \<open>try_recv\<close>, publishes that counter, the location \<open>Sig\<close>, by a release store and calls \<open>wake\<close>.
  The waiting side looks at the counter, registers, looks again and parks. The slots are in \<open>Channel_Ra\<close>.
\<close>

section \<open>State and steps\<close>

text \<open>Who waits, and when it has to: the receiver of an empty channel, the sender of a full one.\<close>

datatype side = RecvSide | SendSide

fun blocked :: "side \<Rightarrow> usize \<Rightarrow> usize \<Rightarrow> usize \<Rightarrow> bool" where
  "blocked RecvSide N head tail = (head = tail)"
| "blocked SendSide N tail head = (tail - head \<ge> N)"

text \<open>When the other side moves its counter: a sender with room, a receiver with a value.\<close>

fun may_publish :: "side \<Rightarrow> usize \<Rightarrow> usize \<Rightarrow> usize \<Rightarrow> bool" where
  "may_publish RecvSide N head tail = (tail - head < N)"
| "may_publish SendSide N tail head = (head \<noteq> tail)"

text \<open>The waiting task: outside \<open>poll\<close>, inside it with the first look behind it, or parked after \<open>Pending\<close>.\<close>

datatype rv_pc = RvOut | RvReg | RvParked

text \<open>
  \<open>rv_taken\<close> is the number of values the waiting side has received, or sent, so its own counter
  is its \<open>of_nat\<close>.
\<close>

record recv_sys =
  rv_aw :: aw_ra
  rv_pc :: rv_pc
  rv_taken :: nat

definition recv_new :: recv_sys where
  "recv_new = \<lparr>rv_aw = ar_new, rv_pc = RvOut, rv_taken = 0\<rparr>"

text \<open>The counter as the thread \<open>t\<close> loads it.\<close>

definition look :: "atomic_ordering \<Rightarrow> nat \<Rightarrow> nat \<Rightarrow> aw_ra \<Rightarrow> usize \<times> aw_ra" where
  "look ord n t a =
     (case ra_load ord n Sig (ar_mem a) (ar_views a t) of (v, V) \<Rightarrow> (v, a\<lparr>ar_views := (ar_views a)(t := V)\<rparr>))"

text \<open>
  \<open>tail.store(tail.wrapping_add(1), Release)\<close>, or the same of \<open>head\<close>, and the call of \<open>wake\<close>. The guard takes the
  newest counter of the waiting side, where the code may have loaded an older one and go on less
  often.
\<close>

definition rv_publish :: "side \<Rightarrow> usize \<Rightarrow> recv_sys \<Rightarrow> recv_sys" where
  "rv_publish d N s =
     (case look Relaxed 0 0 (rv_aw s) of
        (tail, a) \<Rightarrow>
          if ar_pcs a 0 = Idle \<and> may_publish d N (of_nat (rv_taken s)) tail
          then (case ra_store Release Sig (tail + 1) (ar_mem a) (ar_views a 0) of
                  (m, V) \<Rightarrow> s\<lparr>rv_aw := ar_call 0 TakeOr (a\<lparr>ar_mem := m, ar_views := (ar_views a)(0 := V)\<rparr>)\<rparr>)
          else s)"

text \<open>
  \<open>poll\<close> up to the call of \<open>register\<close>. The record of the calls of \<open>wake\<close> starts anew, since the
  dispatcher has taken the task out of the queue.
\<close>

definition rv_poll :: "side \<Rightarrow> usize \<Rightarrow> nat \<Rightarrow> waker \<Rightarrow> recv_sys \<Rightarrow> recv_sys" where
  "rv_poll d N n w s =
     (if rv_pc s = RvReg then s
      else case look Acquire n 1 ((rv_aw s)\<lparr>ar_woken := []\<rparr>) of
             (tail, a) \<Rightarrow>
               if \<not> blocked d N (of_nat (rv_taken s)) tail then s\<lparr>rv_aw := a, rv_taken := rv_taken s + 1, rv_pc := RvOut\<rparr>
               else s\<lparr>rv_aw := ar_call 1 (RegCas w) a, rv_pc := RvReg\<rparr>)"

text \<open>The second look, once \<open>register\<close> has returned.\<close>

definition rv_recheck :: "side \<Rightarrow> usize \<Rightarrow> nat \<Rightarrow> recv_sys \<Rightarrow> recv_sys" where
  "rv_recheck d N n s =
     (if rv_pc s = RvReg \<and> ar_pcs (rv_aw s) 1 = Idle
      then (case look Acquire n 1 (rv_aw s) of
              (tail, a) \<Rightarrow>
                if \<not> blocked d N (of_nat (rv_taken s)) tail then s\<lparr>rv_aw := a, rv_taken := rv_taken s + 1, rv_pc := RvOut\<rparr>
                else s\<lparr>rv_aw := a, rv_pc := RvParked\<rparr>)
      else s)"

datatype rv_act = RvPublish | RvPoll nat waker | RvRecheck nat | RvPublisher nat | RvWaiter nat

fun rv_do :: "side \<Rightarrow> usize \<Rightarrow> rv_act \<Rightarrow> recv_sys \<Rightarrow> recv_sys" where
  "rv_do d N RvPublish s = rv_publish d N s"
| "rv_do d N (RvPoll n w) s = rv_poll d N n w s"
| "rv_do d N (RvRecheck n) s = rv_recheck d N n s"
| "rv_do d N (RvPublisher n) s = s\<lparr>rv_aw := ar_step n 0 (rv_aw s)\<rparr>"
| "rv_do d N (RvWaiter n) s = s\<lparr>rv_aw := ar_step n 1 (rv_aw s)\<rparr>"

definition rv_run :: "side \<Rightarrow> usize \<Rightarrow> rv_act list \<Rightarrow> recv_sys \<Rightarrow> recv_sys" where
  "rv_run d N acts s = fold (rv_do d N) acts s"

text \<open>The number of entries published, sent or received.\<close>

definition published :: "aw_ra \<Rightarrow> nat" where
  "published a = length (mm_hist (ar_mem a) Sig) - 1"

section \<open>Invariant\<close>

text \<open>The publishing side only wakes, the waiting side only registers; a registered waker is in the slot until it is taken.\<close>

fun wake_side :: "aw_pc \<Rightarrow> bool" where
  "wake_side Idle = True"
| "wake_side TakeOr = True"
| "wake_side TakeSlot = True"
| "wake_side (TakeRelease r) = True"
| "wake_side (Invoke r) = True"
| "wake_side pc = False"

fun reg_side :: "waker option \<Rightarrow> aw_pc \<Rightarrow> bool" where
  "reg_side x Idle = True"
| "reg_side x (RegCas w) = True"
| "reg_side x (RegWrite w) = True"
| "reg_side x (RegRelease w) = (x \<noteq> None)"
| "reg_side x RegDrain = (x \<noteq> None)"
| "reg_side x (RegReset r) = (r \<noteq> None)"
| "reg_side x (RegSelf w) = True"
| "reg_side x (Invoke r) = (r \<noteq> None)"
| "reg_side x pc = False"

text \<open>The entry \<open>k\<close> of the counter is the number \<open>k\<close>.\<close>

definition sig_ok :: "aw_ra \<Rightarrow> bool" where
  "sig_ok a \<longleftrightarrow>
     (\<forall>k \<le> published a. ms_value (mm_hist (ar_mem a) Sig ! k) = of_nat k \<and> ms_view (mm_hist (ar_mem a) Sig ! k) Sig \<le> k) \<and>
     ar_views a 0 Sig = published a"

text \<open>
  After the \<open>fetch_or\<close> of a wake the newest state carries all that was published before it. Outside its own
  registrations the waiting side sees no state of a registration.
\<close>

definition told :: "aw_ra \<Rightarrow> bool" where
  "told a \<longleftrightarrow> (ar_pcs a 0 \<noteq> TakeOr \<longrightarrow> published a \<le> ms_view (last (ar_hist a)) Sig)"

definition fresh :: "aw_ra \<Rightarrow> bool" where
  "fresh a \<longleftrightarrow>
     (\<not> reg_owner (ar_pcs a 1) \<longrightarrow>
        (\<forall>k < length (ar_hist a). ar_views a 1 St \<le> k \<longrightarrow> ms_value (ar_hist a ! k) \<in> {WAITING, WAKING}))"

definition rva_inv :: "aw_ra \<Rightarrow> bool" where
  "rva_inv a \<longleftrightarrow>
     (\<exists>ow. ar_inv a ow) \<and> sig_ok a \<and> wake_side (ar_pcs a 0) \<and> reg_side (ar_slot a) (ar_pcs a 1) \<and> told a \<and> fresh a"

text \<open>
  A registration that has gone through: either the waiting side knows of all that is published and its waker is in
  the slot, or a wake is on its way to it.
\<close>

definition handed :: "aw_ra \<Rightarrow> bool" where
  "handed a \<longleftrightarrow>
     (case ar_pcs a 0 of
        TakeOr \<Rightarrow> ms_value (last (ar_hist a)) = WAITING \<and> ar_slot a \<noteq> None
      | TakeSlot \<Rightarrow> ar_slot a \<noteq> None
      | TakeRelease r \<Rightarrow> r \<noteq> None
      | Invoke (Some w) \<Rightarrow> True
      | _ \<Rightarrow> ms_value (last (ar_hist a)) = WAITING \<and> ar_slot a \<noteq> None \<and> ar_views a 1 Sig = published a)"

lemma sig_len: "ar_mem_ok a \<Longrightarrow> length (mm_hist (ar_mem a) Sig) = Suc (published a)"
  by (cases "mm_hist (ar_mem a) Sig") (auto simp: published_def ar_mem_ok_def)

lemma views_le_published: "ar_mem_ok a \<Longrightarrow> ar_views a t Sig \<le> published a"
  using sig_len [of a] by (auto simp: ar_mem_ok_def view_ok_def less_Suc_eq_le dest!: spec [of _ t] spec [of _ Sig])

lemma sig_ok_more:
  assumes "sig_ok a" and "knows_more a b" and "ar_mem_ok b"
  shows "sig_ok b" and "published b = published a"
proof -
  show p: "published b = published a" using assms(2) by (simp add: published_def knows_more_def)
  have "ar_views a 0 Sig \<le> ar_views b 0 Sig" using assms(2) by (simp add: knows_more_def)
  then have "ar_views b 0 Sig = published b"
    using assms(1) views_le_published [OF assms(3), of 0] p by (simp add: sig_ok_def)
  then show "sig_ok b" using assms(1,2) p by (simp add: sig_ok_def knows_more_def)
qed

lemma told_more:
  assumes "told a" and "knows_more a b" and "ar_pcs a 0 \<noteq> TakeOr"
  shows "told b"
proof -
  have "published b = published a" using assms(2) by (simp add: published_def knows_more_def)
  then show ?thesis using assms by (auto simp: told_def knows_more_def)
qed

lemma fresh_same:
  assumes "fresh a" and "knows_more a b" and "ar_hist b = ar_hist a" and "\<not> reg_owner (ar_pcs b 1) \<longrightarrow> \<not> reg_owner (ar_pcs a 1)"
  shows "fresh b"
proof -
  have "ar_views a 1 St \<le> ar_views b 1 St" using assms(2) by (simp add: knows_more_def)
  then show ?thesis using assms(1,3,4) by (auto simp: fresh_def)
qed

lemma fresh_append:
  assumes "fresh a" and "knows_more a b" and "ar_hist b = ar_hist a @ [msg]" and "ms_value msg \<in> {0, 2} \<or> reg_owner (ar_pcs b 1)"
    and "\<not> reg_owner (ar_pcs b 1) \<longrightarrow> \<not> reg_owner (ar_pcs a 1) \<or> ar_views b 1 St = length (ar_hist a)"
  shows "fresh b"
proof -
  have "ar_views a 1 St \<le> ar_views b 1 St" using assms(2) by (simp add: knows_more_def)
  then show ?thesis using assms(1,3-5) by (auto simp: fresh_def nth_append less_Suc_eq)
qed

lemma reg_owner_owner: "reg_owner pc \<Longrightarrow> owner pc"
  by (cases pc) auto

section \<open>The steps of the publishing side\<close>

lemma publisher_take_or:
  assumes inv: "rva_inv a" and pc: "ar_pcs a 0 = TakeOr"
  shows "told (ar_take_or 0 a) \<and> fresh (ar_take_or 0 a) \<and>
    (handed a \<longrightarrow> handed (ar_take_or 0 a)) \<and> ar_slot (ar_take_or 0 a) = ar_slot a \<and>
    wake_side (ar_pcs (ar_take_or 0 a) 0)"
proof -
  from inv obtain ow where ai: "ar_inv a ow" by (auto simp: rva_inv_def)
  then have mo: "ar_mem_ok a" by (simp add: ar_inv_def)
  note d = ar_memD [OF mo]
  obtain v m V where rm: "ra_rmw AcqRel (\<lambda>v. v OR WAKING) St (ar_mem a) (ar_views a 0) = (v, m, V)"
    by (metis surj_pair)
  from ra_rmw_spec [OF rm d(2) d(1) d(4)] obtain msg where
    m: "mm_hist m = (mm_hist (ar_mem a))(St := ar_hist a @ [msg])"
      "ms_value msg = v OR WAKING" "v = ms_value (last (ar_hist a))"
    and up: "ar_views a 0 Sig \<le> V Sig" and pass: "releases AcqRel \<Longrightarrow> V Sig \<le> ms_view msg Sig" by metis
  let ?b = "ar_take_or 0 a"
  let ?pc = "if v = WAITING then TakeSlot else Invoke None"
  have b: "?b = ar_goto 0 ?pc m V a" using rm by (simp add: ar_take_or_def)
  have more: "knows_more a ?b" unfolding b by (rule knows_more_rmw [OF mo rm])
  have "published a \<le> ms_view msg Sig" using inv up pass by (auto simp: rva_inv_def sig_ok_def)
  then have "told ?b" by (simp add: told_def b m(1) published_def)
  moreover have "fresh ?b"
  proof (rule fresh_append [OF _ more, of msg])
    show "fresh a" using inv by (simp add: rva_inv_def)
    show "ar_hist ?b = ar_hist a @ [msg]" by (simp add: b m(1))
    have "v \<in> {0, 2} \<or> reg_owner (ar_pcs a 1)"
    proof (cases "reg_owner (ar_pcs a 1)")
      case False
      have "ar_views a 1 St < length (ar_hist a)" using d(2) [of 1] d(4) unfolding view_ok_def by blast
      then show ?thesis using inv False m(3) d(4) by (auto simp: rva_inv_def fresh_def last_conv_nth)
    qed simp
    then show "ms_value msg \<in> {0, 2} \<or> reg_owner (ar_pcs ?b 1)" by (auto simp: b m(2))
  qed (simp add: b)
  ultimately show ?thesis using pc m(3) by (auto simp: handed_def b)
qed

lemma publisher_release:
  assumes inv: "rva_inv a" and pc: "ar_pcs a 0 = TakeRelease r"
  shows "told (ar_step n 0 a) \<and> fresh (ar_step n 0 a) \<and> ar_pcs (ar_step n 0 a) 0 = Invoke r \<and>
    ar_slot (ar_step n 0 a) = ar_slot a"
proof -
  from inv obtain ow where ai: "ar_inv a ow" by (auto simp: rva_inv_def)
  then have mo: "ar_mem_ok a" and own: "owns (sc_part a) ow" by (simp_all add: ar_inv_def)
  note d = ar_memD [OF mo]
  let ?b = "ar_step n 0 a"
  have more: "knows_more a ?b" by (rule ar_step_knows [OF ai])
  have ow: "ow = Some 0" using ar_inv_owner [OF ai] pc by simp
  have "ms_value (last (ar_hist a)) = 2" using ar_inv_state [OF ai [unfolded ow]] pc by (simp add: owner_state_def)
  moreover obtain v m V where rm: "ra_rmw Release (\<lambda>v. v AND NOT WAKING) St (ar_mem a) (ar_views a 0) = (v, m, V)"
    by (metis surj_pair)
  from ra_rmw_spec [OF rm d(2) d(1) d(4)] obtain msg where
    m: "mm_hist m = (mm_hist (ar_mem a))(St := ar_hist a @ [msg])"
      "ms_value msg = v AND NOT WAKING" "v = ms_value (last (ar_hist a))" by metis
  ultimately have msg: "ms_value msg = 0" by simp
  have b: "ar_pcs ?b 0 = Invoke r" "ar_slot ?b = ar_slot a" "ar_hist ?b = ar_hist a @ [msg]"
    using pc rm m by (auto simp: ar_step_def ar_take_release_def)
  have "told ?b" using inv by (intro told_more [OF _ more]) (simp_all add: rva_inv_def pc)
  moreover have "\<not> owner (ar_pcs a 1)" using own ow by (auto simp: owns_def)
  then have "\<not> reg_owner (ar_pcs a 1)" using reg_owner_owner by blast
  moreover have "ar_pcs ?b 1 = ar_pcs a 1" by (rule ar_step_other) simp
  ultimately have "told ?b" "fresh ?b" using inv msg
    by (auto intro!: fresh_append [OF _ more b(3)] simp: rva_inv_def)
  with b show ?thesis by simp
qed

lemma rva_inv_publisher:
  assumes inv: "rva_inv a"
  shows "rva_inv (ar_step n 0 a) \<and>
    (ar_pcs a 1 = Idle \<and> handed a \<longrightarrow> handed (ar_step n 0 a) \<or> ar_woken (ar_step n 0 a) \<noteq> [])"
proof -
  from inv obtain ow where ai: "ar_inv a ow" by (auto simp: rva_inv_def)
  then have mo: "ar_mem_ok a" and own: "owns (sc_part a) ow" by (simp_all add: ar_inv_def)
  note d = ar_memD [OF mo]
  let ?b = "ar_step n 0 a"
  have more: "knows_more a ?b" by (rule ar_step_knows [OF ai])
  from ar_inv_step [OF ai] obtain ow' where bi: "ar_inv ?b ow'" by blast
  then have bm: "ar_mem_ok ?b" by (simp add: ar_inv_def)
  have sig: "sig_ok ?b" using inv sig_ok_more(1) [OF _ more bm] by (simp add: rva_inv_def)
  have one: "ar_pcs ?b 1 = ar_pcs a 1" by (rule ar_step_other) simp
  have parts: "rva_inv ?b" if "wake_side (ar_pcs ?b 0)" "reg_side (ar_slot ?b) (ar_pcs a 1)" "told ?b" "fresh ?b"
    using that bi sig one by (auto simp: rva_inv_def)
  have old: "told a" "fresh a" "reg_side (ar_slot a) (ar_pcs a 1)" using inv by (simp_all add: rva_inv_def)
  show ?thesis
  proof (cases "ar_pcs a 0")
    case TakeOr
    then have "?b = ar_take_or 0 a" by (simp add: ar_step_def)
    with publisher_take_or [OF inv TakeOr] parts old(3) show ?thesis by auto
  next
    case TakeSlot
    obtain race m V where acc: "plain_access Sl (ar_mem a) (ar_views a 0) = (race, m, V)" by (metis surj_pair)
    have b: "ar_pcs ?b 0 = TakeRelease (ar_slot a)" "ar_slot ?b = None" "ar_hist ?b = ar_hist a"
      using TakeSlot acc by (auto simp: ar_step_def ar_slot_access_def plain_access_def Let_def)
    have "ow = Some 0" using ar_inv_owner [OF ai] TakeSlot by simp
    then have "\<not> owner (ar_pcs a 1)" using own by (auto simp: owns_def)
    then have "reg_side None (ar_pcs a 1)" using old(3) by (cases "ar_pcs a 1") auto
    moreover have "told ?b" by (rule told_more [OF old(1) more]) (simp add: TakeSlot)
    moreover have "fresh ?b" by (rule fresh_same [OF old(2) more b(3)]) (use one in simp)
    ultimately show ?thesis using parts b TakeSlot by (simp add: handed_def)
  next
    case (TakeRelease r)
    from publisher_release [OF inv this, of n] parts old(3) TakeRelease show ?thesis by (auto simp: handed_def)
  next
    case (Invoke r)
    have b: "ar_pcs ?b 0 = Idle" "ar_slot ?b = ar_slot a" "ar_hist ?b = ar_hist a"
      "ar_woken ?b = ar_woken a @ (case r of None \<Rightarrow> [] | Some w \<Rightarrow> [w])" "ar_views ?b = ar_views a"
      "published ?b = published a"
      using Invoke by (auto simp: ar_step_def ar_invoke_def published_def)
    have "told ?b" by (rule told_more [OF old(1) more]) (simp add: Invoke)
    moreover have "fresh ?b" by (rule fresh_same [OF old(2) more b(3)]) (use one in simp)
    ultimately show ?thesis using parts b old(3) Invoke by (cases r) (auto simp: handed_def)
  qed (use inv in \<open>auto simp: ar_step_def rva_inv_def\<close>)
qed


section \<open>The steps of the waiting side\<close>

lemma waiter_cas:
  assumes inv: "rva_inv a" and pc: "ar_pcs a 1 = RegCas w"
  shows "fresh (ar_reg_cas n 1 w a) \<and> ar_slot (ar_reg_cas n 1 w a) = ar_slot a \<and>
    (ar_pcs (ar_reg_cas n 1 w a) 1 = RegWrite w \<or> ar_pcs (ar_reg_cas n 1 w a) 1 = RegSelf w)"
proof -
  from inv obtain ow where ai: "ar_inv a ow" by (auto simp: rva_inv_def)
  then have mo: "ar_mem_ok a" by (simp add: ar_inv_def)
  note d = ar_memD [OF mo]
  let ?b = "ar_reg_cas n 1 w a"
  have fr: "fresh a" using inv by (simp add: rva_inv_def)
  have more: "knows_more a ?b" using ar_step_knows [OF ai, of n 1] pc by (simp add: ar_step_def)
  obtain r m V where cas: "ra_cas Acquire Acquire n WAITING REGISTERING St (ar_mem a) (ar_views a 1) = (r, m, V)"
    by (metis surj_pair)
  from cas d(2) d(1) d(4) show ?thesis
  proof (cases rule: ra_cas_cases)
    case Ok
    from ra_rmw_spec [OF Ok(3) d(2) d(1) d(4)] obtain msg where
      m: "mm_hist m = (mm_hist (ar_mem a))(St := ar_hist a @ [msg])" by metis
    have b: "?b = ar_goto 1 (RegWrite w) m V a" using cas Ok(1) by (simp add: ar_reg_cas_def)
    have "ar_hist ?b = ar_hist a @ [msg]" "ar_pcs ?b 1 = RegWrite w" unfolding b by (simp_all add: m)
    then have "fresh ?b" by (intro fresh_append [OF fr more, of msg]) simp_all
    then show ?thesis unfolding b by simp
  next
    case (Err k v)
    have "v \<in> {0, 2}" using fr Err(4-6) pc by (auto simp: fresh_def)
    then have b: "?b = ar_goto 1 (RegSelf w) m V a" using cas Err(1,2) by (auto simp: ar_reg_cas_def)
    have "ar_hist ?b = ar_hist a" unfolding b by (simp add: Err(3))
    then have "fresh ?b" using pc by (intro fresh_same [OF fr more]) simp_all
    then show ?thesis unfolding b by simp
  qed
qed

lemma waiter_release:
  assumes inv: "rva_inv a" and pc: "ar_pcs a 1 = RegRelease w"
  shows "fresh (ar_reg_release n 1 a) \<and> ar_slot (ar_reg_release n 1 a) = ar_slot a \<and>
    (ar_pcs (ar_reg_release n 1 a) 1 = RegDrain \<or>
     ar_pcs (ar_reg_release n 1 a) 1 = Idle \<and> handed (ar_reg_release n 1 a))"
proof -
  from inv obtain ow where ai: "ar_inv a ow" by (auto simp: rva_inv_def)
  then have mo: "ar_mem_ok a" and own: "owns (sc_part a) ow" by (simp_all add: ar_inv_def)
  note d = ar_memD [OF mo]
  have ow: "ow = Some 1" using ar_inv_owner [OF ai] pc by simp
  let ?b = "ar_reg_release n 1 a"
  have fr: "fresh a" and full: "ar_slot a \<noteq> None" using inv pc by (auto simp: rva_inv_def)
  have more: "knows_more a ?b" using ar_step_knows [OF ai, of n 1] pc by (simp add: ar_step_def)
  from ar_inv_step [OF ai, of n 1] pc obtain ow' where "ar_inv ?b ow'" by (auto simp: ar_step_def)
  then have bm: "ar_mem_ok ?b" by (simp add: ar_inv_def)
  obtain r m V where cas: "ra_cas AcqRel Acquire n REGISTERING WAITING St (ar_mem a) (ar_views a 1) = (r, m, V)"
    by (metis surj_pair)
  from cas d(2) d(1) d(4) show ?thesis
  proof (cases rule: ra_cas_cases)
    case Ok
    from ra_rmw_spec [OF Ok(3) d(2) d(1) d(4)] obtain msg where
      m: "mm_hist m = (mm_hist (ar_mem a))(St := ar_hist a @ [msg])" "ms_value msg = WAITING"
        "V St = length (ar_hist a)"
      and learn: "acquires AcqRel \<Longrightarrow> ms_view (last (ar_hist a)) Sig \<le> V Sig" by metis
    have b: "?b = ar_goto 1 Idle m V a" using cas Ok(1) by (simp add: ar_reg_release_def)
    have "ar_hist ?b = ar_hist a @ [msg]" "ar_views ?b 1 St = length (ar_hist a)" unfolding b by (simp_all add: m)
    then have fresh: "fresh ?b" using m(2) by (intro fresh_append [OF fr more, of msg]) simp_all
    have pub: "published ?b = published a" using more by (simp add: published_def knows_more_def)
    have all: "V Sig = published a" if "ar_pcs a 0 \<noteq> TakeOr"
    proof -
      have "published a \<le> ms_view (last (ar_hist a)) Sig" using inv that by (simp add: rva_inv_def told_def)
      then have "published a \<le> V Sig" using learn by simp
      moreover have "V Sig \<le> published a" using views_le_published [OF bm, of 1] unfolding pub unfolding b by simp
      ultimately show ?thesis by simp
    qed
    have "\<not> owner (ar_pcs a 0)" using own ow by (auto simp: owns_def)
    moreover have "wake_side (ar_pcs a 0)" using inv by (simp add: rva_inv_def)
    ultimately have "handed ?b"
      using all pub full m unfolding b by (cases "ar_pcs a 0") (auto simp: handed_def split: option.split)
    with fresh show ?thesis unfolding b by simp
  next
    case (Err k v)
    have "sees_own a 1" using ai ow pc by (simp add: ar_inv_def)
    then have "v = 3" using Err(2,4,5,6) by (auto simp: sees_own_def)
    then have b: "?b = ar_goto 1 RegDrain m V a" using cas Err(1) by (simp add: ar_reg_release_def)
    have "ar_hist ?b = ar_hist a" "ar_pcs ?b 1 = RegDrain" unfolding b by (simp_all add: Err(3))
    then have "fresh ?b" by (intro fresh_same [OF fr more]) simp_all
    then show ?thesis unfolding b by simp
  qed
qed

lemma waiter_reset:
  assumes inv: "rva_inv a" and pc: "ar_pcs a 1 = RegReset r"
  shows "fresh (ar_step n 1 a) \<and> ar_pcs (ar_step n 1 a) 1 = Invoke r"
proof -
  from inv obtain ow where ai: "ar_inv a ow" by (auto simp: rva_inv_def)
  then have mo: "ar_mem_ok a" by (simp add: ar_inv_def)
  note d = ar_memD [OF mo]
  obtain v m V where rm: "ra_rmw AcqRel (\<lambda>_. WAITING) St (ar_mem a) (ar_views a 1) = (v, m, V)" by (metis surj_pair)
  from ra_rmw_spec [OF rm d(2) d(1) d(4)] obtain msg where
    m: "mm_hist m = (mm_hist (ar_mem a))(St := ar_hist a @ [msg])" "ms_value msg = WAITING"
      "V St = length (ar_hist a)" by metis
  have b: "ar_step n 1 a = ar_goto 1 (Invoke r) m V a" using pc rm by (simp add: ar_step_def ar_reset_def)
  have "ar_hist (ar_step n 1 a) = ar_hist a @ [msg]" "ar_views (ar_step n 1 a) 1 St = length (ar_hist a)"
    unfolding b by (simp_all add: m)
  then have "fresh (ar_step n 1 a)" using m(2) inv
    by (intro fresh_append [OF _ ar_step_knows [OF ai, of n 1], of msg]) (simp_all add: rva_inv_def)
  then show ?thesis unfolding b by simp
qed

lemma rva_inv_waiter:
  assumes inv: "rva_inv a"
  shows "rva_inv (ar_step n 1 a) \<and>
    (ar_pcs a 1 \<noteq> Idle \<and> ar_pcs (ar_step n 1 a) 1 = Idle \<longrightarrow> handed (ar_step n 1 a) \<or> ar_woken (ar_step n 1 a) \<noteq> [])"
proof -
  from inv obtain ow where ai: "ar_inv a ow" by (auto simp: rva_inv_def)
  let ?b = "ar_step n 1 a"
  have more: "knows_more a ?b" by (rule ar_step_knows [OF ai])
  from ar_inv_step [OF ai] obtain ow' where bi: "ar_inv ?b ow'" by blast
  then have bm: "ar_mem_ok ?b" by (simp add: ar_inv_def)
  have sig: "sig_ok ?b" using inv sig_ok_more(1) [OF _ more bm] by (simp add: rva_inv_def)
  have zero: "ar_pcs ?b 0 = ar_pcs a 0" by (rule ar_step_other) simp
  have "published ?b = published a" using more by (simp add: published_def knows_more_def)
  then have told: "told ?b" using inv more zero by (auto simp: rva_inv_def told_def knows_more_def)
  have parts: "rva_inv ?b" if "reg_side (ar_slot ?b) (ar_pcs ?b 1)" "fresh ?b"
    using that bi sig zero told inv by (auto simp: rva_inv_def)
  have old: "fresh a" "reg_side (ar_slot a) (ar_pcs a 1)" using inv by (simp_all add: rva_inv_def)
  show ?thesis
  proof (cases "ar_pcs a 1")
    case (RegCas w)
    then have "?b = ar_reg_cas n 1 w a" by (simp add: ar_step_def)
    with waiter_cas [OF inv RegCas, of n] parts show ?thesis by auto
  next
    case (RegRelease w)
    then have "?b = ar_reg_release n 1 a" by (simp add: ar_step_def)
    with waiter_release [OF inv RegRelease, of n] parts old(2) RegRelease show ?thesis by auto
  next
    case (RegWrite w)
    then have b: "ar_pcs ?b 1 = RegRelease w" "ar_slot ?b = Some w" "ar_hist ?b = ar_hist a"
      by (auto simp: ar_step_def ar_slot_access_def plain_access_def Let_def)
    have "fresh ?b" by (rule fresh_same [OF old(1) more b(3)]) (use b(1) in simp)
    then show ?thesis using parts b by simp
  next
    case RegDrain
    then have b: "ar_pcs ?b 1 = RegReset (ar_slot a)" "ar_slot ?b = None" "ar_hist ?b = ar_hist a"
      by (auto simp: ar_step_def ar_slot_access_def plain_access_def Let_def)
    have "fresh ?b" by (rule fresh_same [OF old(1) more b(3)]) (use b(1) in simp)
    then show ?thesis using parts b old(2) RegDrain by simp
  next
    case (RegReset r)
    with waiter_reset [OF inv RegReset, of n] parts old(2) show ?thesis by (auto simp: ar_step_def ar_reset_def split: prod.split)
  next
    case (RegSelf w)
    then have b: "ar_pcs ?b 1 = Idle" "ar_hist ?b = ar_hist a" "ar_woken ?b \<noteq> []"
      by (auto simp: ar_step_def ar_invoke_def)
    have "fresh ?b" by (rule fresh_same [OF old(1) more b(2)]) (use RegSelf in simp)
    then show ?thesis using parts b by simp
  next
    case (Invoke r)
    then have b: "ar_pcs ?b 1 = Idle" "ar_hist ?b = ar_hist a" "ar_woken ?b \<noteq> []"
      using old(2) by (auto simp: ar_step_def ar_invoke_def)
    have "fresh ?b" by (rule fresh_same [OF old(1) more b(2)]) (use Invoke in simp)
    then show ?thesis using parts b by simp
  qed (use inv in \<open>auto simp: ar_step_def rva_inv_def\<close>)
qed


section \<open>The system\<close>

text \<open>The task has registered and waits for a wake, and none has come since its poll began.\<close>

definition waits :: "recv_sys \<Rightarrow> bool" where
  "waits s \<longleftrightarrow>
     (rv_pc s = RvParked \<or> rv_pc s = RvReg \<and> ar_pcs (rv_aw s) 1 = Idle) \<and> ar_woken (rv_aw s) = []"

text \<open>The counters: of the waiting side, the newest entry it knows of, and the number of entries.\<close>

fun counts_ok :: "side \<Rightarrow> nat \<Rightarrow> nat \<Rightarrow> nat \<Rightarrow> nat \<Rightarrow> bool" where
  "counts_ok RecvSide n c k p = (c \<le> k \<and> p \<le> c + n)"
| "counts_ok SendSide n c k p = (p \<le> c \<and> c \<le> k + n)"

text \<open>Empty: all entries received; full: \<open>n\<close> more sent than received.\<close>

fun nothing_to_do :: "side \<Rightarrow> nat \<Rightarrow> nat \<Rightarrow> nat \<Rightarrow> bool" where
  "nothing_to_do RecvSide n received sent = (received = sent)"
| "nothing_to_do SendSide n sent received = (sent = received + n)"

definition rv_inv :: "side \<Rightarrow> nat \<Rightarrow> recv_sys \<Rightarrow> bool" where
  "rv_inv d n s \<longleftrightarrow>
     rva_inv (rv_aw s) \<and> (waits s \<longrightarrow> handed (rv_aw s)) \<and>
     counts_ok d n (rv_taken s) (ar_views (rv_aw s) 1 Sig) (published (rv_aw s)) \<and>
     (rv_pc s \<noteq> RvReg \<longrightarrow> ar_pcs (rv_aw s) 1 = Idle) \<and>
     (rv_pc s = RvParked \<longrightarrow> nothing_to_do d n (rv_taken s) (ar_views (rv_aw s) 1 Sig))"

lemma rv_inv_new: "rv_inv d n recv_new"
proof -
  have "\<exists>ow. ar_inv ar_new ow" using ar_inv_new by blast
  moreover have "counts_ok d n 0 0 0" by (cases d) simp_all
  ultimately show ?thesis
    by (simp add: rv_inv_def rva_inv_def recv_new_def waits_def)
       (simp add: ar_new_def mem_new_def sig_ok_def told_def fresh_def published_def)
qed

lemma rva_invD:
  assumes "rva_inv a"
  shows "ar_mem_ok a" "mem_ok (ar_mem a)" "view_ok (ar_mem a) (ar_views a t)" "mm_hist (ar_mem a) Sig \<noteq> []" "sig_ok a"
  using assms ar_memD [of a] by (auto simp: rva_inv_def ar_inv_def)

lemma rva_inv_woken: "rva_inv a \<Longrightarrow> rva_inv (a\<lparr>ar_woken := x\<rparr>)"
proof -
  assume inv: "rva_inv a"
  let ?b = "a\<lparr>ar_woken := x\<rparr>"
  from inv obtain ow where ai: "ar_inv a ow" by (auto simp: rva_inv_def)
  have "owns (sc_part ?b) ow \<longleftrightarrow> owns (sc_part a) ow" unfolding owns_def sc_part_sel by (simp cong: option.case_cong)
  moreover have "slot_known ?b ow \<longleftrightarrow> slot_known a ow" by (simp add: slot_known_def cong: option.case_cong)
  moreover have "sees_own ?b t \<longleftrightarrow> sees_own a t" for t by (simp add: sees_own_def)
  ultimately have "ar_inv ?b ow" using ai by (simp add: ar_inv_def ar_mem_ok_def)
  moreover have "sig_ok ?b = sig_ok a" "told ?b = told a" "fresh ?b = fresh a"
    by (simp_all add: sig_ok_def told_def fresh_def published_def)
  ultimately show ?thesis using inv by (auto simp: rva_inv_def)
qed

lemma rva_inv_register:
  assumes inv: "rva_inv b" and idle: "ar_pcs b 1 = Idle"
  shows "rva_inv (ar_call 1 (RegCas w) b)"
proof -
  let ?c = "ar_call 1 (RegCas w) b"
  from inv obtain ow where bi: "ar_inv b ow" by (auto simp: rva_inv_def)
  have "ar_inv ?c ow"
    by (rule ar_inv_outside [OF bi, of 1 "RegCas w" _ "ar_views b 1"])
       (use rva_invD(3) [OF inv, of 1] idle in simp_all)
  moreover have "sig_ok ?c = sig_ok b" "told ?c = told b" by (simp_all add: sig_ok_def told_def published_def)
  moreover have "fresh ?c = fresh b" using idle by (simp add: fresh_def)
  moreover have "ar_pcs ?c 1 = RegCas w" "ar_pcs ?c 0 = ar_pcs b 0" by simp_all
  ultimately show ?thesis using inv unfolding rva_inv_def by (metis reg_side.simps(2))
qed

text \<open>A load by the waiting side while it is outside the waker.\<close>

lemma rva_inv_look:
  assumes inv: "rva_inv a" and idle: "ar_pcs a t = Idle" and t: "t = 1" and lk: "look Acquire n t a = (v, b)"
  shows "rva_inv b \<and> ar_views a t Sig \<le> ar_views b t Sig \<and> v = of_nat (ar_views b t Sig) \<and>
    ar_views b t Sig \<le> published a \<and> published b = published a \<and> ar_pcs b = ar_pcs a \<and>
    ar_woken b = ar_woken a \<and> (handed a \<longrightarrow> handed b)"
proof -
  note d = rva_invD [OF inv]
  from lk obtain V where ld: "ra_load Acquire n Sig (ar_mem a) (ar_views a t) = (v, V)"
    and b: "b = a\<lparr>ar_views := (ar_views a)(t := V)\<rparr>" by (auto simp: look_def split: prod.splits)
  from ra_load_spec [OF ld d(3,4)] obtain k where k: "ar_views a t Sig \<le> k" "k < length (mm_hist (ar_mem a) Sig)"
    and v: "v = ms_value (mm_hist (ar_mem a) Sig ! k)"
    and V: "V = view_join ((ar_views a t)(Sig := k)) (ms_view (mm_hist (ar_mem a) Sig ! k))" by auto
  have kp: "k \<le> published a" using k(2) sig_len [OF d(1)] by simp
  then have "v = of_nat k" "ms_view (mm_hist (ar_mem a) Sig ! k) Sig \<le> k" using d(5) v by (auto simp: sig_ok_def)
  then have Vk: "V Sig = k" "v = of_nat k" by (simp_all add: V)
  have okV: "view_ok (ar_mem a) V" by (rule view_ok_load [OF ld d(3,2,4)])
  from inv obtain ow where ai: "ar_inv a ow" by (auto simp: rva_inv_def)
  have "ar_inv b ow"
    by (rule ar_inv_outside [OF ai, of t Idle _ V]) (use idle okV in \<open>auto simp: b fun_upd_idem\<close>)
  moreover have "sig_ok b" using d(5) t by (simp add: sig_ok_def published_def b)
  moreover have "ar_views a t St \<le> V St" by (simp add: V)
  then have "fresh b" using inv t by (auto simp: rva_inv_def fresh_def b)
  moreover have "told b" using inv by (simp add: rva_inv_def told_def published_def b)
  ultimately have "rva_inv b" using inv by (auto simp: rva_inv_def b)
  moreover have "published b = published a" by (simp add: published_def b)
  moreover have "handed a \<longrightarrow> handed b"
    using k(1) kp Vk t by (auto simp: handed_def b published_def split: aw_pc.split option.split)
  ultimately show ?thesis using k(1) kp Vk by (simp add: b)
qed

lemma blocked_counts:
  fixes N :: usize
  assumes "counts_ok d (unat N) c j p" and "j \<le> k" and "k \<le> p"
  shows "blocked d N (of_nat c) (of_nat k) \<longleftrightarrow> nothing_to_do d (unat N) c k"
proof (cases d)
  case RecvSide
  with assms counters_differ(2) [of c k N] show ?thesis by simp
next
  case SendSide
  with assms counters_differ(1) [of k c N] show ?thesis by (auto simp: word_le_nat_alt)
qed

lemma counts_publish:
  fixes N :: usize
  assumes "counts_ok d (unat N) c k p" and "k \<le> p" and "may_publish d N (of_nat c) (of_nat p)"
  shows "counts_ok d (unat N) c k (p + 1)"
proof (cases d)
  case RecvSide
  with assms counters_differ(1) [of c p N] show ?thesis by (auto simp: word_less_nat_alt)
next
  case SendSide
  with assms show ?thesis by (cases "p = c") auto
qed

lemma counts_take:
  "counts_ok d n c j p \<Longrightarrow> j \<le> k \<Longrightarrow> k \<le> p \<Longrightarrow> \<not> nothing_to_do d n c k \<Longrightarrow> counts_ok d n (c + 1) k p"
  by (cases d) auto

lemma counts_view: "counts_ok d n c j p \<Longrightarrow> j \<le> k \<Longrightarrow> counts_ok d n c k p"
  by (cases d) auto

lemma rv_inv_poll:
  fixes N :: usize
  assumes inv: "rv_inv d (unat N) s"
  shows "rv_inv d (unat N) (rv_poll d N n w s)"
proof (cases "rv_pc s = RvReg")
  case False
  let ?a = "(rv_aw s)\<lparr>ar_woken := []\<rparr>"
  obtain v b where lk: "look Acquire n 1 ?a = (v, b)" by (metis surj_pair)
  have idle: "ar_pcs (rv_aw s) 1 = Idle" using inv False by (simp add: rv_inv_def)
  have "rva_inv ?a" using inv by (simp add: rv_inv_def rva_inv_woken)
  from rva_inv_look [OF this _ refl lk] idle have b: "rva_inv b" "ar_views (rv_aw s) 1 Sig \<le> ar_views b 1 Sig"
    "v = of_nat (ar_views b 1 Sig)" "ar_views b 1 Sig \<le> published (rv_aw s)" "published b = published (rv_aw s)"
    "ar_pcs b = ar_pcs (rv_aw s)" by (auto simp: published_def)
  have c: "counts_ok d (unat N) (rv_taken s) (ar_views (rv_aw s) 1 Sig) (published (rv_aw s))"
    using inv by (simp add: rv_inv_def)
  note meet = blocked_counts [OF c b(2,4), folded b(3)]
  show ?thesis
  proof (cases "blocked d N (of_nat (rv_taken s)) v")
    case True
    have "rva_inv (ar_call 1 (RegCas w) b)" by (rule rva_inv_register [OF b(1)]) (use b(6) idle in simp)
    moreover have "rv_poll d N n w s = s\<lparr>rv_aw := ar_call 1 (RegCas w) b, rv_pc := RvReg\<rparr>"
      using True lk False by (simp add: rv_poll_def)
    ultimately show ?thesis using counts_view [OF c b(2)] b(5) by (simp add: rv_inv_def waits_def published_def)
  next
    case more: False
    then have "counts_ok d (unat N) (rv_taken s + 1) (ar_views b 1 Sig) (published (rv_aw s))"
      using counts_take [OF c b(2,4)] meet by simp
    moreover have "rv_poll d N n w s = s\<lparr>rv_aw := b, rv_taken := rv_taken s + 1, rv_pc := RvOut\<rparr>"
      using more lk False by (simp add: rv_poll_def)
    ultimately show ?thesis using b(1,5,6) idle by (simp add: rv_inv_def waits_def)
  qed
qed (use inv in \<open>simp add: rv_poll_def\<close>)

lemma rv_inv_recheck:
  fixes N :: usize
  assumes inv: "rv_inv d (unat N) s"
  shows "rv_inv d (unat N) (rv_recheck d N n s)"
proof (cases "rv_pc s = RvReg \<and> ar_pcs (rv_aw s) 1 = Idle")
  case True
  obtain v b where lk: "look Acquire n 1 (rv_aw s) = (v, b)" by (metis surj_pair)
  have ri: "rva_inv (rv_aw s)" using inv by (simp add: rv_inv_def)
  from rva_inv_look [OF ri _ refl lk] True have b: "rva_inv b" "ar_views (rv_aw s) 1 Sig \<le> ar_views b 1 Sig"
    "v = of_nat (ar_views b 1 Sig)" "ar_views b 1 Sig \<le> published (rv_aw s)" "published b = published (rv_aw s)"
    "ar_pcs b = ar_pcs (rv_aw s)" "ar_woken b = ar_woken (rv_aw s)" "handed (rv_aw s) \<longrightarrow> handed b" by auto
  have c: "counts_ok d (unat N) (rv_taken s) (ar_views (rv_aw s) 1 Sig) (published (rv_aw s))"
    using inv by (simp add: rv_inv_def)
  note meet = blocked_counts [OF c b(2,4), folded b(3)]
  show ?thesis
  proof (cases "blocked d N (of_nat (rv_taken s)) v")
    case eq: True
    have "waits (s\<lparr>rv_aw := b, rv_pc := RvParked\<rparr>) \<longrightarrow> handed b"
      using inv True b(7,8) by (auto simp: rv_inv_def waits_def)
    moreover have "rv_recheck d N n s = s\<lparr>rv_aw := b, rv_pc := RvParked\<rparr>"
      using True eq lk by (simp add: rv_recheck_def)
    moreover have "nothing_to_do d (unat N) (rv_taken s) (ar_views b 1 Sig)" using meet eq by blast
    ultimately show ?thesis using counts_view [OF c b(2)] b(1,5,6) True by (simp add: rv_inv_def)
  next
    case more: False
    then have "counts_ok d (unat N) (rv_taken s + 1) (ar_views b 1 Sig) (published (rv_aw s))"
      using counts_take [OF c b(2,4)] meet by simp
    moreover have "rv_recheck d N n s = s\<lparr>rv_aw := b, rv_taken := rv_taken s + 1, rv_pc := RvOut\<rparr>"
      using True more lk by (simp add: rv_recheck_def)
    ultimately show ?thesis using b(1,5,6) True by (simp add: rv_inv_def waits_def)
  qed
qed (use inv in \<open>auto simp: rv_recheck_def\<close>)

lemma rva_inv_publish:
  assumes inv: "rva_inv a" and idle: "ar_pcs a 0 = Idle"
    and st: "ra_store Release Sig (of_nat (published a) + 1) (ar_mem a) (ar_views a 0) = (m, V)"
  shows "rva_inv (ar_call 0 TakeOr (a\<lparr>ar_mem := m, ar_views := (ar_views a)(0 := V)\<rparr>))" (is "rva_inv ?b")
    and "published (ar_call 0 TakeOr (a\<lparr>ar_mem := m, ar_views := (ar_views a)(0 := V)\<rparr>)) = published a + 1"
proof -
  note d = rva_invD [OF inv]
  let ?k = "length (mm_hist (ar_mem a) Sig)"
  have k: "?k = Suc (published a)" by (rule sig_len [OF d(1)])
  have m: "mm_hist m = (mm_hist (ar_mem a))(Sig := mm_hist (ar_mem a) Sig @
      [\<lparr>ms_value = of_nat (published a) + 1, ms_view = V\<rparr>])" and V: "V = (ar_views a 0)(Sig := ?k)"
    using st by (auto simp: ra_store_def Let_def)
  show pub: "published ?b = published a + 1" using k by (simp add: published_def m)
  from inv obtain ow where ai: "ar_inv a ow" by (auto simp: rva_inv_def)
  let ?c = "a\<lparr>ar_mem := m, ar_views := (ar_views a)(0 := V)\<rparr>"
  have ci: "ar_inv ?c ow" by (rule ar_inv_store [OF ai st])
  then have "view_ok m V" by (auto simp: ar_inv_def ar_mem_ok_def dest!: spec [of _ 0])
  then have bi: "ar_inv ?b ow"
    by (intro ar_inv_outside [OF ci, of 0 TakeOr _ V]) (use idle in \<open>auto simp: fun_upd_idem\<close>)
  have "sig_ok ?b"
    using d(5) k pub by (auto simp: sig_ok_def m V nth_append le_Suc_eq)
  moreover have "fresh ?b" using inv by (simp add: rva_inv_def fresh_def m)
  ultimately show "rva_inv ?b" using inv bi by (auto simp: rva_inv_def told_def)
qed

lemma rv_inv_publish:
  fixes N :: usize
  assumes inv: "rv_inv d (unat N) s"
  shows "rv_inv d (unat N) (rv_publish d N s)"
proof -
  let ?a = "rv_aw s"
  have ri: "rva_inv ?a" using inv by (simp add: rv_inv_def)
  note mo = rva_invD [OF ri]
  have own: "ar_views ?a 0 Sig = published ?a" "length (mm_hist (ar_mem ?a) Sig) = Suc (published ?a)"
    using mo(5) sig_len [OF mo(1)] by (simp_all add: sig_ok_def)
  obtain v V where ld: "ra_load Relaxed 0 Sig (ar_mem ?a) (ar_views ?a 0) = (v, V)" by (metis surj_pair)
  have "length (mm_hist (ar_mem ?a) Sig) = Suc (ar_views ?a 0 Sig)" using own by simp
  from ra_load_own [OF ld mo(3) this] have v: "v = of_nat (published ?a)" and V: "V = ar_views ?a 0"
    using mo(5) own by (auto simp: sig_ok_def)
  have lk: "look Relaxed 0 0 ?a = (of_nat (published ?a), ?a)" using ld v V by (simp add: look_def)
  obtain m W where st: "ra_store Release Sig (of_nat (published ?a) + 1) (ar_mem ?a) (ar_views ?a 0) = (m, W)"
    by (metis surj_pair)
  show ?thesis
  proof (cases "ar_pcs ?a 0 = Idle \<and> may_publish d N (of_nat (rv_taken s)) (of_nat (published ?a))")
    case True
    let ?b = "ar_call 0 TakeOr (?a\<lparr>ar_mem := m, ar_views := (ar_views ?a)(0 := W)\<rparr>)"
    have s': "rv_publish d N s = s\<lparr>rv_aw := ?b\<rparr>" using True lk st by (simp add: rv_publish_def)
    have b: "rva_inv ?b" "published ?b = published ?a + 1"
      using rva_inv_publish [OF ri _ st] True by simp_all
    have "counts_ok d (unat N) (rv_taken s) (ar_views ?a 1 Sig) (published ?a + 1)"
      by (rule counts_publish) (use inv True views_le_published [OF mo(1)] in \<open>auto simp: rv_inv_def\<close>)
    moreover have "handed ?b" if "waits (s\<lparr>rv_aw := ?b\<rparr>)"
    proof -
      have "waits s" using that by (simp add: waits_def)
      then have "handed ?a" using inv by (simp add: rv_inv_def)
      then have "ms_value (last (ar_hist ?a)) = WAITING" "ar_slot ?a \<noteq> None" using True by (simp_all add: handed_def)
      moreover have "ar_hist ?b = ar_hist ?a" using st by (auto simp: ra_store_def Let_def)
      ultimately show ?thesis by (simp add: handed_def)
    qed
    ultimately show ?thesis using inv b unfolding s' by (simp add: rv_inv_def)
  next
    case False
    then show ?thesis using inv lk by (auto simp: rv_publish_def)
  qed
qed

lemma ar_step_woken: "ar_woken a \<noteq> [] \<Longrightarrow> ar_woken (ar_step n t a) \<noteq> []"
  by (cases "ar_pcs a t")
     (auto simp: ar_step_def ar_reg_cas_def ar_reg_release_def ar_slot_access_def ar_reset_def ar_invoke_def
       ar_take_or_def ar_take_release_def Let_def split: prod.split sum.split)

lemma rv_inv_steps:
  assumes inv: "rv_inv d n s"
  shows "rv_inv d n (s\<lparr>rv_aw := ar_step k 0 (rv_aw s)\<rparr>)" and "rv_inv d n (s\<lparr>rv_aw := ar_step k 1 (rv_aw s)\<rparr>)"
proof -
  let ?a = "rv_aw s"
  have ri: "rva_inv ?a" using inv by (simp add: rv_inv_def)
  then obtain ow where ai: "ar_inv ?a ow" by (auto simp: rva_inv_def)
  have pub: "published (ar_step k t ?a) = published ?a" and up: "ar_views ?a 1 Sig \<le> ar_views (ar_step k t ?a) 1 Sig" for t
    using ar_step_knows [OF ai, of k t] by (simp_all add: published_def knows_more_def)
  have woken: "ar_woken ?a = []" if "ar_woken (ar_step k t ?a) = []" for t using ar_step_woken that by blast
  {
    let ?b = "ar_step k 0 ?a"
    have one: "ar_pcs ?b 1 = ar_pcs ?a 1" "ar_views ?b 1 = ar_views ?a 1"
      using ar_step_other [of 0 1] ar_step_view_other [of 0 1] by simp_all
    have "handed ?b" if "waits (s\<lparr>rv_aw := ?b\<rparr>)"
    proof -
      have "waits s" "ar_woken ?b = []" using that one woken by (auto simp: waits_def)
      moreover have "ar_pcs ?a 1 = Idle" using \<open>waits s\<close> inv by (auto simp: waits_def rv_inv_def)
      ultimately show ?thesis using inv rva_inv_publisher [OF ri, of k] by (auto simp: rv_inv_def)
    qed
    then show "rv_inv d n (s\<lparr>rv_aw := ?b\<rparr>)"
      using inv rva_inv_publisher [OF ri, of k] pub one unfolding rv_inv_def by simp
  }
  {
    let ?b = "ar_step k 1 ?a"
    show "rv_inv d n (s\<lparr>rv_aw := ?b\<rparr>)"
    proof (cases "ar_pcs ?a 1 = Idle")
      case True
      then have "?b = ?a" by (simp add: ar_step_def)
      then show ?thesis using inv by simp
    next
      case False
      then have reg: "rv_pc s = RvReg" using inv by (auto simp: rv_inv_def)
      have "handed ?b" if "waits (s\<lparr>rv_aw := ?b\<rparr>)"
        using that False reg rva_inv_waiter [OF ri, of k] by (auto simp: waits_def)
      moreover have "counts_ok d n (rv_taken s) (ar_views ?b 1 Sig) (published ?a)"
        using inv counts_view [OF _ up [of 1]] by (simp add: rv_inv_def)
      ultimately show ?thesis
        using inv rva_inv_waiter [OF ri, of k] pub reg unfolding rv_inv_def by simp
    qed
  }
qed


lemma rv_inv_do:
  fixes N :: usize
  shows "rv_inv d (unat N) s \<Longrightarrow> rv_inv d (unat N) (rv_do d N act s)"
  by (cases act) (simp_all add: rv_inv_publish rv_inv_poll rv_inv_recheck rv_inv_steps [unfolded One_nat_def])

lemma rv_inv_run: "rv_inv d (unat N) s \<Longrightarrow> rv_inv d (unat N) (rv_run d N acts s)"
  by (induction acts arbitrary: s) (simp_all add: rv_run_def rv_inv_do)

section \<open>Properties\<close>

text \<open>
  C6: no wake-up of a channel is lost under the orderings of the source: when the receiver (or the sender) has parked
  and the other side has returned from its calls, either the channel is empty (or full), with all values
  sent (or received) counted, or the waker registered by the poll has been invoked since that poll began;
  whatever old values the loads returned.
\<close>

theorem channel_wakeup_orderings:
  assumes "s = rv_run d N acts recv_new" and "rv_pc s = RvParked" and "ar_pcs (rv_aw s) 0 = Idle"
  shows "nothing_to_do d (unat N) (rv_taken s) (published (rv_aw s)) \<or> ar_woken (rv_aw s) \<noteq> []"
proof (rule disjCI)
  assume "\<not> ar_woken (rv_aw s) \<noteq> []"
  moreover have inv: "rv_inv d (unat N) s" unfolding assms(1) by (rule rv_inv_run [OF rv_inv_new])
  ultimately have "handed (rv_aw s)" using assms(2) by (simp add: rv_inv_def waits_def)
  then have "ar_views (rv_aw s) 1 Sig = published (rv_aw s)" using assms(3) by (simp add: handed_def)
  then show "nothing_to_do d (unat N) (rv_taken s) (published (rv_aw s))" using inv assms(2) by (simp add: rv_inv_def)
qed

text \<open>
  The receiver looks, registers, looks again and reads the old \<open>tail\<close> although a value has been stored in the
  meantime; it parks, and the sender's \<open>wake\<close> finds its waker.
\<close>

definition old_tail :: "rv_act list" where
  "old_tail =
     [RvPoll 0 7, RvWaiter 0, RvWaiter 0, RvWaiter 0, RvPublish, RvRecheck 0,
      RvPublisher 0, RvPublisher 0, RvPublisher 0, RvPublisher 0]"

lemmas rv_eval = old_tail_def rv_run_def recv_new_def ar_new_def mem_new_def rv_poll_def rv_publish_def rv_recheck_def
  look_def read_index_def ra_load_def ra_store_def ra_cas_def ra_rmw_def plain_access_def ar_step_def ar_reg_cas_def
  ar_reg_release_def ar_slot_access_def ar_take_or_def ar_take_release_def ar_invoke_def ar_goto_def ar_call_def
  published_def Let_def

theorem channel_wakeup_orderings_witness:
  "let s = rv_run RecvSide 2 old_tail recv_new
   in rv_pc s = RvParked \<and> published (rv_aw s) = 1 \<and> rv_taken s = 0 \<and> ar_woken (rv_aw s) \<noteq> []"
proof -
  let ?s = "rv_run RecvSide 2 old_tail recv_new"
  have e: "rv_pc ?s = RvParked" "ar_pcs (rv_aw ?s) 0 = Idle" "published (rv_aw ?s) = 1" "rv_taken ?s = 0"
    by (simp_all add: rv_eval)
  with channel_wakeup_orderings [OF refl e(1,2)] show ?thesis by (simp add: Let_def)
qed

end
