(* ===== verification/Notify_Ra.thy ===== *)
theory Notify_Ra
  imports Waker_Ra Notify
begin

text \<open>
  \<open>crates/px4-workqueue/src/notify.rs\<close> over the memory of \<open>Ra_Memory\<close>, with its \<open>AtomicWaker\<close> as in \<open>Waker_Ra\<close>: \<open>Sig\<close> is the
  permit (1 for \<open>true\<close>). Thread 0 polls \<open>notified()\<close>, any number of threads \<open>Suc i\<close> call \<open>notify\<close>. What a notifier
  has to say is in \<open>Dat i\<close>, a location of its own that it stores to with \<open>Relaxed\<close> before it notifies. That no
  wake-up is lost follows from \<open>Wake_Protocol\<close> by a refinement mapping; what the waiting task knows when it
  resumes is new.
\<close>

section \<open>State and steps\<close>

text \<open>
  \<open>nt_told i\<close> is the entry of \<open>Dat i\<close> that notifier \<open>i\<close> had reached at its last \<open>notify\<close>, \<open>nt_seen i\<close> the one
  that the waiting task knew of when its last poll was \<open>Ready\<close>.
\<close>

record nt_sys =
  nt_aw :: aw_ra
  nt_poll :: "unit poll_pc"
  nt_mark :: nat
  nt_told :: "nat \<Rightarrow> nat"
  nt_seen :: "nat \<Rightarrow> nat"

definition nt_new :: nt_sys where
  "nt_new = \<lparr>nt_aw = ar_new, nt_poll = PStart, nt_mark = 0, nt_told = (\<lambda>_. 0), nt_seen = (\<lambda>_. 0)\<rparr>"

definition ar_mem_view :: "nat \<Rightarrow> (aw_loc, usize) memory \<Rightarrow> aw_loc view \<Rightarrow> aw_ra \<Rightarrow> aw_ra" where
  "ar_mem_view t m V a = a\<lparr>ar_mem := m, ar_views := (ar_views a)(t := V)\<rparr>"

text \<open>\<open>permit.swap(false, AcqRel)\<close>.\<close>

definition nt_swap :: "aw_ra \<Rightarrow> bool \<times> aw_ra" where
  "nt_swap a =
     (case ra_rmw AcqRel (\<lambda>_. 0) Sig (ar_mem a) (ar_views a 0) of
        (v, m, V) \<Rightarrow> (v \<noteq> 0, ar_mem_view 0 m V a))"

definition nt_ready :: "aw_ra \<Rightarrow> nt_sys \<Rightarrow> nt_sys" where
  "nt_ready a s = s\<lparr>nt_aw := a, nt_poll := PReady (), nt_seen := (\<lambda>i. ar_views a 0 (Dat i))\<rparr>"

text \<open>\<open>Notified::poll\<close> up to the call of \<open>register\<close>, and its second swap.\<close>

definition nt_begin :: "nt_sys \<Rightarrow> nt_sys" where
  "nt_begin s =
     (case nt_swap (nt_aw s) of
        (permit, a) \<Rightarrow>
          if permit then (nt_ready a s)\<lparr>nt_mark := length (ar_woken a)\<rparr>
          else s\<lparr>nt_aw := ar_call 0 (RegCas 0) a, nt_poll := PRegister, nt_mark := length (ar_woken a)\<rparr>)"

definition nt_recheck :: "nt_sys \<Rightarrow> nt_sys" where
  "nt_recheck s =
     (case nt_swap (nt_aw s) of
        (permit, a) \<Rightarrow> if permit then nt_ready a s else s\<lparr>nt_aw := a, nt_poll := PPending\<rparr>)"

text \<open>
  \<open>permit.store(true, Release)\<close> goes to the end of the modification order, or (\<open>late\<close>) before a store of another
  notifier that the thread does not know of, where no later swap can read it: a swap reads what is right before it.
\<close>

definition may_be_late :: "nat \<Rightarrow> aw_ra \<Rightarrow> bool" where
  "may_be_late t a \<longleftrightarrow>
     list_ex (\<lambda>msg. ms_value msg \<noteq> 0) (drop (Suc (ar_views a t Sig)) (mm_hist (ar_mem a) Sig))"

definition nt_store :: "nat \<Rightarrow> bool \<Rightarrow> aw_ra \<Rightarrow> aw_ra" where
  "nt_store t late a =
     (if late \<and> may_be_late t a then a
      else case ra_store Release Sig 1 (ar_mem a) (ar_views a t) of (m, V) \<Rightarrow> ar_mem_view t m V a)"

definition nt_notify :: "nat \<Rightarrow> bool \<Rightarrow> nt_sys \<Rightarrow> nt_sys" where
  "nt_notify i late s =
     (if ar_pcs (nt_aw s) (Suc i) = Idle
      then s\<lparr>nt_aw := ar_call (Suc i) TakeOr (nt_store (Suc i) late (nt_aw s)),
             nt_told := (nt_told s)(i := ar_views (nt_aw s) (Suc i) (Dat i))\<rparr>
      else s)"

definition nt_work :: "nat \<Rightarrow> usize \<Rightarrow> nt_sys \<Rightarrow> nt_sys" where
  "nt_work i x s =
     (if ar_pcs (nt_aw s) (Suc i) = Idle
      then (case ra_store Relaxed (Dat i) x (ar_mem (nt_aw s)) (ar_views (nt_aw s) (Suc i)) of
              (m, V) \<Rightarrow> s\<lparr>nt_aw := ar_mem_view (Suc i) m V (nt_aw s)\<rparr>)
      else s)"

datatype nt_act = NtPoll | NtPollStep nat | NtNotify nat bool | NtStep nat nat | NtWork nat usize

fun nt_do :: "nt_act \<Rightarrow> nt_sys \<Rightarrow> nt_sys" where
  "nt_do NtPoll s = (if can_poll (nt_poll s) then nt_begin s else s)"
| "nt_do (NtPollStep n) s =
     (case nt_poll s of
        PRegister \<Rightarrow>
          if ar_pcs (nt_aw s) 0 = Idle then s\<lparr>nt_poll := PRecheck\<rparr>
          else s\<lparr>nt_aw := ar_step n 0 (nt_aw s)\<rparr>
      | PRecheck \<Rightarrow> nt_recheck s
      | _ \<Rightarrow> s)"
| "nt_do (NtNotify i late) s = nt_notify i late s"
| "nt_do (NtStep n i) s = s\<lparr>nt_aw := ar_step n (Suc i) (nt_aw s)\<rparr>"
| "nt_do (NtWork i x) s = nt_work i x s"

definition nt_run :: "nt_act list \<Rightarrow> nt_sys \<Rightarrow> nt_sys" where
  "nt_run acts s = fold nt_do acts s"

section \<open>Steps of the memory beside the waker\<close>

abbreviation permits :: "aw_ra \<Rightarrow> (aw_loc, usize) message list" where
  "permits a \<equiv> mm_hist (ar_mem a) Sig"

lemma ar_mem_view_sel [simp]:
  "ar_mem (ar_mem_view t m V a) = m" "ar_views (ar_mem_view t m V a) = (ar_views a)(t := V)"
  "ar_pcs (ar_mem_view t m V a) = ar_pcs a" "ar_slot (ar_mem_view t m V a) = ar_slot a"
  "ar_woken (ar_mem_view t m V a) = ar_woken a" "ar_race (ar_mem_view t m V a) = ar_race a"
  by (simp_all add: ar_mem_view_def)

text \<open>An operation on another location, by a thread that may learn from it.\<close>

definition beside :: "nat \<Rightarrow> aw_ra \<Rightarrow> aw_ra \<Rightarrow> bool" where
  "beside t a b \<longleftrightarrow>
     ar_hist b = ar_hist a \<and> mm_hist (ar_mem b) Sl = mm_hist (ar_mem a) Sl \<and> mm_clock (ar_mem b) = mm_clock (ar_mem a) \<and>
     ar_pcs b = ar_pcs a \<and> ar_slot b = ar_slot a \<and> ar_woken b = ar_woken a \<and> ar_race b = ar_race a \<and>
     (\<forall>u. u \<noteq> t \<longrightarrow> ar_views b u = ar_views a u) \<and> (\<forall>x. ar_views a t x \<le> ar_views b t x) \<and>
     permits b \<noteq> [] \<and> mem_ok (ar_mem b) \<and> (\<forall>u. view_ok (ar_mem b) (ar_views b u))"

lemma beside_sc: "beside t a b \<Longrightarrow> sc_part b = sc_part a"
  by (simp add: beside_def sc_part_def)

lemma beside_inv:
  assumes inv: "ar_inv a ow" and b: "beside t a b"
  shows "ar_inv b ow"
proof -
  have view: "ar_views a u x \<le> ar_views b u x" for u x using b by (cases "u = t") (auto simp: beside_def)
  have "ar_mem_ok b" using inv b by (simp add: beside_def ar_mem_ok_def ar_inv_def)
  moreover have "slot_known b ow" using inv b view order_trans [OF _ view]
    by (auto simp: ar_inv_def slot_known_def beside_def split: option.splits)
  moreover have "sees_own b u" if "sees_own a u" for u
    using that b order_trans [OF view] by (simp add: sees_own_def beside_def)
  ultimately show ?thesis using inv b by (simp add: ar_inv_def beside_sc [OF b]) (simp add: beside_def)
qed

lemma beside_swap:
  assumes inv: "ar_inv a ow" and sw: "nt_swap a = (p, b)"
  obtains msg where "beside 0 a b" and "permits b = permits a @ [msg]" and "ms_value msg = 0"
    and "p \<longleftrightarrow> ms_value (last (permits a)) \<noteq> 0" and "\<And>x. ms_view (last (permits a)) x \<le> ar_views b 0 x"
proof -
  have mo: "ar_mem_ok a" using inv by (simp add: ar_inv_def)
  note d = ar_memD [OF mo]
  obtain v m V where rm: "ra_rmw AcqRel (\<lambda>_. 0) Sig (ar_mem a) (ar_views a 0) = (v, m, V)" by (metis surj_pair)
  then have b: "b = ar_mem_view 0 m V a" "p \<longleftrightarrow> v \<noteq> 0" using sw by (auto simp: nt_swap_def)
  from ra_rmw_spec [OF rm d(2) d(1) d(5)] obtain msg where
    m: "v = ms_value (last (permits a))" "mm_hist m = (mm_hist (ar_mem a))(Sig := permits a @ [msg])"
      "mm_clock m = mm_clock (ar_mem a)" "ms_value msg = 0" "\<And>x. ar_views a 0 x \<le> V x"
    and learn: "\<And>x. acquires AcqRel \<Longrightarrow> ms_view (last (permits a)) x \<le> V x" by metis
  have "beside 0 a b"
    using ra_rmw_ok [OF rm d(2) d(1) d(5)] d(2) m by (simp add: beside_def b)
  then show thesis by (rule that [of msg]) (use m b learn in auto)
qed

lemma beside_store:
  assumes inv: "ar_inv a ow" and st: "ra_store ord l x (ar_mem a) (ar_views a t) = (m, V)" and "l \<noteq> St" "l \<noteq> Sl"
    and "mm_hist (ar_mem a) l \<noteq> []"
  shows "beside t a (ar_mem_view t m V a)"
proof -
  have mo: "ar_mem_ok a" using inv by (simp add: ar_inv_def)
  note d = ar_memD [OF mo]
  have own: "ar_views a t l \<le> length (mm_hist (ar_mem a) l)"
    using d(2) [of t] assms(5) by (auto simp: view_ok_def dest!: spec [of _ l])
  obtain msg where m: "mm_hist m = (mm_hist (ar_mem a))(l := mm_hist (ar_mem a) l @ [msg])" "mm_clock m = mm_clock (ar_mem a)"
    and V: "V = (ar_views a t)(l := length (mm_hist (ar_mem a) l))"
    using st by (auto simp: ra_store_def Let_def)
  have ok: "view_ok m V" "mem_ok m" "\<And>u. view_ok m (ar_views a u)"
    using ra_store_ok [OF st d(2) d(1) assms(5)] d(2) by blast+
  have "\<And>x. ar_views a t x \<le> V x" using own by (simp add: V)
  then show ?thesis using ok m(2) assms(3,4) d(5) by (simp add: beside_def m(1))
qed

section \<open>The poller sees no state of a registration but its own\<close>

definition nt_fresh :: "aw_ra \<Rightarrow> bool" where
  "nt_fresh a \<longleftrightarrow>
     (\<not> reg_owner (ar_pcs a 0) \<longrightarrow>
        (\<forall>k < length (ar_hist a). ar_views a 0 St \<le> k \<longrightarrow> ms_value (ar_hist a ! k) \<in> {WAITING, WAKING}))"

lemma nt_fresh_last:
  assumes "nt_fresh a" and "ar_mem_ok a" and "\<not> reg_owner (ar_pcs a 0)"
  shows "ms_value (last (ar_hist a)) \<in> {WAITING, WAKING}"
proof -
  note d = ar_memD [OF assms(2)]
  have "ar_views a 0 St < length (ar_hist a)" using d(2) [of 0] d(4) unfolding view_ok_def by blast
  then show ?thesis using assms(1,3) d(4) by (auto simp: nt_fresh_def last_conv_nth)
qed

lemma nt_fresh_same:
  assumes "nt_fresh a" and "ar_hist b = ar_hist a" and "ar_views a 0 St \<le> ar_views b 0 St"
    and "reg_owner (ar_pcs a 0) \<longrightarrow> reg_owner (ar_pcs b 0)"
  shows "nt_fresh b"
  using assms by (auto simp: nt_fresh_def)

lemma nt_fresh_rmw:
  assumes fr: "nt_fresh a" and mo: "ar_mem_ok a" and rm: "ra_rmw ord f St (ar_mem a) (ar_views a t) = (v, m, V)"
    and "f ` {WAITING, WAKING} \<subseteq> {WAITING, WAKING}"
    and "t = 0 \<longrightarrow> reg_owner pc \<or> f v \<in> {WAITING, WAKING}"
  shows "nt_fresh (ar_goto t pc m V a)"
proof -
  note d = ar_memD [OF mo]
  from ra_rmw_spec [OF rm d(2) d(1) d(4)] obtain msg where
    m: "v = ms_value (last (ar_hist a))" "mm_hist m = (mm_hist (ar_mem a))(St := ar_hist a @ [msg])"
      "ms_value msg = f v" "V St = length (ar_hist a)" by metis
  show ?thesis
  proof (cases "t = 0")
    case True
    with assms(5) m show ?thesis by (auto simp: nt_fresh_def nth_append less_Suc_eq)
  next
    case False
    show ?thesis
    proof (cases "reg_owner (ar_pcs a 0)")
      case True
      with False show ?thesis by (simp add: nt_fresh_def)
    next
      case no: False
      have "f v \<in> {WAITING, WAKING}" using nt_fresh_last [OF fr mo no] assms(4) m(1) by blast
      with fr no False m show ?thesis by (auto simp: nt_fresh_def nth_append less_Suc_eq)
    qed
  qed
qed

lemma nt_fresh_cas:
  assumes inv: "ar_inv a ow" and fr: "nt_fresh a" and "(\<exists>w. ar_pcs a t = RegCas w) \<or> (\<exists>w. ar_pcs a t = RegRelease w)" and t: "t = 0"
  shows "nt_fresh (ar_step n t a)"
proof -
  have mo: "ar_mem_ok a" using inv by (simp add: ar_inv_def)
  note d = ar_memD [OF mo]
  have up: "ar_views a 0 St \<le> ar_views (ar_step n t a) 0 St"
    using ar_step_knows [OF inv, of n t] by (simp add: knows_more_def)
  note same = nt_fresh_same [OF fr _ up]
  from assms(3) show ?thesis
  proof (elim disjE exE)
    fix w
    assume pc: "ar_pcs a t = RegCas w"
    obtain r m V where cas: "ra_cas Acquire Acquire n WAITING REGISTERING St (ar_mem a) (ar_views a t) = (r, m, V)"
      by (metis surj_pair)
    from cas d(2) d(1) d(4) show ?thesis
    proof (cases rule: ra_cas_cases)
      case Ok
      with cas pc t show ?thesis by (simp add: ar_step_def ar_reg_cas_def nt_fresh_def)
    next
      case (Err k v)
      with cas pc t show ?thesis by (intro same) (auto simp: ar_step_def ar_reg_cas_def Let_def)
    qed
  next
    fix w
    assume pc: "ar_pcs a t = RegRelease w"
    obtain r m V where cas: "ra_cas AcqRel Acquire n REGISTERING WAITING St (ar_mem a) (ar_views a t) = (r, m, V)"
      by (metis surj_pair)
    from cas d(2) d(1) d(4) show ?thesis
    proof (cases rule: ra_cas_cases)
      case Ok
      have "nt_fresh (ar_goto t Idle m V a)" by (rule nt_fresh_rmw [OF fr mo Ok(3)]) auto
      with cas pc Ok(1) show ?thesis by (simp add: ar_step_def ar_reg_release_def)
    next
      case (Err k v)
      have "ow = Some t" using ar_inv_owner [OF inv] pc by simp
      then have "v = 3" using inv pc Err by (auto simp: ar_inv_def sees_own_def)
      with cas pc t Err show ?thesis by (intro same) (auto simp: ar_step_def ar_reg_release_def)
    qed
  qed
qed

lemma nt_fresh_step:
  assumes inv: "ar_inv a ow" and fr: "nt_fresh a" and roles: "\<And>i. notify_pc_ok (ar_pcs a (Suc i))"
  shows "nt_fresh (ar_step n t a)"
proof -
  have mo: "ar_mem_ok a" using inv by (simp add: ar_inv_def)
  note d = ar_memD [OF mo]
  note know = ar_step_knows [OF inv, of n t]
  have up: "ar_views a 0 St \<le> ar_views (ar_step n t a) 0 St" using know by (simp add: knows_more_def)
  have same: ?thesis if "ar_hist (ar_step n t a) = ar_hist a" "reg_owner (ar_pcs a 0) \<longrightarrow> reg_owner (ar_pcs (ar_step n t a) 0)"
    by (rule nt_fresh_same [OF fr that(1) up that(2)])
  have poller: "t = 0" if "\<not> notify_pc_ok (ar_pcs a t)" using that roles by (cases t) auto
  show ?thesis
  proof (cases "ar_pcs a t")
    case (RegCas w)
    with nt_fresh_cas [OF inv fr, of t] poller show ?thesis by simp
  next
    case (RegRelease w)
    with nt_fresh_cas [OF inv fr, of t] poller show ?thesis by simp
  next
    case (RegReset r)
    obtain v m V where rm: "ra_rmw AcqRel (\<lambda>_. WAITING) St (ar_mem a) (ar_views a t) = (v, m, V)" by (metis surj_pair)
    have "nt_fresh (ar_goto t (Invoke r) m V a)" by (rule nt_fresh_rmw [OF fr mo rm]) auto
    with rm RegReset show ?thesis by (simp add: ar_step_def ar_reset_def)
  next
    case TakeOr
    obtain v m V where rm: "ra_rmw AcqRel (\<lambda>v. v OR WAKING) St (ar_mem a) (ar_views a t) = (v, m, V)" by (metis surj_pair)
    have v: "v = ms_value (last (ar_hist a))" using rm by (auto simp: ra_rmw_def Let_def)
    have "v \<in> {WAITING, WAKING}" if "t = 0" using nt_fresh_last [OF fr mo] TakeOr that v by simp
    then have "nt_fresh (ar_goto t (if v = WAITING then TakeSlot else Invoke None) m V a)"
      by (intro nt_fresh_rmw [OF fr mo rm]) auto
    with rm TakeOr show ?thesis by (simp add: ar_step_def ar_take_or_def)
  next
    case (TakeRelease r)
    obtain v m V where rm: "ra_rmw Release (\<lambda>v. v AND NOT WAKING) St (ar_mem a) (ar_views a t) = (v, m, V)"
      by (metis surj_pair)
    have v: "v = ms_value (last (ar_hist a))" using rm by (auto simp: ra_rmw_def Let_def)
    have "v \<in> {WAITING, WAKING}" if "t = 0" using nt_fresh_last [OF fr mo] TakeRelease that v by simp
    then have "nt_fresh (ar_goto t (Invoke r) m V a)" by (intro nt_fresh_rmw [OF fr mo rm]) auto
    with rm TakeRelease show ?thesis by (simp add: ar_step_def ar_take_release_def)
  qed (intro same; use poller in \<open>auto simp: ar_step_def ar_slot_access_def ar_invoke_def plain_access_def Let_def\<close>)+
qed

section \<open>The refinement mapping\<close>

text \<open>
  Of the operations of the waker only the first compare-exchange of \<open>register\<close> can do what it could not do
  under sequential consistency.
\<close>

lemma sc_step:
  assumes inv: "ar_inv a ow" and "\<And>w. ar_pcs a t \<noteq> RegCas w"
  shows "sc_part (ar_step n t a) = aw_step t (sc_part a)"
proof (cases "ar_pcs a t")
  case (RegCas w)
  with assms(2) [of w] show ?thesis by simp
next
  case (RegRelease w)
  have mo: "ar_mem_ok a" using inv by (simp add: ar_inv_def)
  note d = ar_memD [OF mo]
  obtain r m V where cas: "ra_cas AcqRel Acquire n REGISTERING WAITING St (ar_mem a) (ar_views a t) = (r, m, V)"
    by (metis surj_pair)
  from cas d(2) d(1) d(4) show ?thesis
  proof (cases rule: ra_cas_cases)
    case Ok
    from ra_rmw_spec [OF Ok(3) d(2) d(1) d(4)] obtain msg where
      "mm_hist m = (mm_hist (ar_mem a))(St := ar_hist a @ [msg])" "ms_value msg = WAITING" by metis
    with cas RegRelease Ok show ?thesis
      by (simp add: ar_step_def ar_reg_release_def aw_step_def reg_release_def sc_part_def aw_goto_def)
  next
    case (Err k v)
    have "ow = Some t" using ar_inv_owner [OF inv] RegRelease by simp
    then have "v = 3" "ms_value (last (ar_hist a)) = 3" using inv RegRelease Err by (auto simp: ar_inv_def sees_own_def)
    with cas RegRelease Err show ?thesis
      by (simp add: ar_step_def ar_reg_release_def aw_step_def reg_release_def sc_part_def aw_goto_def)
  qed
qed (auto simp: ar_step_def ar_slot_access_def ar_invoke_def plain_access_def Let_def aw_step_def sc_part_def aw_goto_def
       ar_reset_def ar_take_or_def ar_take_release_def ra_rmw_def take_or_def invoke_def ar_goto_def ar_call_def split: option.split)

definition permit_store :: "bool \<Rightarrow> bool \<Rightarrow> bool option" where
  "permit_store late permit = Some (permit \<or> \<not> late)"

interpretation permit_ra: wake_source permit_swap permit_store "\<lambda>_. True" "\<lambda>p. p"
  by unfold_locales (auto simp: permit_swap_def permit_store_def)

definition nt_abs :: "nt_sys \<Rightarrow> (bool, unit) wake_sys" where
  "nt_abs s =
     \<lparr>ws_aw = sc_part (nt_aw s), ws_shared = (ms_value (last (permits (nt_aw s))) \<noteq> 0),
      ws_poll = nt_poll s, ws_mark = nt_mark s\<rparr>"

definition nt_inv :: "nt_sys \<Rightarrow> bool" where
  "nt_inv s \<longleftrightarrow>
     (\<exists>ow. ar_inv (nt_aw s) ow) \<and> nt_fresh (nt_aw s) \<and> ws_inv (\<lambda>_. True) (\<lambda>p. p) (nt_abs s) \<and>
     (\<forall>i. mm_hist (ar_mem (nt_aw s)) (Dat i) \<noteq> [])"

lemma nt_inv_new: "nt_inv nt_new"
proof -
  have "nt_abs nt_new = ws_new False"
    by (simp add: nt_abs_def nt_new_def ws_new_def sc_part_def ar_new_def aw_new_def mem_new_def)
  with permit_ra.inv_new [of False] ar_inv_new show ?thesis
    by (auto simp: nt_inv_def nt_new_def nt_fresh_def ar_new_def mem_new_def nth_Cons')
qed

lemma nt_roles: "nt_inv s \<Longrightarrow> notify_pc_ok (ar_pcs (nt_aw s) (Suc i))"
  by (simp add: nt_inv_def nt_abs_def ws_inv_def roles_def)

lemma sc_part_more [simp]: "aw_slot (sc_part a) = ar_slot a" "aw_woken (sc_part a) = ar_woken a"
  by (simp_all add: sc_part_def)

lemma sc_call: "sc_part (ar_call t pc a) = aw_goto t pc (sc_part a)"
  by (simp add: sc_part_def ar_call_def aw_goto_def)

lemma step_permits: "ar_inv a ow \<Longrightarrow> permits (ar_step n t a) = permits a"
  using ar_step_knows by (auto simp: knows_more_def)

lemma step_data: "mm_hist (ar_mem (ar_step n t a)) (Dat i) = mm_hist (ar_mem a) (Dat i)"
  by (cases "ar_pcs a t")
     (auto simp: ar_step_def ar_reg_cas_def ar_reg_release_def ar_slot_access_def ar_reset_def ar_invoke_def
       ar_take_or_def ar_take_release_def Let_def ra_cas_def ra_rmw_def plain_access_def split: prod.split sum.split)

text \<open>The step that has no counterpart: the poller's compare-exchange may read an old \<open>WAKING\<close>; it then wakes itself.\<close>

lemma nt_reg_cas:
  assumes inv: "nt_inv s" and pc: "ar_pcs (nt_aw s) 0 = RegCas w" and poll: "nt_poll s = PRegister"
  shows "ws_inv (\<lambda>_. True) (\<lambda>p. p) (nt_abs (s\<lparr>nt_aw := ar_step n 0 (nt_aw s)\<rparr>))"
proof -
  let ?a = "nt_aw s" and ?s = "s\<lparr>nt_aw := ar_step n 0 (nt_aw s)\<rparr>"
  from inv obtain ow where ai: "ar_inv ?a ow" and fr: "nt_fresh ?a" and wi: "ws_inv (\<lambda>_. True) (\<lambda>p. p) (nt_abs s)"
    by (auto simp: nt_inv_def)
  have mo: "ar_mem_ok ?a" using ai by (simp add: ar_inv_def)
  note d = ar_memD [OF mo]
  obtain r m V where cas: "ra_cas Acquire Acquire n WAITING REGISTERING St (ar_mem ?a) (ar_views ?a 0) = (r, m, V)"
    by (metis surj_pair)
  have shared: "ws_shared (nt_abs ?s) = ws_shared (nt_abs s)" using step_permits [OF ai] by (simp add: nt_abs_def)
  from cas d(2) d(1) d(4) show ?thesis
  proof (cases rule: ra_cas_cases)
    case Ok
    from ra_rmw_spec [OF Ok(3) d(2) d(1) d(4)] obtain msg where
      "mm_hist m = (mm_hist (ar_mem ?a))(St := ar_hist ?a @ [msg])" "ms_value msg = REGISTERING" by metis
    with cas pc Ok have "sc_part (ar_step n 0 ?a) = aw_step 0 (sc_part ?a)"
      by (simp add: ar_step_def ar_reg_cas_def aw_step_def reg_cas_def sc_part_def aw_goto_def)
    then have "nt_abs ?s = ws_do permit_swap permit_store PollStep (nt_abs s)"
      using shared poll pc by (simp add: nt_abs_def)
    with permit_ra.inv_do [OF wi, of PollStep] show ?thesis by simp
  next
    case (Err k v)
    have "v \<in> {WAITING, WAKING}" using fr pc Err by (auto simp: nt_fresh_def)
    with cas pc Err have "sc_part (ar_step n 0 ?a) = aw_goto 0 (RegSelf w) (sc_part ?a)"
      by (simp add: ar_step_def ar_reg_cas_def sc_part_def aw_goto_def)
    then have abs: "nt_abs ?s = (nt_abs s)\<lparr>ws_aw := aw_goto 0 (RegSelf w) (sc_part ?a)\<rparr>"
      using shared by (simp add: nt_abs_def)
    have "aw_inv (aw_goto 0 (RegSelf w) (sc_part ?a))"
    proof -
      obtain ow' where "ar_inv (ar_step n 0 ?a) ow'" using ar_inv_step [OF ai] by blast
      then show ?thesis
        using \<open>sc_part (ar_step n 0 ?a) = _\<close> unfolding ar_inv_def aw_inv_def by metis
    qed
    moreover have "roles (aw_goto 0 (RegSelf w) (sc_part ?a))"
      using wi pc by (auto simp: ws_inv_def nt_abs_def roles_def aw_goto_def)
    ultimately show ?thesis using wi poll pc unfolding abs by (simp add: ws_inv_def nt_abs_def aw_goto_def)
  qed
qed

lemma nt_inv_same_waker:
  assumes inv: "nt_inv s" and b: "beside t (nt_aw s) a" and aw: "nt_aw s' = ar_call u pc a \<or> nt_aw s' = a"
    and ai: "\<exists>ow. ar_inv (nt_aw s') ow" and ws: "ws_inv (\<lambda>_. True) (\<lambda>p. p) (nt_abs s')"
    and data: "\<And>i. mm_hist (ar_mem a) (Dat i) \<noteq> []" and pc: "u = 0 \<longrightarrow> \<not> reg_owner (ar_pcs (nt_aw s) 0)"
  shows "nt_inv s'"
proof -
  have view: "ar_views (nt_aw s) 0 St \<le> ar_views a 0 St" using b by (cases "t = 0") (auto simp: beside_def)
  have "nt_fresh (nt_aw s')"
    by (rule nt_fresh_same [of "nt_aw s"]) (use inv b aw view pc in \<open>auto simp: nt_inv_def beside_def\<close>)
  then show ?thesis using ai ws data aw by (auto simp: nt_inv_def)
qed

lemma nt_call_inv:
  assumes inv: "ar_inv a ow" and idle: "ar_pcs a t = Idle" and "\<not> owner pc" and "pc \<noteq> Panicked"
  shows "ar_inv (ar_call t pc a) ow"
  by (rule ar_inv_outside [OF inv, of t pc _ "ar_views a t"])
     (use assms ar_memD(2) in \<open>auto simp: ar_inv_def\<close>)

lemma nt_inv_begin:
  assumes inv: "nt_inv s" and can: "can_poll (nt_poll s)"
  shows "nt_inv (nt_begin s)"
proof -
  from inv obtain ow where ai: "ar_inv (nt_aw s) ow" and wi: "ws_inv (\<lambda>_. True) (\<lambda>p. p) (nt_abs s)"
    and data: "\<And>i. mm_hist (ar_mem (nt_aw s)) (Dat i) \<noteq> []" by (auto simp: nt_inv_def)
  obtain p b where sw: "nt_swap (nt_aw s) = (p, b)" by (metis surj_pair)
  from beside_swap [OF ai sw] obtain msg where b: "beside 0 (nt_aw s) b" "permits b = permits (nt_aw s) @ [msg]"
    "ms_value msg = 0" "p \<longleftrightarrow> ms_value (last (permits (nt_aw s))) \<noteq> 0" by metis
  have data': "mm_hist (ar_mem b) (Dat i) \<noteq> []" for i
    using sw data by (auto simp: nt_swap_def ra_rmw_def Let_def)
  have idle: "ar_pcs (nt_aw s) 0 = Idle" using wi can by (auto simp: ws_inv_def nt_abs_def)
  have woken: "ar_woken b = ar_woken (nt_aw s)" "ar_pcs b = ar_pcs (nt_aw s)" using b(1) by (simp_all add: beside_def)
  have bi: "ar_inv b ow" by (rule beside_inv [OF ai b(1)])
  have abs: "nt_abs (nt_begin s) = ws_begin permit_swap (nt_abs s)"
    using sw b beside_sc [OF b(1)] woken(1)
    by (auto simp: nt_begin_def ws_begin_def nt_abs_def permit_swap_def nt_ready_def aw_register_def sc_call)
  show ?thesis
  proof (rule nt_inv_same_waker [OF inv b(1), of _ 0 "RegCas 0"])
    show "nt_aw (nt_begin s) = ar_call 0 (RegCas 0) b \<or> nt_aw (nt_begin s) = b"
      using sw by (simp add: nt_begin_def nt_ready_def)
    show "\<exists>ow. ar_inv (nt_aw (nt_begin s)) ow"
      using sw bi nt_call_inv [OF bi, of 0 "RegCas 0"] idle woken(2) by (auto simp: nt_begin_def nt_ready_def)
    show "ws_inv (\<lambda>_. True) (\<lambda>p. p) (nt_abs (nt_begin s))"
      unfolding abs by (rule permit_ra.inv_poll [OF wi]) (simp add: can nt_abs_def)
  qed (use data' idle in simp_all)
qed

lemma nt_inv_recheck:
  assumes inv: "nt_inv s" and poll: "nt_poll s = PRecheck"
  shows "nt_inv (nt_recheck s)"
proof -
  from inv obtain ow where ai: "ar_inv (nt_aw s) ow" and wi: "ws_inv (\<lambda>_. True) (\<lambda>p. p) (nt_abs s)"
    and data: "\<And>i. mm_hist (ar_mem (nt_aw s)) (Dat i) \<noteq> []" by (auto simp: nt_inv_def)
  obtain p b where sw: "nt_swap (nt_aw s) = (p, b)" by (metis surj_pair)
  from beside_swap [OF ai sw] obtain msg where b: "beside 0 (nt_aw s) b" "permits b = permits (nt_aw s) @ [msg]"
    "ms_value msg = 0" "p \<longleftrightarrow> ms_value (last (permits (nt_aw s))) \<noteq> 0" by metis
  have data': "mm_hist (ar_mem b) (Dat i) \<noteq> []" for i
    using sw data by (auto simp: nt_swap_def ra_rmw_def Let_def)
  have idle: "ar_pcs (nt_aw s) 0 = Idle" using wi poll by (auto simp: ws_inv_def nt_abs_def)
  have abs: "nt_abs (nt_recheck s) = ws_do permit_swap permit_store PollStep (nt_abs s)"
    using sw b beside_sc [OF b(1)] poll
    by (auto simp: nt_recheck_def ws_recheck_def nt_abs_def permit_swap_def nt_ready_def)
  show ?thesis
  proof (rule nt_inv_same_waker [OF inv b(1), of _ 0 "RegCas 0"])
    show "nt_aw (nt_recheck s) = ar_call 0 (RegCas 0) b \<or> nt_aw (nt_recheck s) = b"
      using sw by (simp add: nt_recheck_def nt_ready_def)
    show "\<exists>ow. ar_inv (nt_aw (nt_recheck s)) ow"
      using sw beside_inv [OF ai b(1)] by (auto simp: nt_recheck_def nt_ready_def)
    show "ws_inv (\<lambda>_. True) (\<lambda>p. p) (nt_abs (nt_recheck s))"
      unfolding abs by (rule permit_ra.inv_do [OF wi])
  qed (use data' idle in simp_all)
qed

lemma nt_inv_ar_step:
  assumes inv: "nt_inv s" and ws: "ws_inv (\<lambda>_. True) (\<lambda>p. p) (nt_abs (s\<lparr>nt_aw := ar_step n t (nt_aw s)\<rparr>))"
  shows "nt_inv (s\<lparr>nt_aw := ar_step n t (nt_aw s)\<rparr>)"
proof -
  from inv obtain ow where ai: "ar_inv (nt_aw s) ow" and fr: "nt_fresh (nt_aw s)" by (auto simp: nt_inv_def)
  from nt_fresh_step [OF ai fr nt_roles [OF inv], of n t] ar_inv_step [OF ai, of n t] ws inv
  show ?thesis by (simp add: nt_inv_def step_data)
qed

lemma nt_abs_step:
  assumes "nt_inv s" and "\<And>w. ar_pcs (nt_aw s) t \<noteq> RegCas w"
  shows "nt_abs (s\<lparr>nt_aw := ar_step n t (nt_aw s)\<rparr>) = (nt_abs s)\<lparr>ws_aw := aw_step t (ws_aw (nt_abs s))\<rparr>"
proof -
  from assms(1) obtain ow where ai: "ar_inv (nt_aw s) ow" by (auto simp: nt_inv_def)
  show ?thesis using sc_step [OF ai assms(2)] step_permits [OF ai] by (simp add: nt_abs_def)
qed

lemma nt_inv_poll_step:
  assumes inv: "nt_inv s"
  shows "nt_inv (nt_do (NtPollStep n) s)"
proof (cases "nt_poll s = PRegister")
  case True
  from inv have wi: "ws_inv (\<lambda>_. True) (\<lambda>p. p) (nt_abs s)" by (simp add: nt_inv_def)
  show ?thesis
  proof (cases "ar_pcs (nt_aw s) 0 = Idle")
    case idle: True
    then have "nt_abs (s\<lparr>nt_poll := PRecheck\<rparr>) = ws_do permit_swap permit_store PollStep (nt_abs s)"
      using True by (simp add: nt_abs_def)
    with permit_ra.inv_do [OF wi, of PollStep] inv True idle show ?thesis by (simp add: nt_inv_def)
  next
    case busy: False
    have "ws_inv (\<lambda>_. True) (\<lambda>p. p) (nt_abs (s\<lparr>nt_aw := ar_step n 0 (nt_aw s)\<rparr>))"
    proof (cases "\<exists>w. ar_pcs (nt_aw s) 0 = RegCas w")
      case True
      with nt_reg_cas [OF inv] \<open>nt_poll s = PRegister\<close> show ?thesis by blast
    next
      case False
      then have "nt_abs (s\<lparr>nt_aw := ar_step n 0 (nt_aw s)\<rparr>) = (nt_abs s)\<lparr>ws_aw := aw_step 0 (ws_aw (nt_abs s))\<rparr>"
        by (intro nt_abs_step [OF inv]) blast
      also have "\<dots> = ws_do permit_swap permit_store PollStep (nt_abs s)"
        using True busy by (simp add: nt_abs_def)
      finally show ?thesis using permit_ra.inv_do [OF wi, of PollStep] by simp
    qed
    with nt_inv_ar_step [OF inv] True busy show ?thesis by simp
  qed
next
  case False
  then show ?thesis using inv nt_inv_recheck [OF inv] by (cases "nt_poll s") simp_all
qed

lemma nt_inv_notifier:
  assumes inv: "nt_inv s"
  shows "nt_inv (nt_do (NtStep n i) s)"
proof -
  from inv have wi: "ws_inv (\<lambda>_. True) (\<lambda>p. p) (nt_abs s)" by (simp add: nt_inv_def)
  have "ar_pcs (nt_aw s) (Suc i) \<noteq> RegCas w" for w
    using nt_roles [OF inv, of i] by auto
  from nt_abs_step [OF inv this, of n] permit_ra.inv_do [OF wi, of "NotifyStep i"]
  have "ws_inv (\<lambda>_. True) (\<lambda>p. p) (nt_abs (s\<lparr>nt_aw := ar_step n (Suc i) (nt_aw s)\<rparr>))"
    by (simp add: nt_abs_def)
  with nt_inv_ar_step [OF inv] show ?thesis by simp
qed

lemma nt_store_cases:
  assumes "ar_inv a ow" and "\<And>i. mm_hist (ar_mem a) (Dat i) \<noteq> []"
  shows "beside t a (nt_store t late a)" and "mm_hist (ar_mem (nt_store t late a)) (Dat i) \<noteq> []"
    and "nt_store t late a = a \<and> late \<and> may_be_late t a \<or>
      (\<exists>V. permits (nt_store t late a) = permits a @ [\<lparr>ms_value = 1, ms_view = V\<rparr>] \<and>
         V = ar_views (nt_store t late a) t \<and> V = (ar_views a t)(Sig := length (permits a)))"
proof -
  have mo: "ar_mem_ok a" using assms(1) by (simp add: ar_inv_def)
  note d = ar_memD [OF mo]
  obtain m V where st: "ra_store Release Sig 1 (ar_mem a) (ar_views a t) = (m, V)" by (metis surj_pair)
  have refl: "beside t a a" using mo d by (simp add: beside_def ar_mem_ok_def)
  show "beside t a (nt_store t late a)"
    using refl beside_store [OF assms(1) st] d(5) st by (simp add: nt_store_def)
  show "mm_hist (ar_mem (nt_store t late a)) (Dat i) \<noteq> []"
    using st assms(2) by (auto simp: nt_store_def ra_store_def Let_def)
  show "nt_store t late a = a \<and> late \<and> may_be_late t a \<or>
      (\<exists>V. permits (nt_store t late a) = permits a @ [\<lparr>ms_value = 1, ms_view = V\<rparr>] \<and>
         V = ar_views (nt_store t late a) t \<and> V = (ar_views a t)(Sig := length (permits a)))"
    using st by (auto simp: nt_store_def ra_store_def Let_def)
qed

lemma nt_inv_notify:
  assumes inv: "nt_inv s"
  shows "nt_inv (nt_notify i late s)"
proof (cases "ar_pcs (nt_aw s) (Suc i) = Idle")
  case True
  from inv obtain ow where ai: "ar_inv (nt_aw s) ow" and wi: "ws_inv (\<lambda>_. True) (\<lambda>p. p) (nt_abs s)"
    and data: "\<And>i. mm_hist (ar_mem (nt_aw s)) (Dat i) \<noteq> []" by (auto simp: nt_inv_def)
  let ?b = "nt_store (Suc i) late (nt_aw s)"
  note b = nt_store_cases [OF ai data, of "Suc i" late]
  have bi: "ar_inv ?b ow" by (rule beside_inv [OF ai b(1)])
  have pcs: "ar_pcs ?b = ar_pcs (nt_aw s)" using b(1) by (simp add: beside_def)
  define late' where "late' \<longleftrightarrow> late \<and> may_be_late (Suc i) (nt_aw s)"
  have "(ms_value (last (permits ?b)) \<noteq> 0) = (ms_value (last (permits (nt_aw s))) \<noteq> 0 \<or> \<not> late')"
    using b(3) by (auto simp: late'_def nt_store_def ra_store_def Let_def)
  then have abs: "nt_abs (nt_notify i late s) = ws_do permit_swap permit_store (Notify i late') (nt_abs s)"
    using True beside_sc [OF b(1)] by (simp add: nt_notify_def nt_abs_def permit_store_def aw_wake_def sc_call)
  show ?thesis
  proof (rule nt_inv_same_waker [OF inv b(1), of _ "Suc i" TakeOr])
    show "nt_aw (nt_notify i late s) = ar_call (Suc i) TakeOr ?b \<or> nt_aw (nt_notify i late s) = ?b"
      using True by (simp add: nt_notify_def)
    show "\<exists>ow. ar_inv (nt_aw (nt_notify i late s)) ow"
      using True nt_call_inv [OF bi, of "Suc i" TakeOr] pcs by (auto simp: nt_notify_def)
    show "ws_inv (\<lambda>_. True) (\<lambda>p. p) (nt_abs (nt_notify i late s))"
      unfolding abs by (rule permit_ra.inv_do [OF wi])
  qed (use b(2) in simp_all)
qed (use inv in \<open>simp add: nt_notify_def\<close>)

lemma nt_inv_work:
  assumes inv: "nt_inv s"
  shows "nt_inv (nt_work i x s)"
proof (cases "ar_pcs (nt_aw s) (Suc i) = Idle")
  case True
  from inv obtain ow where ai: "ar_inv (nt_aw s) ow" and wi: "ws_inv (\<lambda>_. True) (\<lambda>p. p) (nt_abs s)"
    and data: "\<And>i. mm_hist (ar_mem (nt_aw s)) (Dat i) \<noteq> []" by (auto simp: nt_inv_def)
  obtain m V where st: "ra_store Relaxed (Dat i) x (ar_mem (nt_aw s)) (ar_views (nt_aw s) (Suc i)) = (m, V)"
    by (metis surj_pair)
  let ?b = "ar_mem_view (Suc i) m V (nt_aw s)"
  have b: "beside (Suc i) (nt_aw s) ?b" by (rule beside_store [OF ai st]) (simp_all add: data)
  have m: "permits ?b = permits (nt_aw s)" "\<And>j. mm_hist (ar_mem ?b) (Dat j) \<noteq> []"
    using st data by (auto simp: ra_store_def Let_def split: if_splits)
  have s': "nt_work i x s = s\<lparr>nt_aw := ?b\<rparr>" using True st by (simp add: nt_work_def)
  have abs: "nt_abs (nt_work i x s) = nt_abs s"
    using beside_sc [OF b] m(1) by (simp add: s' nt_abs_def)
  show ?thesis
  proof (rule nt_inv_same_waker [OF inv b, of _ "Suc i" Idle])
    show "ws_inv (\<lambda>_. True) (\<lambda>p. p) (nt_abs (nt_work i x s))" using wi by (simp only: abs)
    show "\<exists>ow. ar_inv (nt_aw (nt_work i x s)) ow" using beside_inv [OF ai b] by (auto simp: s')
  qed (use m(2) s' in simp_all)
qed (use inv in \<open>simp add: nt_work_def\<close>)

lemma nt_inv_do: "nt_inv s \<Longrightarrow> nt_inv (nt_do act s)"
  by (cases act) (simp_all add: nt_inv_begin nt_inv_notify nt_inv_work
    nt_inv_poll_step [unfolded nt_do.simps] nt_inv_notifier [unfolded nt_do.simps])

lemma nt_inv_run: "nt_inv s \<Longrightarrow> nt_inv (nt_run acts s)"
  by (induction acts arbitrary: s) (simp_all add: nt_run_def nt_inv_do)

text \<open>A parked task with a permit has been woken, once the notifiers have returned.\<close>

lemma nt_parked:
  assumes inv: "nt_inv s" and "nt_poll s = PPending" and idle: "\<And>i. ar_pcs (nt_aw s) (Suc i) = Idle"
    and "ms_value (last (permits (nt_aw s))) \<noteq> 0"
  shows "nt_mark s < length (ar_woken (nt_aw s))"
proof (rule ccontr)
  assume "\<not> ?thesis"
  with inv assms(2,4) have "waking (sc_part (nt_aw s))" by (auto simp: nt_inv_def ws_inv_def nt_abs_def)
  with idle show False by (auto simp: waking_def carried_def)
qed

section \<open>A single notifier\<close>

fun only_by :: "nat \<Rightarrow> nt_act \<Rightarrow> bool" where
  "only_by j (NtNotify i late) = (i = j)"
| "only_by j act = True"

text \<open>
  The permit carries what the notifier had to say, and the notifier knows of all permits but the ones taken back.
\<close>

definition nt_one :: "nat \<Rightarrow> nt_sys \<Rightarrow> bool" where
  "nt_one j s \<longleftrightarrow>
     \<not> may_be_late (Suc j) (nt_aw s) \<and>
     (if ms_value (last (permits (nt_aw s))) = 0 then nt_told s j \<le> nt_seen s j
      else nt_told s j \<le> ms_view (last (permits (nt_aw s))) (Dat j))"

lemma may_be_late_mono:
  assumes "\<not> may_be_late t a" and "permits b = permits a" and "ar_views a t Sig \<le> ar_views b t Sig"
  shows "\<not> may_be_late t b"
proof -
  have "set (drop (Suc (ar_views b t Sig)) (permits a)) \<subseteq> set (drop (Suc (ar_views a t Sig)) (permits a))"
    using assms(3) by (intro set_drop_subset_set_drop) simp
  with assms(1,2) show ?thesis by (auto simp: may_be_late_def list_ex_iff)
qed

lemma nt_one_same:
  assumes "nt_one j s" and "permits (nt_aw s') = permits (nt_aw s)"
    and "ar_views (nt_aw s) (Suc j) Sig \<le> ar_views (nt_aw s') (Suc j) Sig" and "nt_told s' = nt_told s" "nt_seen s' = nt_seen s"
  shows "nt_one j s'"
  using assms may_be_late_mono [of "Suc j" "nt_aw s" "nt_aw s'"] by (simp add: nt_one_def)

lemma nt_one_swap:
  assumes inv: "nt_inv s" and one: "nt_one j s" and sw: "nt_swap (nt_aw s) = (p, b)"
    and told: "nt_told s' = nt_told s" and aw: "nt_aw s' = b \<or> nt_aw s' = ar_call u pc b"
    and seen: "nt_seen s' = (if p then (\<lambda>i. ar_views b 0 (Dat i)) else nt_seen s)"
  shows "nt_one j s'"
proof -
  from inv obtain ow where ai: "ar_inv (nt_aw s) ow" by (auto simp: nt_inv_def)
  from beside_swap [OF ai sw] obtain msg where b: "beside 0 (nt_aw s) b" "permits b = permits (nt_aw s) @ [msg]"
    "ms_value msg = 0" "p \<longleftrightarrow> ms_value (last (permits (nt_aw s))) \<noteq> 0"
    "\<And>x. ms_view (last (permits (nt_aw s))) x \<le> ar_views b 0 x" by metis
  have "ar_views b (Suc j) = ar_views (nt_aw s) (Suc j)" using b(1) by (simp add: beside_def)
  moreover have "\<not> list_ex (\<lambda>msg. ms_value msg \<noteq> 0) (drop k [msg])" for k using b(3) by (cases k) simp_all
  ultimately have "\<not> may_be_late (Suc j) b" using one b(2) by (auto simp: nt_one_def may_be_late_def)
  then have "\<not> may_be_late (Suc j) (nt_aw s')" using aw by (auto simp: may_be_late_def)
  moreover have "ms_value (last (permits (nt_aw s'))) = 0" using aw b(2,3) by auto
  moreover have "nt_told s j \<le> nt_seen s' j"
    using one seen b(4) order_trans [OF _ b(5)] by (auto simp: nt_one_def split: if_splits)
  ultimately show ?thesis using told by (simp add: nt_one_def)
qed

lemma nt_one_do:
  assumes inv: "nt_inv s" and one: "nt_one j s" and "only_by j act"
  shows "nt_one j (nt_do act s)"
proof -
  from inv obtain ow where ai: "ar_inv (nt_aw s) ow" and data: "\<And>i. mm_hist (ar_mem (nt_aw s)) (Dat i) \<noteq> []"
    by (auto simp: nt_inv_def)
  obtain p b where sw: "nt_swap (nt_aw s) = (p, b)" by (metis surj_pair)
  note swap = nt_one_swap [OF inv one sw]
  have step: "nt_one j (s\<lparr>nt_aw := ar_step n t (nt_aw s)\<rparr>)" for n t
    using ar_step_knows [OF ai, of n t] by (intro nt_one_same [OF one]) (simp_all add: knows_more_def)
  show ?thesis
  proof (cases act)
    case NtPoll
    have "nt_one j (nt_begin s)"
      by (rule swap [of _ 0 "RegCas 0"]) (use sw in \<open>auto simp: nt_begin_def nt_ready_def\<close>)
    with NtPoll one show ?thesis by simp
  next
    case (NtPollStep n)
    have "nt_one j (nt_recheck s)"
      by (rule swap [of _ 0 Idle]) (use sw in \<open>auto simp: nt_recheck_def nt_ready_def\<close>)
    moreover have "nt_one j (s\<lparr>nt_poll := PRecheck\<rparr>)" by (rule nt_one_same [OF one]) simp_all
    ultimately show ?thesis using NtPollStep step [of n 0] one by (cases "nt_poll s") simp_all
  next
    case (NtNotify i late)
    then have i: "i = j" using assms(3) by simp
    show ?thesis
    proof (cases "ar_pcs (nt_aw s) (Suc j) = Idle")
      case True
      have "\<not> may_be_late (Suc j) (nt_aw s)" using one by (simp add: nt_one_def)
      with nt_store_cases(3) [OF ai data, of "Suc j" late] obtain V where
        V: "permits (nt_store (Suc j) late (nt_aw s)) = permits (nt_aw s) @ [\<lparr>ms_value = 1, ms_view = V\<rparr>]"
          "ar_views (nt_store (Suc j) late (nt_aw s)) (Suc j) = V"
          "V = (ar_views (nt_aw s) (Suc j))(Sig := length (permits (nt_aw s)))" by blast
      then have "nt_one j (nt_notify j late s)" using True
        by (simp add: nt_notify_def nt_one_def may_be_late_def)
      with NtNotify i show ?thesis by simp
    qed (use NtNotify i one in \<open>simp add: nt_notify_def\<close>)
  next
    case (NtStep n i)
    with step show ?thesis by simp
  next
    case (NtWork i x)
    have "nt_one j (nt_work i x s)"
      by (rule nt_one_same [OF one])
         (auto simp: nt_work_def ra_store_def Let_def split: prod.split)
    with NtWork show ?thesis by simp
  qed
qed

lemma nt_one_run:
  "nt_inv s \<Longrightarrow> nt_one j s \<Longrightarrow> list_all (only_by j) acts \<Longrightarrow> nt_one j (nt_run acts s)"
  by (induction acts arbitrary: s) (simp_all add: nt_run_def nt_one_do nt_inv_do)

lemma nt_one_new: "nt_one j nt_new"
  by (simp add: nt_one_def nt_new_def may_be_late_def ar_new_def mem_new_def)

section \<open>Properties\<close>

text \<open>
  C14: no notification is lost under the orderings of \<open>notify.rs\<close> and \<open>atomic_waker.rs\<close>: when the task has parked and
  every notifier has returned, the permit is clear or the task's waker has been invoked since the poll began.
  Any number of notifiers, whose stores of the permit may overtake each other, and stale failing compare-exchanges.
\<close>

theorem notify_orderings_suffice:
  assumes "s = nt_run acts nt_new" and "nt_poll s = PPending" and "\<And>i. ar_pcs (nt_aw s) (Suc i) = Idle"
  shows "ms_value (last (permits (nt_aw s))) = 0 \<or> nt_mark s < length (ar_woken (nt_aw s))"
  using nt_parked [OF nt_inv_run [OF nt_inv_new, of acts]] assms by blast

text \<open>
  C15: with one notifier a parked task has seen all that the notifier did before its last \<open>notify\<close>, unless its waker
  has been invoked: the last poll that was \<open>Ready\<close> took it over with the permit.
\<close>

theorem notify_shows_work:
  assumes "s = nt_run acts nt_new" and "list_all (only_by j) acts" and "nt_poll s = PPending"
    and "\<And>i. ar_pcs (nt_aw s) (Suc i) = Idle"
  shows "nt_told s j \<le> nt_seen s j \<or> nt_mark s < length (ar_woken (nt_aw s))"
proof -
  have inv: "nt_inv s" unfolding assms(1) by (rule nt_inv_run [OF nt_inv_new])
  have "nt_one j s" unfolding assms(1) by (rule nt_one_run [OF nt_inv_new nt_one_new assms(2)])
  with nt_parked [OF inv assms(3,4)] show ?thesis by (auto simp: nt_one_def split: if_splits)
qed

text \<open>One turn of a notifier, and a poll that returns \<open>Ready\<close> and is followed by one that parks.\<close>

definition nt_turn :: "nat \<Rightarrow> nt_act list" where
  "nt_turn i = [NtWork i 5, NtNotify i False, NtStep 0 i, NtStep 0 i, NtStep 0 i, NtStep 0 i]"

definition nt_await :: "nt_act list" where
  "nt_await = [NtPoll, NtPoll, NtPollStep 9, NtPollStep 9, NtPollStep 9, NtPollStep 9, NtPollStep 9]"

lemmas nt_eval = nt_turn_def nt_await_def nt_run_def nt_new_def ar_new_def mem_new_def nt_begin_def nt_recheck_def nt_swap_def
  nt_ready_def nt_store_def nt_notify_def nt_work_def ar_mem_view_def ar_call_def ar_goto_def ar_step_def ar_reg_cas_def
  ar_reg_release_def ar_slot_access_def ar_take_or_def ar_take_release_def ar_invoke_def ra_load_def ra_store_def ra_rmw_def
  ra_cas_def read_index_def plain_access_def Let_def

lemma one_turn:
  defines "s \<equiv> nt_run (nt_turn 0 @ nt_await) nt_new"
  shows "nt_poll s = PPending" "ar_pcs (nt_aw s) (Suc i) = Idle" "nt_told s 0 = 1"
    "length (ar_woken (nt_aw s)) = nt_mark s"
  unfolding s_def by (simp_all add: nt_eval)

theorem notify_shows_work_witness:
  "1 \<le> nt_seen (nt_run (nt_turn 0 @ nt_await) nt_new) 0"
proof -
  let ?s = "nt_run (nt_turn 0 @ nt_await) nt_new"
  have "list_all (only_by 0) (nt_turn 0 @ nt_await)" by (simp add: nt_turn_def nt_await_def)
  from notify_shows_work [OF refl this one_turn(1,2)] one_turn(3,4) show ?thesis by simp
qed

text \<open>
  C38: with two notifiers it may not: \<open>notify\<close> stores the permit instead of swapping it, so the second notifier's
  store hides the first one's, and with it what the first one had to say. The task resumes once, without having seen
  the work of notifier 0, and parks again with no permit left and nobody about to wake it.
\<close>

theorem notify_hides_work:
  "\<exists>acts s. s = nt_run acts nt_new \<and> nt_poll s = PPending \<and> (\<forall>i. ar_pcs (nt_aw s) i = Idle) \<and>
     ms_value (last (permits (nt_aw s))) = 0 \<and> length (ar_woken (nt_aw s)) = nt_mark s \<and>
     nt_told s 0 = 1 \<and> nt_seen s 0 = 0 \<and> nt_seen s 1 = nt_told s 1"
proof -
  let ?s = "nt_run (nt_turn 0 @ nt_turn 1 @ nt_await) nt_new"
  have "nt_poll ?s = PPending" "\<forall>i. ar_pcs (nt_aw ?s) i = Idle" "ms_value (last (permits (nt_aw ?s))) = 0"
    "length (ar_woken (nt_aw ?s)) = nt_mark ?s" "nt_told ?s 0 = 1" "nt_seen ?s 0 = 0" "nt_seen ?s 1 = nt_told ?s 1"
    by (simp_all add: nt_eval)
  then show ?thesis by blast
qed

theorem notify_orderings_suffice_witness:
  "ms_value (last (permits (nt_aw (nt_run (nt_turn 0 @ nt_await) nt_new)))) = 0"
  using notify_orderings_suffice [OF refl one_turn(1,2)] one_turn(4) by simp

end
