(* ===== verification/Task_Cell.thy ===== *)
theory Task_Cell
  imports Px4_Prelude
begin

text \<open>
  \<open>crates/px4-workqueue/src/cell.rs\<close>, \<open>waker.rs\<close> and the mock of \<open>ffi.rs\<close>: one task cell, the
  work-queue thread that runs it, threads that wake it and threads that spawn it, interleaved at
  every access to the state word, the future slot, the handle and the queue. \<open>tc_queue\<close> counts the
  entries of this work item in the queue of the dispatcher, \<open>tc_wakes\<close> the wakers between their
  \<open>fetch_or\<close> and their \<open>wi_schedule_now\<close>. Reading, polling or dropping a future slot that holds no
  future is undefined behaviour in Rust and is recorded in \<open>tc_undef\<close>. The future is a value of
  type \<open>'f\<close>; how a poll ends is an input. \<open>tc_spawn\<close> has room for one thread inside \<open>try_spawn\<close>: a second one can get past
  the compare-exchange only when an entry of an earlier life has let the dispatcher finish a task that is still being spawned.
\<close>

section \<open>State\<close>

definition SPAWNED :: "8 word" where
  "SPAWNED = 1"

definition RUN_QUEUED :: "8 word" where
  "RUN_QUEUED = 2"

datatype spawn_error = Busy | AllocFailed

fun show_spawn_error :: "spawn_error \<Rightarrow> string" where
  "show_spawn_error Busy = ''task already running''"
| "show_spawn_error AllocFailed = ''PX4 WorkQueueManager allocation failed''"

text \<open>
  A spawning thread after its compare-exchange: about to write the future, to find or allocate the
  handle, to roll back, to schedule.
\<close>

datatype 'f spawn_pc = SpIdle | SpClaimed 'f | SpWritten | SpRollback | SpReady

text \<open>The dispatcher inside \<open>poll_once\<close>: polling, dropping the finished future, clearing the state.\<close>

datatype disp_pc = DIdle | DPoll | DFinished | DDropped

record 'f task_cell =
  tc_state :: "8 word"
  tc_handle :: bool
  tc_future :: "'f option"
  tc_queue :: nat
  tc_wakes :: nat
  tc_spawn :: "'f spawn_pc"
  tc_disp :: disp_pc
  tc_polls :: nat
  tc_undef :: bool

definition cell_new :: "'f task_cell" where
  "cell_new = \<lparr>tc_state = 0, tc_handle = False, tc_future = None, tc_queue = 0, tc_wakes = 0,
     tc_spawn = SpIdle, tc_disp = DIdle, tc_polls = 0, tc_undef = False\<rparr>"

section \<open>Spawning\<close>

text \<open>The compare-exchange of \<open>try_spawn\<close>, and the rest of it.\<close>

definition try_spawn :: "'f \<Rightarrow> 'f task_cell \<Rightarrow> (spawn_error + unit) \<times> 'f task_cell" where
  "try_spawn fut s =
     (if tc_state s = 0 then (Ok (), s\<lparr>tc_state := SPAWNED OR RUN_QUEUED, tc_spawn := SpClaimed fut\<rparr>)
      else (Err Busy, s))"

definition spawn_step :: "bool \<Rightarrow> 'f task_cell \<Rightarrow> 'f task_cell" where
  "spawn_step alloc_ok s =
     (case tc_spawn s of
        SpIdle \<Rightarrow> s
      | SpClaimed fut \<Rightarrow> s\<lparr>tc_future := Some fut, tc_spawn := SpWritten\<rparr>
      | SpWritten \<Rightarrow>
          if tc_handle s then s\<lparr>tc_spawn := SpReady\<rparr>
          else if alloc_ok then s\<lparr>tc_handle := True, tc_spawn := SpReady\<rparr>
          else s\<lparr>tc_undef := (tc_undef s \<or> tc_future s = None), tc_future := None, tc_spawn := SpRollback\<rparr>
      | SpRollback \<Rightarrow> s\<lparr>tc_state := 0, tc_spawn := SpIdle\<rparr>
      | SpReady \<Rightarrow> s\<lparr>tc_queue := tc_queue s + 1, tc_spawn := SpIdle\<rparr>)"

text \<open>\<open>spawn\<close> panics (\<open>None\<close>) where \<open>try_spawn\<close> fails.\<close>

definition spawn_or_panic :: "'f \<Rightarrow> 'f task_cell \<Rightarrow> 'f task_cell option" where
  "spawn_or_panic fut s = (case try_spawn fut s of (Inr u, s) \<Rightarrow> Some s | (Inl e, s) \<Rightarrow> None)"

text \<open>A \<open>SpawnToken\<close> dropped without \<open>forget\<close> panics.\<close>

datatype spawn_token = SpawnToken | Forgotten

fun token_forget :: "spawn_token \<Rightarrow> spawn_token" where
  "token_forget t = Forgotten"

fun token_drop_panics :: "spawn_token \<Rightarrow> bool" where
  "token_drop_panics SpawnToken = True"
| "token_drop_panics Forgotten = False"

section \<open>Waking\<close>

definition waker_wake_by_ref :: "'f task_cell \<Rightarrow> 'f task_cell" where
  "waker_wake_by_ref s =
     (let prev = tc_state s; s = s\<lparr>tc_state := prev OR RUN_QUEUED\<rparr>
      in if prev AND SPAWNED \<noteq> 0 \<and> prev AND RUN_QUEUED = 0
         then s\<lparr>tc_wakes := tc_wakes s + 1\<rparr> else s)"

definition wake_schedule :: "'f task_cell \<Rightarrow> 'f task_cell" where
  "wake_schedule s =
     (if tc_wakes s = 0 then s
      else if tc_handle s then s\<lparr>tc_wakes := tc_wakes s - 1, tc_queue := tc_queue s + 1\<rparr>
      else s\<lparr>tc_wakes := tc_wakes s - 1\<rparr>)"

section \<open>Running\<close>

text \<open>
  The dispatcher takes an entry of the queue and calls \<open>poll_once\<close>, up to the poll of the future.
\<close>

definition dispatch :: "'f task_cell \<Rightarrow> 'f task_cell" where
  "dispatch s =
     (if tc_disp s = DIdle \<and> tc_queue s > 0
      then let prev = tc_state s;
               s = s\<lparr>tc_queue := tc_queue s - 1, tc_state := prev AND NOT RUN_QUEUED\<rparr>
           in if prev AND SPAWNED = 0 then s
              else s\<lparr>tc_disp := DPoll, tc_undef := (tc_undef s \<or> tc_future s = None)\<rparr>
      else s)"

text \<open>The poll returns: \<open>Ready\<close> or \<open>Pending\<close>.\<close>

definition poll_returns :: "bool \<Rightarrow> 'f task_cell \<Rightarrow> 'f task_cell" where
  "poll_returns is_ready s =
     (if tc_disp s = DPoll
      then s\<lparr>tc_disp := (if is_ready then DFinished else DIdle), tc_polls := tc_polls s + 1\<rparr>
      else s)"

text \<open>After \<open>Ready\<close>: drop the future, then clear the state.\<close>

definition finish_step :: "'f task_cell \<Rightarrow> 'f task_cell" where
  "finish_step s =
     (case tc_disp s of
        DFinished \<Rightarrow> s\<lparr>tc_undef := (tc_undef s \<or> tc_future s = None), tc_future := None, tc_disp := DDropped\<rparr>
      | DDropped \<Rightarrow> s\<lparr>tc_state := 0, tc_disp := DIdle\<rparr>
      | _ \<Rightarrow> s)"

section \<open>The system\<close>

datatype 'f cell_act =
    TrySpawn 'f
  | SpawnStep bool
  | WakeByRef
  | WakeSchedule
  | Dispatch
  | PollReturns bool
  | FinishStep

fun cell_do :: "'f cell_act \<Rightarrow> 'f task_cell \<Rightarrow> 'f task_cell" where
  "cell_do (TrySpawn fut) s = snd (try_spawn fut s)"
| "cell_do (SpawnStep alloc_ok) s = spawn_step alloc_ok s"
| "cell_do WakeByRef s = waker_wake_by_ref s"
| "cell_do WakeSchedule s = wake_schedule s"
| "cell_do Dispatch s = dispatch s"
| "cell_do (PollReturns is_ready) s = poll_returns is_ready s"
| "cell_do FinishStep s = finish_step s"

definition cell_run :: "'f cell_act list \<Rightarrow> 'f task_cell \<Rightarrow> 'f task_cell" where
  "cell_run acts s = fold cell_do acts s"

lemmas cell_defs [step_defs] = try_spawn_def spawn_step_def waker_wake_by_ref_def wake_schedule_def dispatch_def
  poll_returns_def finish_step_def

lemma state_consts [simp]: "SPAWNED = 1" "RUN_QUEUED = 2"
  by (simp_all add: SPAWNED_def RUN_QUEUED_def)

text \<open>
  A run of the cell in which every spawn that succeeds finds no entry of an earlier life in the
  queue and no waker about to add one.
\<close>

definition quiet :: "'f cell_act \<Rightarrow> 'f task_cell \<Rightarrow> bool" where
  "quiet act s \<longleftrightarrow>
     (case act of TrySpawn fut \<Rightarrow> tc_state s = 0 \<longrightarrow> tc_queue s = 0 \<and> tc_wakes s = 0 | _ \<Rightarrow> True)"

inductive cell_reach :: "'f task_cell \<Rightarrow> bool" where
  cell_start: "cell_reach cell_new"
| cell_act: "cell_reach s \<Longrightarrow> quiet act s \<Longrightarrow> cell_reach (cell_do act s)"

text \<open>The same of a run given by its actions. \<open>respawn_safe_iff\<close> shows that this is what memory safety needs.\<close>

fun clean_spawns :: "'f cell_act list \<Rightarrow> 'f task_cell \<Rightarrow> bool" where
  "clean_spawns [] s = True"
| "clean_spawns (act # acts) s = (quiet act s \<and> clean_spawns acts (cell_do act s))"

section \<open>Invariant\<close>

text \<open>
  The phase of the cell: no task, being spawned, live. In a life there is exactly one entry in the
  queue or one waker about to add it while \<open>RUN_QUEUED\<close> is set, and none while it is clear.
\<close>

fun phase_ok :: "'f task_cell \<Rightarrow> 'f spawn_pc \<Rightarrow> disp_pc \<Rightarrow> bool" where
  "phase_ok s SpIdle DIdle =
     (tc_state s = 0 \<or> tc_state s = 2 \<or>
      tc_state s = 1 \<and> tc_future s \<noteq> None \<and> tc_handle s \<and> tc_queue s + tc_wakes s = 0 \<or>
      tc_state s = 3 \<and> tc_future s \<noteq> None \<and> tc_handle s \<and> tc_queue s + tc_wakes s = 1)"
| "phase_ok s SpIdle DDropped =
     (tc_handle s \<and> (tc_state s = 1 \<and> tc_queue s + tc_wakes s = 0 \<or>
                     tc_state s = 3 \<and> tc_queue s + tc_wakes s = 1))"
| "phase_ok s SpIdle d =
     (tc_handle s \<and> tc_future s \<noteq> None \<and>
      (tc_state s = 1 \<and> tc_queue s + tc_wakes s = 0 \<or>
       tc_state s = 3 \<and> tc_queue s + tc_wakes s = 1))"
| "phase_ok s (SpClaimed fut) DIdle = (tc_state s = 3 \<and> tc_queue s = 0 \<and> tc_wakes s = 0)"
| "phase_ok s SpWritten DIdle =
     (tc_state s = 3 \<and> tc_queue s = 0 \<and> tc_wakes s = 0 \<and> tc_future s \<noteq> None)"
| "phase_ok s SpReady DIdle =
     (tc_state s = 3 \<and> tc_queue s = 0 \<and> tc_wakes s = 0 \<and> tc_future s \<noteq> None \<and> tc_handle s)"
| "phase_ok s SpRollback DIdle = (tc_state s = 3 \<and> tc_queue s = 0 \<and> tc_wakes s = 0)"
| "phase_ok s sp d = False"

definition cell_inv :: "'f task_cell \<Rightarrow> bool" where
  "cell_inv s \<longleftrightarrow> phase_ok s (tc_spawn s) (tc_disp s) \<and> \<not> tc_undef s"

lemma cell_inv_new: "cell_inv cell_new"
  by (simp add: cell_inv_def cell_new_def)

lemma cell_inv_do:
  assumes "cell_inv s" and "quiet act s"
  shows "cell_inv (cell_do act s)"
  using assms
  by (cases act; cases "tc_spawn s"; cases "tc_disp s")
     (auto simp: cell_inv_def cell_defs quiet_def Let_def)

lemma cell_reach_inv: "cell_reach s \<Longrightarrow> cell_inv s"
  by (induction rule: cell_reach.induct) (auto intro: cell_inv_new cell_inv_do)

lemma cell_run_simps [simp]:
  "cell_run [] s = s"
  "cell_run (a # acts) s = cell_run acts (cell_do a s)"
  by (simp_all add: cell_run_def)

lemma reach_act: "cell_reach s \<Longrightarrow> quiet act s \<Longrightarrow> cell_do act s = s' \<Longrightarrow> cell_reach s'"
  using cell_act by blast

lemma clean_reach: "clean_spawns acts s \<Longrightarrow> cell_reach s \<Longrightarrow> cell_reach (cell_run acts s)"
  by (induction acts arbitrary: s) (simp_all add: cell_act)

lemma cell_reach_handle: "cell_reach s \<Longrightarrow> tc_handle s \<or> tc_queue s + tc_wakes s = 0"
proof (induction rule: cell_reach.induct)
  case (cell_act s act)
  from cell_reach_inv [OF cell_act.hyps(1)] cell_act.IH show ?case
    by (cases act; cases "tc_spawn s"; cases "tc_disp s") (auto simp: cell_inv_def cell_defs Let_def)
qed (simp add: cell_new_def)

lemma cell_reach_dropped:
  "cell_reach s \<Longrightarrow> tc_state s = 0 \<or> tc_state s = 2 \<or> tc_disp s = DDropped \<or> tc_spawn s = SpRollback \<Longrightarrow> tc_future s = None"
proof (induction rule: cell_reach.induct)
  case (cell_act s act)
  from cell_reach_inv [OF cell_act.hyps(1)] cell_act show ?case
    by (cases act; cases "tc_spawn s"; cases "tc_disp s") (auto simp: cell_inv_def cell_defs Let_def split: if_splits)
qed (simp add: cell_new_def)

lemma free_cell:
  assumes "cell_reach s" and "tc_state s = 0"
  shows "tc_spawn s = SpIdle" and "tc_disp s = DIdle" and "\<not> tc_undef s"
  using cell_reach_inv [OF assms(1)] assms(2)
  by (cases "tc_spawn s"; cases "tc_disp s"; simp add: cell_inv_def)+

lemma cell_run_append: "cell_run (xs @ ys) s = cell_run ys (cell_run xs s)"
  by (simp add: cell_run_def)

section \<open>Runs for the witnesses and the counterexamples\<close>

text \<open>A first life: spawn, run, be woken while polling, go on.\<close>

definition first_life :: "nat cell_act list" where
  "first_life = [TrySpawn 7, SpawnStep True, SpawnStep True, SpawnStep True, Dispatch]"

definition polling_cell :: "nat task_cell" where
  "polling_cell = cell_run first_life cell_new"

lemma polling_cell_eq:
  "polling_cell = \<lparr>tc_state = 1, tc_handle = True, tc_future = Some 7, tc_queue = 0, tc_wakes = 0,
     tc_spawn = SpIdle, tc_disp = DPoll, tc_polls = 0, tc_undef = False\<rparr>"
  by (simp add: polling_cell_def first_life_def cell_new_def cell_defs Let_def)

lemma polling_cell_reach: "cell_reach polling_cell"
  unfolding polling_cell_def first_life_def cell_run_simps
  by (intro cell_act cell_start) (simp_all add: quiet_def cell_new_def cell_defs Let_def)

section \<open>Properties\<close>

text \<open>
  C11: memory safety of the future slot: as long as no entry of an earlier life is left when a spawn
  claims the cell, every poll and every drop finds an initialised future, whatever the
  interleaving of the dispatcher, the wakers and the spawner; the work item's handle is set
  whenever the task is live, and the dispatcher only polls a live task.
\<close>

theorem task_future_initialised:
  assumes "cell_reach s"
  shows "\<not> tc_undef s \<and> (tc_disp s = DPoll \<longrightarrow> tc_future s \<noteq> None \<and> tc_handle s \<and> tc_state s AND SPAWNED \<noteq> 0)"
  using cell_reach_inv [OF assms]
  by (cases "tc_spawn s"; cases "tc_disp s") (auto simp: cell_inv_def)

theorem task_future_initialised_witness:
  "tc_disp polling_cell = DPoll \<and> \<not> tc_undef polling_cell \<and> tc_future polling_cell \<noteq> None"
  using task_future_initialised [OF polling_cell_reach] by (simp add: polling_cell_eq)

text \<open>
  C16: no wake-up of a live task is lost and none is queued twice: in a run whose every spawn finds no entry and no
  waker left of an earlier life of the cell (\<open>clean_spawns\<close>), once the spawn has returned and
  until the task finishes, \<open>RUN_QUEUED\<close> is set exactly when one run of the task is in the queue or
  about to be put there, and there is never more than one.
\<close>

theorem task_wakes_coalesce:
  assumes "clean_spawns acts cell_new" and "s = cell_run acts cell_new"
    and "tc_spawn s = SpIdle" and "tc_state s AND SPAWNED \<noteq> 0"
  shows "tc_queue s + tc_wakes s = (if tc_state s AND RUN_QUEUED \<noteq> 0 then 1 else 0)"
  using cell_reach_inv [OF clean_reach [OF assms(1) cell_start]] assms(2-4)
  by (cases "tc_disp s") (auto simp: cell_inv_def)

theorem task_wakes_coalesce_witness:
  "(let s = cell_run (first_life @ [WakeByRef, WakeByRef, WakeSchedule, WakeByRef]) cell_new
    in tc_state s = SPAWNED OR RUN_QUEUED \<and> tc_queue s + tc_wakes s = 1)"
proof -
  let ?acts = "first_life @ [WakeByRef, WakeByRef, WakeSchedule, WakeByRef]"
  have "clean_spawns ?acts cell_new"
    by (simp add: first_life_def cell_new_def cell_defs quiet_def Let_def)
  from task_wakes_coalesce [OF this refl] show ?thesis
    by (simp add: first_life_def cell_new_def cell_defs Let_def)
qed

text \<open>
  A live task that is woken runs again: after \<open>wake_by_ref\<close> of a live idle task, the waker's
  schedule and one turn of the dispatcher, the task is being polled.
\<close>

theorem task_woken_runs:
  assumes "cell_reach s" and "tc_spawn s = SpIdle" and "tc_disp s = DIdle" and "tc_state s AND SPAWNED \<noteq> 0"
  shows "tc_disp (cell_run [WakeByRef, WakeSchedule, Dispatch] s) = DPoll"
proof -
  from cell_reach_inv [OF assms(1)] assms(2-4) consider
      "tc_state s = 1" "tc_handle s" "tc_queue s = 0" "tc_wakes s = 0"
    | "tc_state s = 3" "tc_handle s" "tc_queue s + tc_wakes s = 1"
    by (auto simp: cell_inv_def)
  then show ?thesis
  proof cases
    case 1
    with assms(3) show ?thesis by (simp add: cell_defs Let_def)
  next
    case 2
    then have "tc_queue s = 1 \<and> tc_wakes s = 0 \<or> tc_queue s = 0 \<and> tc_wakes s = 1" by auto
    with 2 assms(3) show ?thesis by (auto simp: cell_defs Let_def)
  qed
qed

theorem task_woken_runs_witness:
  "tc_disp (cell_run [WakeByRef, WakeSchedule, Dispatch] (cell_do (PollReturns False) polling_cell)) = DPoll"
proof -
  have "cell_reach (cell_do (PollReturns False) polling_cell)"
    by (rule cell_act [OF polling_cell_reach]) (simp add: quiet_def)
  moreover have "tc_spawn (cell_do (PollReturns False) polling_cell) = SpIdle"
    "tc_disp (cell_do (PollReturns False) polling_cell) = DIdle"
    "tc_state (cell_do (PollReturns False) polling_cell) AND SPAWNED \<noteq> 0"
    by (simp_all add: polling_cell_eq cell_defs)
  ultimately show ?thesis by (rule task_woken_runs)
qed

lemma dead_cell_stuck:
  assumes "tc_state s = RUN_QUEUED" and "tc_queue s = 0" and "tc_wakes s = 0" and "tc_spawn s = SpIdle"
    and "tc_disp s = DIdle"
  shows "cell_run acts s = s"
proof (induction acts)
  case (Cons act acts)
  have "cell_do act s = s"
    using assms by (cases act) (simp_all add: cell_defs Let_def)
  with Cons show ?case by simp
qed simp

definition finished_life :: "nat cell_act list" where
  "finished_life = first_life @ [PollReturns True, FinishStep, FinishStep]"

text \<open>Getting the dispatcher to an entry that is left, or that a waker is about to leave.\<close>

definition fetch_entry :: "'f task_cell \<Rightarrow> 'f cell_act list" where
  "fetch_entry s = (if tc_queue s = 0 then [WakeSchedule, Dispatch] else [Dispatch])"

lemma fetch_left:
  assumes "tc_queue s + tc_wakes s \<noteq> 0" and "tc_handle s" and "tc_disp s = DIdle"
  shows "tc_state (cell_run (fetch_entry s) s) = tc_state s AND NOT RUN_QUEUED"
    and "tc_state s AND SPAWNED \<noteq> 0 \<Longrightarrow> tc_future s = None \<Longrightarrow> tc_undef (cell_run (fetch_entry s) s)"
  using assms by (auto simp: fetch_entry_def cell_defs Let_def)

text \<open>
  C33: when a waker used after the task has finished makes the cell unusable. \<open>SpawnError::Busy\<close> promises
  that a respawn succeeds once the future has resolved, and before the late wake \<open>try_spawn\<close> does; but \<open>wake_by_ref\<close> of a
  finished task sets \<open>RUN_QUEUED\<close> without scheduling. After a clean run, if no entry of the finished life is in the
  queue or on its way there, every later \<open>try_spawn\<close> is \<open>Busy\<close> whatever happens in between; if one is, its
  dispatch clears the bit and the cell can be spawned again.
\<close>

theorem late_wake_blocks_respawn:
  assumes "clean_spawns past cell_new" and "s = cell_run past cell_new" and "tc_state s = 0"
  shows "fst (try_spawn fut s) = Ok () \<and>
    ((\<forall>acts fut. fst (try_spawn fut (cell_run (WakeByRef # acts) s)) = Err Busy) \<longleftrightarrow> tc_queue s + tc_wakes s = 0)"
proof -
  have reach: "cell_reach s" using clean_reach [OF assms(1) cell_start] assms(2) by simp
  note free = free_cell [OF reach assms(3)]
  let ?s = "cell_do WakeByRef s"
  have s: "?s = s\<lparr>tc_state := RUN_QUEUED\<rparr>" using assms(3) by (simp add: waker_wake_by_ref_def Let_def)
  have "(\<forall>acts fut. fst (try_spawn fut (cell_run acts ?s)) = Err Busy) \<longleftrightarrow> tc_queue s + tc_wakes s = 0"
  proof
    assume none: "tc_queue s + tc_wakes s = 0"
    have stuck: "cell_run acts ?s = ?s" for acts by (rule dead_cell_stuck) (use none free s in simp_all)
    have "tc_state ?s \<noteq> 0" by (simp add: s del: cell_do.simps)
    then show "\<forall>acts fut. fst (try_spawn fut (cell_run acts ?s)) = Err Busy" unfolding stuck by (simp add: try_spawn_def)
  next
    assume busy: "\<forall>acts fut. fst (try_spawn fut (cell_run acts ?s)) = Err Busy"
    show "tc_queue s + tc_wakes s = 0"
    proof (rule ccontr)
      assume left: "tc_queue s + tc_wakes s \<noteq> 0"
      then have "tc_handle s" using cell_reach_handle [OF reach] by auto
      with left free s have "tc_state (cell_run (fetch_entry ?s) ?s) = 0"
        by (subst fetch_left(1)) simp_all
      moreover have "fst (try_spawn fut (cell_run (fetch_entry ?s) ?s)) = Err Busy" using busy by blast
      ultimately show False by (simp add: try_spawn_def del: cell_do.simps)
    qed
  qed
  then show ?thesis using assms(3) by (simp add: try_spawn_def)
qed

theorem late_wake_blocks_respawn_witness:
  "fst (try_spawn 8 (cell_run finished_life cell_new)) = Ok () \<and>
   (\<forall>acts fut. fst (try_spawn fut (cell_run (WakeByRef # acts) (cell_run finished_life cell_new))) = Err Busy)"
proof -
  have "clean_spawns finished_life cell_new" "tc_state (cell_run finished_life cell_new) = 0"
    "tc_queue (cell_run finished_life cell_new) + tc_wakes (cell_run finished_life cell_new) = 0"
    by (simp_all add: finished_life_def first_life_def cell_new_def cell_defs quiet_def Let_def)
  with late_wake_blocks_respawn [OF _ refl, of finished_life 8] show ?thesis by blast
qed

fun spawn_call :: "'f cell_act \<Rightarrow> bool" where
  "spawn_call (TrySpawn fut) = True"
| "spawn_call act = False"

lemma clean_without_spawns: "list_all (\<lambda>act. \<not> spawn_call act) acts \<Longrightarrow> clean_spawns acts s"
proof (induction acts arbitrary: s)
  case (Cons act acts)
  then show ?case by (cases act) (simp_all add: quiet_def)
qed simp

text \<open>
  C34: when a respawn is memory safe. \<open>try_spawn\<close> sets \<open>SPAWNED\<close> before it writes the future. On a cell whose task has
  finished after a clean run, some interleaving of that spawn with the dispatcher and the wakers polls a slot without a
  future exactly when an entry of the finished life is still in the queue or about to be put there (a wake during
  the last poll leaves one); otherwise no interleaving does.
\<close>

theorem respawn_safe_iff:
  assumes "clean_spawns past cell_new" and "s = cell_run past cell_new" and "tc_state s = 0"
  shows "(\<exists>acts. list_all (\<lambda>act. \<not> spawn_call act) acts \<and> tc_undef (cell_run (TrySpawn fut # acts) s)) \<longleftrightarrow>
    tc_queue s + tc_wakes s \<noteq> 0"
proof
  have reach: "cell_reach s" using clean_reach [OF assms(1) cell_start] assms(2) by simp
  note free = free_cell [OF reach assms(3)]
  let ?s = "cell_do (TrySpawn fut) s"
  have s: "?s = s\<lparr>tc_state := 3, tc_spawn := SpClaimed fut\<rparr>" using assms(3) by (simp add: try_spawn_def)
  {
    assume "\<exists>acts. list_all (\<lambda>act. \<not> spawn_call act) acts \<and> tc_undef (cell_run (TrySpawn fut # acts) s)"
    then obtain acts where acts: "list_all (\<lambda>act. \<not> spawn_call act) acts" "tc_undef (cell_run acts ?s)" by auto
    show "tc_queue s + tc_wakes s \<noteq> 0"
    proof
      assume "tc_queue s + tc_wakes s = 0"
      then have "cell_reach ?s" by (intro cell_act [OF reach]) (simp add: quiet_def)
      from cell_reach_inv [OF clean_reach [OF clean_without_spawns [OF acts(1)] this]] acts(2) show False
        by (simp add: cell_inv_def)
    qed
  next
    assume left: "tc_queue s + tc_wakes s \<noteq> 0"
    then have "tc_handle s" using cell_reach_handle [OF reach] by auto
    have "tc_future s = None" using cell_reach_dropped [OF reach] assms(3) by simp
    then have "tc_undef (cell_run (fetch_entry ?s) ?s)"
      using left free \<open>tc_handle s\<close> by (intro fetch_left(2)) (simp_all add: s del: cell_do.simps)
    moreover have "list_all (\<lambda>act. \<not> spawn_call act) (fetch_entry ?s)" by (simp add: fetch_entry_def)
    ultimately show "\<exists>acts. list_all (\<lambda>act. \<not> spawn_call act) acts \<and> tc_undef (cell_run (TrySpawn fut # acts) s)"
      by (intro exI [of _ "fetch_entry ?s"]) simp
  }
qed

definition stale_life :: "nat cell_act list" where
  "stale_life = first_life @ [WakeByRef, WakeSchedule, PollReturns True, FinishStep, FinishStep]"

theorem respawn_safe_iff_witness:
  "\<exists>acts. list_all (\<lambda>act. \<not> spawn_call act) acts \<and> tc_undef (cell_run (TrySpawn 8 # acts) (cell_run stale_life cell_new))"
proof -
  have "clean_spawns stale_life cell_new" "tc_state (cell_run stale_life cell_new) = 0"
    "tc_queue (cell_run stale_life cell_new) + tc_wakes (cell_run stale_life cell_new) \<noteq> 0"
    by (simp_all add: stale_life_def first_life_def cell_new_def cell_defs quiet_def Let_def)
  with respawn_safe_iff [OF _ refl, of stale_life 8] show ?thesis by blast
qed

text \<open>
  Without the condition on the spawns nothing bounds the entries of one cell, even where no spawn is overtaken by an
  old entry: each life that is woken in its last poll adds one.
\<close>

text \<open>A life that leaves one entry more than it found, without a fault.\<close>

definition wasteful_life :: "'f \<Rightarrow> 'f cell_act list" where
  "wasteful_life fut =
     [WakeByRef, WakeSchedule, PollReturns True, FinishStep, FinishStep,
      TrySpawn fut, SpawnStep True, SpawnStep True, SpawnStep True, Dispatch]"

definition polling_with :: "nat \<Rightarrow> 'f task_cell \<Rightarrow> bool" where
  "polling_with n s \<longleftrightarrow> tc_state s = 1 \<and> tc_handle s \<and> tc_future s \<noteq> None \<and> tc_queue s = n \<and> tc_wakes s = 0 \<and>
     tc_spawn s = SpIdle \<and> tc_disp s = DPoll \<and> \<not> tc_undef s"

lemma wasteful_life_adds: "polling_with n s \<Longrightarrow> polling_with (n + 1) (cell_run (wasteful_life fut) s)"
  by (auto simp: polling_with_def wasteful_life_def cell_defs Let_def)

theorem stale_entries_pile_up:
  "\<exists>acts. let s = cell_run acts (cell_new :: 'f task_cell) in tc_queue s = n \<and> tc_disp s = DPoll \<and> \<not> tc_undef s"
proof -
  have "\<exists>acts. polling_with n (cell_run acts (cell_new :: 'f task_cell))"
  proof (induction n)
    case 0
    show ?case
      by (rule exI [of _ "[TrySpawn undefined, SpawnStep True, SpawnStep True, SpawnStep True, Dispatch]"])
         (simp add: polling_with_def cell_new_def cell_defs Let_def)
  next
    case (Suc n)
    then obtain acts where "polling_with n (cell_run acts (cell_new :: 'f task_cell))" by blast
    from wasteful_life_adds [OF this, of undefined] show ?case
      by (intro exI [of _ "acts @ wasteful_life undefined"]) (simp add: cell_run_append)
  qed
  then show ?thesis by (auto simp: polling_with_def Let_def)
qed

text \<open>
  When PX4 cannot allocate the work item, \<open>try_spawn\<close> undoes its claim: the future is dropped, the
  state is 0 again, nothing is queued, and a later spawn is not \<open>Busy\<close>.
\<close>

theorem spawn_alloc_failure_rolls_back:
  assumes "tc_state s = 0" and "tc_spawn s = SpIdle" and "\<not> tc_handle s"
  shows "cell_run [TrySpawn fut, SpawnStep False, SpawnStep False, SpawnStep False] s = s\<lparr>tc_future := None\<rparr> \<and>
     fst (try_spawn fut' (cell_run [TrySpawn fut, SpawnStep False, SpawnStep False, SpawnStep False] s)) = Ok ()"
  using assms by (simp add: cell_defs)

theorem spawn_alloc_failure_rolls_back_witness:
  "cell_run [TrySpawn 7, SpawnStep False, SpawnStep False, SpawnStep False] (cell_new :: nat task_cell) = cell_new"
  using spawn_alloc_failure_rolls_back [of "cell_new :: nat task_cell" 7] by (simp add: cell_new_def)

end
