(* ===== verification/Cell_Ra.thy ===== *)
theory Cell_Ra
  imports Ra_Memory Task_Cell
begin

text \<open>
  \<open>crates/px4-workqueue/src/cell.rs\<close> and \<open>waker.rs\<close> under the orderings they name, over the memory of \<open>Ra_Memory\<close>:
  \<open>Bits\<close> is the state byte, \<open>Hnd\<close> the pointer to the work item (0 is null), \<open>Fut\<close> the plain slot of the future. Thread 0 is
  the work queue's, any number of other threads spawn and wake; a wake that the task makes from inside its own
  poll is one of another thread that knows less. An entry of the queue carries the view of the thread that sent it,
  since the channel synchronises the two. \<open>cl_bad\<close> records a data race on the slot and the use of a
  slot without a future, \<open>cl_lost\<close> a wake that found no work item, \<open>cl_items\<close> the calls of \<open>wi_new\<close> that succeeded.
\<close>

section \<open>State and steps\<close>

datatype cell_loc = Bits | Hnd | Fut

text \<open>
  What a thread does next: in \<open>try_spawn\<close> (\<open>Sp...\<close>), in \<open>waker_wake_by_ref\<close> (\<open>Wk...\<close>), in \<open>poll_once\<close> (\<open>Dp...\<close>).
\<close>

datatype 'f cl_pc =
    ClOut
  | SpCas 'f
  | SpWrite 'f
  | SpHandle
  | SpStore
  | SpSchedule
  | SpUndo
  | SpClear
  | WkOr
  | WkHandle
  | WkSchedule
  | DpAnd
  | DpPoll
  | DpDrop
  | DpClear

record 'f cell_ra =
  cl_mem :: "(cell_loc, 8 word) memory"
  cl_views :: "nat \<Rightarrow> cell_loc view"
  cl_pcs :: "nat \<Rightarrow> 'f cl_pc"
  cl_future :: "'f option"
  cl_queue :: "cell_loc view list"
  cl_items :: nat
  cl_bad :: bool
  cl_lost :: bool

definition cl_new :: "'f cell_ra" where
  "cl_new =
     \<lparr>cl_mem = mem_new (\<lambda>l. if l = Fut then None else Some 0), cl_views = (\<lambda>_ _. 0), cl_pcs = (\<lambda>_. ClOut),
      cl_future = None, cl_queue = [], cl_items = 0, cl_bad = False, cl_lost = False\<rparr>"

definition cl_goto ::
  "nat \<Rightarrow> 'f cl_pc \<Rightarrow> (cell_loc, 8 word) memory \<Rightarrow> cell_loc view \<Rightarrow> 'f cell_ra \<Rightarrow> 'f cell_ra" where
  "cl_goto t pc m V s =
     s\<lparr>cl_mem := m, cl_views := (cl_views s)(t := V), cl_pcs := (cl_pcs s)(t := pc)\<rparr>"

text \<open>An access to the future: it has to be there, unless it is being written, and is left as \<open>x\<close>.\<close>

definition cl_access :: "nat \<Rightarrow> 'f cl_pc \<Rightarrow> bool \<Rightarrow> 'f option \<Rightarrow> 'f cell_ra \<Rightarrow> 'f cell_ra" where
  "cl_access t pc needs x s =
     (case plain_access Fut (cl_mem s) (cl_views s t) of
        (race, m, V) \<Rightarrow>
          (cl_goto t pc m V s)\<lparr>cl_future := x, cl_bad := (cl_bad s \<or> race \<or> needs \<and> cl_future s = None)\<rparr>)"

definition cl_send :: "nat \<Rightarrow> 'f cell_ra \<Rightarrow> 'f cell_ra" where
  "cl_send t s = s\<lparr>cl_queue := cl_queue s @ [cl_views s t], cl_pcs := (cl_pcs s)(t := ClOut)\<rparr>"

definition cl_cas :: "nat \<Rightarrow> nat \<Rightarrow> 'f \<Rightarrow> 'f cell_ra \<Rightarrow> 'f cell_ra" where
  "cl_cas n t f s =
     (case ra_cas AcqRel Acquire n 0 (SPAWNED OR RUN_QUEUED) Bits (cl_mem s) (cl_views s t) of
        (Inr v, m, V) \<Rightarrow> cl_goto t (SpWrite f) m V s
      | (Inl v, m, V) \<Rightarrow> cl_goto t ClOut m V s)"

definition cl_handle :: "nat \<Rightarrow> bool \<Rightarrow> nat \<Rightarrow> 'f cell_ra \<Rightarrow> 'f cell_ra" where
  "cl_handle n alloc_ok t s =
     (case ra_load Acquire n Hnd (cl_mem s) (cl_views s t) of
        (h, V) \<Rightarrow>
          if h \<noteq> 0 then cl_goto t SpSchedule (cl_mem s) V s
          else if alloc_ok then (cl_goto t SpStore (cl_mem s) V s)\<lparr>cl_items := cl_items s + 1\<rparr>
          else cl_goto t SpUndo (cl_mem s) V s)"

definition cl_store :: "cell_loc \<Rightarrow> 8 word \<Rightarrow> nat \<Rightarrow> 'f cl_pc \<Rightarrow> 'f cell_ra \<Rightarrow> 'f cell_ra" where
  "cl_store l v t pc s =
     (case ra_store Release l v (cl_mem s) (cl_views s t) of (m, V) \<Rightarrow> cl_goto t pc m V s)"

definition cl_wake_or :: "nat \<Rightarrow> 'f cell_ra \<Rightarrow> 'f cell_ra" where
  "cl_wake_or t s =
     (case ra_rmw AcqRel (\<lambda>v. v OR RUN_QUEUED) Bits (cl_mem s) (cl_views s t) of
        (prev, m, V) \<Rightarrow>
          cl_goto t (if prev AND SPAWNED \<noteq> 0 \<and> prev AND RUN_QUEUED = 0 then WkHandle else ClOut) m V s)"

definition cl_wake_handle :: "nat \<Rightarrow> nat \<Rightarrow> 'f cell_ra \<Rightarrow> 'f cell_ra" where
  "cl_wake_handle n t s =
     (case ra_load Acquire n Hnd (cl_mem s) (cl_views s t) of
        (h, V) \<Rightarrow>
          if h \<noteq> 0 then cl_goto t WkSchedule (cl_mem s) V s
          else (cl_goto t ClOut (cl_mem s) V s)\<lparr>cl_lost := True\<rparr>)"

definition cl_and :: "nat \<Rightarrow> 'f cell_ra \<Rightarrow> 'f cell_ra" where
  "cl_and t s =
     (case ra_rmw AcqRel (\<lambda>v. v AND NOT RUN_QUEUED) Bits (cl_mem s) (cl_views s t) of
        (prev, m, V) \<Rightarrow> cl_goto t (if prev AND SPAWNED = 0 then ClOut else DpPoll) m V s)"

text \<open>
  One step of thread \<open>t\<close>: \<open>n\<close> picks among the values a load may return, \<open>b\<close> is what the step needs to know of the
  outside (whether PX4 allocates the item, whether the poll is \<open>Ready\<close>).
\<close>

definition cl_step :: "nat \<Rightarrow> bool \<Rightarrow> nat \<Rightarrow> 'f cell_ra \<Rightarrow> 'f cell_ra" where
  "cl_step n b t s =
     (case cl_pcs s t of
        ClOut \<Rightarrow> s
      | SpCas f \<Rightarrow> cl_cas n t f s
      | SpWrite f \<Rightarrow> cl_access t SpHandle False (Some f) s
      | SpHandle \<Rightarrow> cl_handle n b t s
      | SpStore \<Rightarrow> cl_store Hnd 1 t SpSchedule s
      | SpSchedule \<Rightarrow> cl_send t s
      | SpUndo \<Rightarrow> cl_access t SpClear True None s
      | SpClear \<Rightarrow> cl_store Bits 0 t ClOut s
      | WkOr \<Rightarrow> cl_wake_or t s
      | WkHandle \<Rightarrow> cl_wake_handle n t s
      | WkSchedule \<Rightarrow> cl_send t s
      | DpAnd \<Rightarrow> cl_and t s
      | DpPoll \<Rightarrow> cl_access t (if b then DpDrop else ClOut) True (cl_future s) s
      | DpDrop \<Rightarrow> cl_access t DpClear True None s
      | DpClear \<Rightarrow> cl_store Bits 0 t ClOut s)"

datatype 'f cl_act = ClSpawn nat 'f | ClWake nat | ClTake | ClStep nat bool nat

fun cl_do :: "'f cl_act \<Rightarrow> 'f cell_ra \<Rightarrow> 'f cell_ra" where
  "cl_do (ClSpawn t f) s =
     (if t \<noteq> 0 \<and> cl_pcs s t = ClOut then s\<lparr>cl_pcs := (cl_pcs s)(t := SpCas f)\<rparr> else s)"
| "cl_do (ClWake t) s =
     (if t \<noteq> 0 \<and> cl_pcs s t = ClOut then s\<lparr>cl_pcs := (cl_pcs s)(t := WkOr)\<rparr> else s)"
| "cl_do ClTake s =
     (case cl_queue s of
        [] \<Rightarrow> s
      | V # q \<Rightarrow>
          if cl_pcs s 0 = ClOut
          then (cl_goto 0 DpAnd (cl_mem s) (view_join (cl_views s 0) V) s)\<lparr>cl_queue := q\<rparr>
          else s)"
| "cl_do (ClStep n b t) s = cl_step n b t s"

text \<open>
  As in \<open>Task_Cell\<close>: when a spawn finds the cell free, no run of an earlier life is in the queue, on its way there or
  just taken by the dispatcher. A spawn of a cell that is not free fails and needs no such thing.
\<close>

definition wakers :: "'f cell_ra \<Rightarrow> nat set" where
  "wakers s = {t. cl_pcs s t = WkHandle \<or> cl_pcs s t = WkSchedule}"

definition cl_quiet :: "'f cl_act \<Rightarrow> 'f cell_ra \<Rightarrow> bool" where
  "cl_quiet act s \<longleftrightarrow>
     (case act of
        ClStep n b t \<Rightarrow>
          (\<exists>f. cl_pcs s t = SpCas f) \<and> ms_value (last (mm_hist (cl_mem s) Bits)) = 0 \<longrightarrow>
          cl_queue s = [] \<and> wakers s = {} \<and> cl_pcs s 0 \<noteq> DpAnd
      | _ \<Rightarrow> True)"

inductive cl_reach :: "'f cell_ra \<Rightarrow> bool" where
  cl_start: "cl_reach cl_new"
| cl_more: "cl_reach s \<Longrightarrow> cl_quiet act s \<Longrightarrow> cl_reach (cl_do act s)"

definition cl_run :: "'f cl_act list \<Rightarrow> 'f cell_ra \<Rightarrow> 'f cell_ra" where
  "cl_run acts s = fold cl_do acts s"

text \<open>The same of a run given by its actions.\<close>

fun cl_clean :: "'f cl_act list \<Rightarrow> 'f cell_ra \<Rightarrow> bool" where
  "cl_clean [] s = True"
| "cl_clean (act # acts) s = (cl_quiet act s \<and> cl_clean acts (cl_do act s))"

lemma cl_clean_reach: "cl_reach s \<Longrightarrow> cl_clean acts s \<Longrightarrow> cl_reach (cl_run acts s)"
  by (induction acts arbitrary: s) (simp_all add: cl_more cl_run_def)

section \<open>Invariant\<close>

text \<open>
  \<open>knows m V\<close>: a thread with the view \<open>V\<close> knows of every access to the future and of the work item's handle.
\<close>

abbreviation bits :: "'f cell_ra \<Rightarrow> (cell_loc, 8 word) message list" where
  "bits s \<equiv> mm_hist (cl_mem s) Bits"

definition has_item :: "'f cell_ra \<Rightarrow> bool" where
  "has_item s \<longleftrightarrow> length (mm_hist (cl_mem s) Hnd) = 2"

definition knows :: "'f cell_ra \<Rightarrow> cell_loc view \<Rightarrow> bool" where
  "knows s V \<longleftrightarrow> mm_clock (cl_mem s) Fut \<le> V Fut \<and> (has_item s \<longrightarrow> 1 \<le> V Hnd)"

fun disp_side :: "'f cl_pc \<Rightarrow> bool" where
  "disp_side DpAnd = True"
| "disp_side DpPoll = True"
| "disp_side DpDrop = True"
| "disp_side DpClear = True"
| "disp_side pc = False"

fun spawner :: "'f cl_pc \<Rightarrow> bool" where
  "spawner (SpWrite f) = True"
| "spawner SpHandle = True"
| "spawner SpStore = True"
| "spawner SpSchedule = True"
| "spawner SpUndo = True"
| "spawner SpClear = True"
| "spawner pc = False"

definition cl_mem_ok :: "'f cell_ra \<Rightarrow> bool" where
  "cl_mem_ok s \<longleftrightarrow>
     mem_ok (cl_mem s) \<and> (\<forall>t. view_ok (cl_mem s) (cl_views s t)) \<and> (\<forall>V \<in> set (cl_queue s). view_ok (cl_mem s) V) \<and>
     mm_hist (cl_mem s) Fut = [] \<and> bits s \<noteq> [] \<and>
     (map ms_value (mm_hist (cl_mem s) Hnd) = [0] \<or> map ms_value (mm_hist (cl_mem s) Hnd) = [0, 1])"

definition cl_threads_ok :: "'f cell_ra \<Rightarrow> bool" where
  "cl_threads_ok s \<longleftrightarrow>
     (cl_pcs s 0 = ClOut \<or> disp_side (cl_pcs s 0)) \<and> (\<forall>t. t \<noteq> 0 \<longrightarrow> \<not> disp_side (cl_pcs s t)) \<and>
     (\<forall>t. cl_pcs s t = WkHandle \<longrightarrow> has_item s \<and> 1 \<le> cl_views s t Hnd)"

text \<open>The phases: free, being spawned by \<open>t\<close>, spawned and not yet run, running.\<close>

datatype cl_phase = Free | Spawning nat | Queued | Running

definition one_run :: "'f cell_ra \<Rightarrow> bool" where
  "one_run s \<longleftrightarrow>
     (if cl_pcs s 0 = DpAnd then cl_queue s = [] \<and> wakers s = {}
      else if cl_queue s = [] then \<exists>u. wakers s = {u}
      else (\<exists>V. cl_queue s = [V]) \<and> wakers s = {})"

definition no_run :: "'f cell_ra \<Rightarrow> bool" where
  "no_run s \<longleftrightarrow> cl_queue s = [] \<and> wakers s = {} \<and> cl_pcs s 0 \<noteq> DpAnd"

fun cl_phase_ok :: "cl_phase \<Rightarrow> 'f cell_ra \<Rightarrow> bool" where
  "cl_phase_ok Free s =
     ((\<forall>t. \<not> spawner (cl_pcs s t)) \<and> (ms_value (last (bits s)) = 0 \<or> ms_value (last (bits s)) = 2) \<and>
      (cl_pcs s 0 = ClOut \<or> cl_pcs s 0 = DpAnd) \<and> knows s (ms_view (last (bits s))))"
| "cl_phase_ok (Spawning u) s =
     ((\<forall>t. spawner (cl_pcs s t) \<longleftrightarrow> t = u) \<and> ms_value (last (bits s)) = 3 \<and> no_run s \<and>
      cl_pcs s 0 = ClOut \<and> knows s (cl_views s u) \<and>
      ((\<exists>f. cl_pcs s u = SpWrite f) \<or> cl_pcs s u = SpClear \<or> cl_future s \<noteq> None) \<and>
      (cl_pcs s u = SpStore \<longrightarrow> \<not> has_item s) \<and> (cl_pcs s u = SpSchedule \<longrightarrow> has_item s))"
| "cl_phase_ok Queued s =
     ((\<forall>t. \<not> spawner (cl_pcs s t)) \<and> ms_value (last (bits s)) = 3 \<and> has_item s \<and> cl_future s \<noteq> None \<and> wakers s = {} \<and>
      (if cl_pcs s 0 = DpAnd then cl_queue s = [] \<and> knows s (cl_views s 0)
       else cl_pcs s 0 = ClOut \<and> (\<exists>V. cl_queue s = [V] \<and> knows s V)))"
| "cl_phase_ok Running s =
     ((\<forall>t. \<not> spawner (cl_pcs s t)) \<and> has_item s \<and> knows s (cl_views s 0) \<and> 1 \<le> ms_view (last (bits s)) Hnd \<and>
      (cl_pcs s 0 = DpClear \<or> cl_future s \<noteq> None) \<and>
      (ms_value (last (bits s)) = 1 \<and> no_run s \<or> ms_value (last (bits s)) = 3 \<and> one_run s))"

definition cl_items_ok :: "'f cell_ra \<Rightarrow> bool" where
  "cl_items_ok s \<longleftrightarrow>
     cl_items s = length (mm_hist (cl_mem s) Hnd) - 1 + (if \<exists>t. cl_pcs s t = SpStore then 1 else 0)"

definition cl_inv :: "'f cell_ra \<Rightarrow> cl_phase \<Rightarrow> bool" where
  "cl_inv s ph \<longleftrightarrow>
     cl_mem_ok s \<and> cl_threads_ok s \<and> cl_items_ok s \<and> \<not> cl_bad s \<and> \<not> cl_lost s \<and> cl_phase_ok ph s"

lemma cl_inv_new: "cl_inv cl_new Free"
  by (simp add: cl_inv_def cl_mem_ok_def cl_threads_ok_def cl_items_ok_def cl_new_def mem_new_ok knows_def)
     (simp add: mem_new_def has_item_def)


lemma cl_goto_sel [simp]:
  "cl_mem (cl_goto t pc m V s) = m" "cl_views (cl_goto t pc m V s) = (cl_views s)(t := V)"
  "cl_pcs (cl_goto t pc m V s) = (cl_pcs s)(t := pc)" "cl_future (cl_goto t pc m V s) = cl_future s"
  "cl_queue (cl_goto t pc m V s) = cl_queue s" "cl_items (cl_goto t pc m V s) = cl_items s"
  "cl_bad (cl_goto t pc m V s) = cl_bad s" "cl_lost (cl_goto t pc m V s) = cl_lost s"
  by (simp_all add: cl_goto_def)

lemma wakers_upd:
  "cl_pcs s' = (cl_pcs s)(t := pc) \<Longrightarrow>
   wakers s' = (if pc = WkHandle \<or> pc = WkSchedule then insert t (wakers s) else wakers s - {t})"
  by (auto simp: wakers_def)

lemma has_item_same: "mm_hist (cl_mem s') Hnd = mm_hist (cl_mem s) Hnd \<Longrightarrow> has_item s' = has_item s"
  by (simp add: has_item_def)

lemma cl_memD:
  assumes "cl_mem_ok s"
  shows "mem_ok (cl_mem s)" "view_ok (cl_mem s) (cl_views s t)" "mm_hist (cl_mem s) Fut = []" "bits s \<noteq> []"
    "mm_hist (cl_mem s) Hnd \<noteq> []"
  using assms by (auto simp: cl_mem_ok_def)

lemma cl_invD:
  assumes "cl_inv s ph"
  shows "cl_mem_ok s" "cl_threads_ok s" "cl_items_ok s" "\<not> cl_bad s" "\<not> cl_lost s" "cl_phase_ok ph s"
  using assms by (auto simp: cl_inv_def)

text \<open>The handle as a thread reads it: null only before the item exists or when the thread does not know of it.\<close>

lemma cl_load_handle:
  assumes "cl_mem_ok s" and "ra_load Acquire n Hnd (cl_mem s) (cl_views s t) = (h, V)"
  shows "h \<noteq> 0 \<Longrightarrow> has_item s" and "has_item s \<Longrightarrow> 1 \<le> cl_views s t Hnd \<Longrightarrow> h \<noteq> 0"
    and "view_ok (cl_mem s) V" and "cl_views s t x \<le> V x"
proof -
  note d = cl_memD [OF assms(1)]
  from ra_load_spec [OF assms(2) d(2,5)] obtain k where k: "cl_views s t Hnd \<le> k" "k < length (mm_hist (cl_mem s) Hnd)"
    and h: "h = ms_value (mm_hist (cl_mem s) Hnd ! k)" by metis
  have h': "h = map ms_value (mm_hist (cl_mem s) Hnd) ! k" using k h by simp
  have "(h \<noteq> 0 \<longrightarrow> has_item s) \<and> (has_item s \<and> 1 \<le> cl_views s t Hnd \<longrightarrow> h \<noteq> 0)"
  proof (cases "map ms_value (mm_hist (cl_mem s) Hnd) = [0]")
    case True
    then have "length (map ms_value (mm_hist (cl_mem s) Hnd)) = 1" by simp
    then have len: "length (mm_hist (cl_mem s) Hnd) = 1" by simp
    with k have "k = 0" by simp
    with h' True len show ?thesis by (simp add: has_item_def)
  next
    case False
    then have two: "map ms_value (mm_hist (cl_mem s) Hnd) = [0, 1]" using assms(1) by (auto simp: cl_mem_ok_def)
    then have "length (map ms_value (mm_hist (cl_mem s) Hnd)) = 2" by simp
    then have len: "length (mm_hist (cl_mem s) Hnd) = 2" by simp
    with k have "k = 0 \<or> k = 1" by auto
    then show ?thesis
    proof
      assume "k = 0"
      with h' two k(1) show ?thesis by simp
    next
      assume "k = 1"
      with h' two len show ?thesis by (simp add: has_item_def)
    qed
  qed
  then show "h \<noteq> 0 \<Longrightarrow> has_item s" "has_item s \<Longrightarrow> 1 \<le> cl_views s t Hnd \<Longrightarrow> h \<noteq> 0" by blast+
  show "view_ok (cl_mem s) V" by (rule view_ok_load [OF assms(2) d(2,1,5)])
  show "cl_views s t x \<le> V x" by (rule ra_load_grows [OF assms(2) d(2,5)])
qed

text \<open>The invariant of the memory after an operation on the state byte.\<close>

lemma cl_mem_ok_same:
  assumes "cl_mem_ok s" and "cl_mem s' = cl_mem s" and "cl_views s' = (cl_views s)(t := V)"
    and "view_ok (cl_mem s) V" and "set (cl_queue s') \<subseteq> insert (cl_views s t) (set (cl_queue s))"
  shows "cl_mem_ok s'"
proof -
  have "view_ok (cl_mem s) W" if "W \<in> set (cl_queue s')" for W
    using assms(1,5) that by (auto simp: cl_mem_ok_def)
  with assms show ?thesis by (simp add: cl_mem_ok_def)
qed

lemma cl_mem_ok_rmw:
  assumes "cl_mem_ok s" and "ra_rmw ord f Bits (cl_mem s) (cl_views s t) = (v, m, V)"
  shows "cl_mem_ok (cl_goto t pc m V s)"
proof -
  note d = cl_memD [OF assms(1)]
  from ra_rmw_spec [OF assms(2) d(2) d(1) d(4)] obtain msg where
    m: "mm_hist m = (mm_hist (cl_mem s))(Bits := bits s @ [msg])" by metis
  have "view_ok m V" "mem_ok m" "\<And>W. view_ok (cl_mem s) W \<Longrightarrow> view_ok m W"
    using ra_rmw_ok [OF assms(2) d(2) d(1) d(4)] by blast+
  with m assms(1) show ?thesis by (simp add: cl_mem_ok_def)
qed

lemma cl_mem_ok_store:
  assumes "cl_mem_ok s" and "ra_store Release l v (cl_mem s) (cl_views s t) = (m, V)"
    and "l = Bits \<or> l = Hnd \<and> v = 1 \<and> \<not> has_item s"
  shows "cl_mem_ok (cl_goto t pc m V s)"
proof -
  note d = cl_memD [OF assms(1)]
  have ne: "mm_hist (cl_mem s) l \<noteq> []" using assms(3) d(4,5) by blast
  have m: "mm_hist m = (mm_hist (cl_mem s))(l := mm_hist (cl_mem s) l @ [\<lparr>ms_value = v, ms_view = V\<rparr>])"
    using assms(2) by (auto simp: ra_store_def Let_def)
  have "view_ok m V" "mem_ok m" "\<And>W. view_ok (cl_mem s) W \<Longrightarrow> view_ok m W"
    using ra_store_ok [OF assms(2) d(2) d(1) ne] by blast+
  moreover have "map ms_value (mm_hist (cl_mem s) Hnd) = [0]" if "\<not> has_item s"
    using assms(1) that by (auto simp: cl_mem_ok_def has_item_def)
  ultimately show ?thesis using m assms(1,3) by (auto simp: cl_mem_ok_def)
qed

lemma cl_mem_ok_access:
  assumes "cl_mem_ok s"
  shows "cl_mem_ok (cl_access t pc need x s)"
proof -
  note d = cl_memD [OF assms(1)]
  obtain race m V where acc: "plain_access Fut (cl_mem s) (cl_views s t) = (race, m, V)" by (metis surj_pair)
  have m: "mm_hist m = mm_hist (cl_mem s)" using acc by (auto simp: plain_access_def Let_def)
  have "view_ok m V" "mem_ok m" "\<And>W. view_ok (cl_mem s) W \<Longrightarrow> view_ok m W"
    using plain_access_ok [OF acc d(2) d(1) d(3)] by blast+
  with m acc assms show ?thesis by (simp add: cl_access_def cl_mem_ok_def)
qed

lemma cl_items_ok_same:
  assumes "cl_items_ok s" and "cl_items s' = cl_items s" and "mm_hist (cl_mem s') Hnd = mm_hist (cl_mem s) Hnd"
    and "\<And>u. cl_pcs s' u = SpStore \<longleftrightarrow> cl_pcs s u = SpStore"
  shows "cl_items_ok s'"
  using assms by (simp add: cl_items_ok_def)

text \<open>A thread outside the phases goes from one such point to another.\<close>

fun bystander :: "'f cl_pc \<Rightarrow> bool" where
  "bystander ClOut = True"
| "bystander (SpCas f) = True"
| "bystander WkOr = True"
| "bystander WkHandle = True"
| "bystander WkSchedule = True"
| "bystander pc = False"

lemma bystander_facts:
  "bystander pc \<Longrightarrow> \<not> spawner pc \<and> pc \<noteq> SpStore \<and> \<not> disp_side pc"
  by (cases pc) auto

lemma cl_inv_bystander:
  assumes inv: "cl_inv s ph" and t: "t \<noteq> 0" and "bystander (cl_pcs s t)" and "bystander pc"
    and "view_ok (cl_mem s) V" and waking: "cl_pcs s t = WkHandle \<or> cl_pcs s t = WkSchedule \<longleftrightarrow> pc = WkSchedule"
    and "pc \<noteq> WkHandle"
  shows "cl_inv (cl_goto t pc (cl_mem s) V s) ph"
proof -
  let ?s = "cl_goto t pc (cl_mem s) V s"
  note d = cl_invD [OF inv]
  note b = bystander_facts [OF assms(3)] bystander_facts [OF assms(4)]
  have w: "wakers ?s = wakers s"
    using waking assms(7) by (auto simp: wakers_def)
  have sp: "spawner (cl_pcs ?s u) = spawner (cl_pcs s u)" for u using b by simp
  have hi: "has_item ?s = has_item s" by (simp add: has_item_def)
  have kn: "knows ?s W = knows s W" for W by (simp add: knows_def hi)
  have "cl_mem_ok ?s" by (rule cl_mem_ok_same [OF d(1), of _ t V]) (use assms(5) in auto)
  moreover have "cl_threads_ok ?s" using d(2) t b assms(7) by (auto simp: cl_threads_ok_def hi)
  moreover have "cl_items_ok ?s" by (rule cl_items_ok_same [OF d(3)]) (use b in simp_all)
  moreover have "cl_phase_ok ph ?s"
  proof -
    have same: "cl_pcs ?s 0 = cl_pcs s 0" "cl_views ?s 0 = cl_views s 0" using t by simp_all
    have "cl_pcs ?s u = cl_pcs s u \<and> cl_views ?s u = cl_views s u" if "ph = Spawning u" for u
    proof -
      have "u \<noteq> t" using d(6) b that by auto
      then show ?thesis by simp
    qed
    then show ?thesis using d(6) same
      by (cases ph; simp only: cl_phase_ok.simps sp w kn hi no_run_def one_run_def cl_goto_sel(1,4,5); auto)
  qed
  ultimately show ?thesis using d(4,5) by (simp add: cl_inv_def)
qed


section \<open>Spawning\<close>

lemma spawner_phase: "cl_inv s ph \<Longrightarrow> spawner (cl_pcs s t) \<Longrightarrow> ph = Spawning t"
  by (cases ph) (auto simp: cl_inv_def)

lemma spawner_facts:
  "spawner pc \<Longrightarrow> pc \<noteq> ClOut \<and> \<not> disp_side pc \<and> pc \<noteq> WkHandle \<and> pc \<noteq> WkSchedule"
  by (cases pc) auto

lemma not_disp_thread:
  "cl_threads_ok s \<Longrightarrow> cl_pcs s t \<noteq> ClOut \<Longrightarrow> \<not> disp_side (cl_pcs s t) \<Longrightarrow> t \<noteq> 0"
  by (cases "t = 0") (auto simp: cl_threads_ok_def)

lemma no_spstore: "(\<forall>t. \<not> spawner (cl_pcs s t)) \<Longrightarrow> cl_pcs s t \<noteq> SpStore"
  by (metis spawner.simps(3))

text \<open>The spawner goes on.\<close>

lemma cl_inv_spawning:
  assumes inv: "cl_inv s (Spawning t)" and pc: "spawner pc" and pcs: "cl_pcs s' = (cl_pcs s)(t := pc)"
    and views: "cl_views s' = (cl_views s)(t := V)" and "cl_queue s' = cl_queue s"
    and "cl_mem_ok s'" and "ms_value (last (bits s')) = 3" and "knows s' V" and "has_item s \<longrightarrow> has_item s'"
    and "\<not> cl_bad s'" and "\<not> cl_lost s'"
    and "cl_items s' = length (mm_hist (cl_mem s') Hnd) - 1 + (if pc = SpStore then 1 else 0)"
    and "(\<exists>f. pc = SpWrite f) \<or> pc = SpClear \<or> cl_future s' \<noteq> None"
    and "pc = SpStore \<longrightarrow> \<not> has_item s'" and "pc = SpSchedule \<longrightarrow> has_item s'"
  shows "cl_inv s' (Spawning t)"
proof -
  note d = cl_invD [OF inv]
  note f = spawner_facts [OF pc]
  have sp: "spawner (cl_pcs s t)" using d(6) by simp
  have t0: "t \<noteq> 0" using not_disp_thread [OF d(2)] spawner_facts [OF sp] by blast
  have "cl_threads_ok s'" using d(2) t0 f assms(9) by (auto simp: cl_threads_ok_def pcs views)
  moreover have only: "cl_pcs s u \<noteq> SpStore" if "u \<noteq> t" for u
  proof
    assume "cl_pcs s u = SpStore"
    then have "spawner (cl_pcs s u)" by simp
    with d(6) that show False by simp
  qed
  then have "(\<exists>u. cl_pcs s' u = SpStore) \<longleftrightarrow> pc = SpStore" by (auto simp: pcs)
  then have "cl_items_ok s'" using assms(12) by (simp add: cl_items_ok_def)
  moreover have "wakers s' = {}" using d(6) f wakers_upd [OF pcs] by (simp add: no_run_def)
  then have "cl_phase_ok (Spawning t) s'"
    using assms d(6) t0 by (auto simp: no_run_def pcs views)
  ultimately show ?thesis using assms by (simp add: cl_inv_def)
qed

lemma cl_inv_cas:
  assumes inv: "cl_inv s ph" and pc: "cl_pcs s t = SpCas f"
    and free_quiet: "ms_value (last (bits s)) = 0 \<Longrightarrow> cl_queue s = [] \<and> wakers s = {} \<and> cl_pcs s 0 \<noteq> DpAnd"
  shows "\<exists>ph. cl_inv (cl_cas n t f s) ph"
proof -
  note d = cl_invD [OF inv] and md = cl_memD [OF cl_invD(1) [OF inv]]
  have t0: "t \<noteq> 0" using not_disp_thread [OF d(2)] pc by simp
  obtain r m V where cas: "ra_cas AcqRel Acquire n 0 (SPAWNED OR RUN_QUEUED) Bits (cl_mem s) (cl_views s t) = (r, m, V)"
    by (metis surj_pair)
  from cas md(2) md(1) md(4) show ?thesis
  proof (cases rule: ra_cas_cases)
    case Ok
    have free: "ph = Free" using d(6) Ok(2) by (cases ph) auto
    have quiet: "cl_queue s = []" "wakers s = {}" "cl_pcs s 0 \<noteq> DpAnd" using free_quiet Ok(2) by auto
    from ra_rmw_spec [OF Ok(3) md(2) md(1) md(4)] obtain msg where
      m: "mm_hist m = (mm_hist (cl_mem s))(Bits := bits s @ [msg])" "mm_clock m = mm_clock (cl_mem s)"
        "ms_value msg = SPAWNED OR RUN_QUEUED"
      and learn: "\<And>x. acquires AcqRel \<Longrightarrow> ms_view (last (bits s)) x \<le> V x" by metis
    let ?s = "cl_goto t (SpWrite f) m V s"
    have hi: "has_item ?s = has_item s" by (simp add: has_item_def m)
    have ph: "\<And>u. \<not> spawner (cl_pcs s u)" "cl_pcs s 0 = ClOut" "knows s (ms_view (last (bits s)))"
      using d(6) free quiet by auto
    have "knows ?s V"
      using ph(3) order_trans [OF _ learn] by (auto simp: knows_def hi m(2))
    moreover have "wakers ?s = {}" using wakers_upd [of ?s s t "SpWrite f"] quiet(2) by simp
    ultimately have "cl_phase_ok (Spawning t) ?s"
      using ph(1,2) quiet t0 m by (auto simp: no_run_def)
    moreover have "cl_mem_ok ?s" by (rule cl_mem_ok_rmw [OF d(1) Ok(3)])
    moreover have "cl_threads_ok ?s" using d(2) t0 by (auto simp: cl_threads_ok_def hi)
    moreover have "cl_items_ok ?s" using d(3) no_spstore [of s] ph(1) by (auto simp: cl_items_ok_def m(1))
    ultimately have "cl_inv ?s (Spawning t)" using d(4,5) by (simp add: cl_inv_def)
    with cas Ok(1) show ?thesis by (auto simp: cl_cas_def)
  next
    case (Err k v)
    then have "cl_cas n t f s = cl_goto t ClOut (cl_mem s) V s" using cas by (simp add: cl_cas_def)
    moreover have "cl_inv (cl_goto t ClOut (cl_mem s) V s) ph"
      by (rule cl_inv_bystander [OF inv t0]) (use pc Err(7) in simp_all)
    ultimately show ?thesis by auto
  qed
qed


text \<open>The accesses to the future.\<close>

lemma cl_access_eq:
  assumes "knows s (cl_views s t)" and "needs \<longrightarrow> cl_future s \<noteq> None"
  obtains m V where "cl_access t pc needs x s = (cl_goto t pc m V s)\<lparr>cl_future := x, cl_bad := cl_bad s\<rparr>"
    and "mm_hist m = mm_hist (cl_mem s)" and "mm_clock m Fut \<le> V Fut" and "V Hnd = cl_views s t Hnd"
proof -
  obtain race m V where acc: "plain_access Fut (cl_mem s) (cl_views s t) = (race, m, V)" by (metis surj_pair)
  then have "\<not> race" using assms(1) by (auto simp: plain_access_def Let_def knows_def)
  with acc assms(2) show thesis
    by (intro that [of m V]) (auto simp: cl_access_def plain_access_def Let_def)
qed

text \<open>What holds while a thread spawns.\<close>

lemma spawner_inv: "cl_inv s ph \<Longrightarrow> spawner (cl_pcs s t) \<Longrightarrow> cl_inv s (Spawning t)"
  using spawner_phase by blast

lemma spawner_state:
  assumes "cl_inv s ph" and "spawner (cl_pcs s t)"
  shows "ms_value (last (bits s)) = 3" "knows s (cl_views s t)" "no_run s" "cl_pcs s 0 = ClOut"
    "\<And>u. u \<noteq> t \<Longrightarrow> \<not> spawner (cl_pcs s u)"
    and "t \<noteq> 0" and "(\<exists>f. cl_pcs s t = SpWrite f) \<or> cl_pcs s t = SpClear \<or> cl_future s \<noteq> None"
    and "cl_items s = length (mm_hist (cl_mem s) Hnd) - 1 + (if cl_pcs s t = SpStore then 1 else 0)"
proof -
  note d = cl_invD [OF spawner_inv [OF assms]]
  show p: "ms_value (last (bits s)) = 3" "knows s (cl_views s t)" "no_run s" "cl_pcs s 0 = ClOut"
    "\<And>u. u \<noteq> t \<Longrightarrow> \<not> spawner (cl_pcs s u)"
    and "(\<exists>f. cl_pcs s t = SpWrite f) \<or> cl_pcs s t = SpClear \<or> cl_future s \<noteq> None"
    using d(6) by auto
  show "t \<noteq> 0" using p(4) assms(2) by (cases "t = 0") simp_all
  have "(\<exists>u. cl_pcs s u = SpStore) \<longleftrightarrow> cl_pcs s t = SpStore" using p(5) by (metis spawner.simps(3))
  with d(3) show "cl_items s = length (mm_hist (cl_mem s) Hnd) - 1 + (if cl_pcs s t = SpStore then 1 else 0)"
    by (simp add: cl_items_ok_def)
qed

lemma cl_inv_sp_access:
  assumes inv0: "cl_inv s ph" and sp: "spawner (cl_pcs s t)"
    and pc: "pc = SpHandle \<and> x \<noteq> None \<or> pc = SpClear" and needs: "needs \<longrightarrow> cl_future s \<noteq> None" and "cl_pcs s t \<noteq> SpStore"
  shows "cl_inv (cl_access t pc needs x s) (Spawning t)"
proof -
  note inv = spawner_inv [OF inv0 sp]
  note d = cl_invD [OF inv] and md = cl_memD [OF cl_invD(1) [OF inv]]
  note p = spawner_state [OF inv0 sp]
  from cl_access_eq [OF p(2) needs, of pc x] obtain m V where
    a: "cl_access t pc needs x s = (cl_goto t pc m V s)\<lparr>cl_future := x, cl_bad := cl_bad s\<rparr>"
      "mm_hist m = mm_hist (cl_mem s)" "mm_clock m Fut \<le> V Fut" "V Hnd = cl_views s t Hnd" by blast
  show ?thesis
    by (rule cl_inv_spawning [OF inv, of pc _ V])
       (use pc assms(5) p(1,2,8) a cl_mem_ok_access [OF d(1), of t pc needs x] d(4,5) in
         \<open>auto simp: has_item_def knows_def\<close>)
qed

lemma cl_inv_sp_handle:
  assumes inv0: "cl_inv s ph" and sp: "spawner (cl_pcs s t)" and SpHandle: "cl_pcs s t = SpHandle"
  shows "cl_inv (cl_handle n b t s) (Spawning t)"
proof -
  note inv = spawner_inv [OF inv0 sp]
  note d = cl_invD [OF inv] and md = cl_memD [OF cl_invD(1) [OF inv]]
  note p = spawner_state [OF inv0 sp]
  obtain h V where ld: "ra_load Acquire n Hnd (cl_mem s) (cl_views s t) = (h, V)" by (metis surj_pair)
  note h = cl_load_handle [OF d(1) ld]
  have kn: "knows s V" using p(2) h(4) by (auto simp: knows_def intro: order_trans)
  have ok: "cl_mem_ok s'" if "cl_mem s' = cl_mem s" "cl_views s' = (cl_views s)(t := V)" "cl_queue s' = cl_queue s" for s'
    by (rule cl_mem_ok_same [OF d(1) that(1,2) h(3)]) (use that(3) in auto)
  have item: "has_item s \<Longrightarrow> h \<noteq> 0" using h(2) p(2) by (simp add: knows_def)
  have go: "cl_inv s' (Spawning t)"
    if "cl_mem s' = cl_mem s" "cl_views s' = (cl_views s)(t := V)" "cl_queue s' = cl_queue s"
      "cl_pcs s' = (cl_pcs s)(t := pc)" "cl_future s' = cl_future s" "\<not> cl_bad s'" "\<not> cl_lost s'"
      "pc = SpSchedule \<and> h \<noteq> 0 \<and> cl_items s' = cl_items s \<or>
       pc = SpStore \<and> h = 0 \<and> cl_items s' = cl_items s + 1 \<or> pc = SpUndo \<and> cl_items s' = cl_items s" for s' pc
  proof -
    have hi: "has_item s' = has_item s" "\<And>W. knows s' W = knows s W" using that(1) by (simp_all add: has_item_def knows_def)
    show ?thesis
      by (rule cl_inv_spawning [OF inv, of pc s' V])
         (use that ok [OF that(1-3)] kn hi p(1) h(1) item p(7,8) SpHandle in auto)
  qed
  have "cl_inv (cl_goto t SpSchedule (cl_mem s) V s) (Spawning t)" if "h \<noteq> 0"
    by (rule go [of _ SpSchedule]) (use that d(4,5) in simp_all)
  moreover have "cl_inv ((cl_goto t SpStore (cl_mem s) V s)\<lparr>cl_items := cl_items s + 1\<rparr>) (Spawning t)" if "h = 0"
    by (rule go [of _ SpStore]) (use that d(4,5) in simp_all)
  moreover have "cl_inv (cl_goto t SpUndo (cl_mem s) V s) (Spawning t)"
    by (rule go [of _ SpUndo]) (use d(4,5) in simp_all)
  moreover have "cl_handle n b t s = (if h \<noteq> 0 then cl_goto t SpSchedule (cl_mem s) V s
      else if b then (cl_goto t SpStore (cl_mem s) V s)\<lparr>cl_items := cl_items s + 1\<rparr>
      else cl_goto t SpUndo (cl_mem s) V s)"
    using ld by (simp add: cl_handle_def)
  ultimately show ?thesis by (cases "h = 0"; cases b) auto
qed

lemma cl_inv_sp_store:
  assumes inv0: "cl_inv s ph" and sp: "spawner (cl_pcs s t)" and SpStore: "cl_pcs s t = SpStore"
  shows "cl_inv (cl_store Hnd 1 t SpSchedule s) (Spawning t)"
proof -
  note inv = spawner_inv [OF inv0 sp]
  note d = cl_invD [OF inv] and md = cl_memD [OF cl_invD(1) [OF inv]]
  note p = spawner_state [OF inv0 sp]
  obtain m V where st: "ra_store Release Hnd 1 (cl_mem s) (cl_views s t) = (m, V)" by (metis surj_pair)
  then have m: "mm_hist m = (mm_hist (cl_mem s))(Hnd := mm_hist (cl_mem s) Hnd @ [\<lparr>ms_value = 1, ms_view = V\<rparr>])"
    "mm_clock m = mm_clock (cl_mem s)" "V = (cl_views s t)(Hnd := length (mm_hist (cl_mem s) Hnd))"
    by (auto simp: ra_store_def Let_def)
  have no: "\<not> has_item s" using d(6) SpStore by simp
  then have "map ms_value (mm_hist (cl_mem s) Hnd) = [0]" using d(1) by (auto simp: cl_mem_ok_def has_item_def)
  then have len: "length (mm_hist (cl_mem s) Hnd) = 1" by (metis length_map length_Cons list.size(3) One_nat_def)
  have "cl_inv (cl_goto t SpSchedule m V s) (Spawning t)"
    by (rule cl_inv_spawning [OF inv, of SpSchedule _ V])
       (use cl_mem_ok_store [OF d(1) st] no p(1,2) d(4,5) p(7,8) len SpStore in
         \<open>auto simp: has_item_def knows_def m\<close>)
  with st show ?thesis by (simp add: cl_store_def)
qed

lemma cl_inv_sp_clear:
  assumes inv0: "cl_inv s ph" and sp: "spawner (cl_pcs s t)" and SpClear: "cl_pcs s t = SpClear"
  shows "cl_inv (cl_store Bits 0 t ClOut s) Free"
proof -
  note inv = spawner_inv [OF inv0 sp]
  note d = cl_invD [OF inv] and md = cl_memD [OF cl_invD(1) [OF inv]]
  note p = spawner_state [OF inv0 sp]
  obtain m V where st: "ra_store Release Bits 0 (cl_mem s) (cl_views s t) = (m, V)" by (metis surj_pair)
  then have m: "mm_hist m = (mm_hist (cl_mem s))(Bits := bits s @ [\<lparr>ms_value = 0, ms_view = V\<rparr>])"
    "mm_clock m = mm_clock (cl_mem s)" "V = (cl_views s t)(Bits := length (bits s))"
    by (auto simp: ra_store_def Let_def)
  let ?s = "cl_goto t ClOut m V s"
  have hi: "has_item ?s = has_item s" by (simp add: has_item_def m)
  have "cl_mem_ok ?s" by (rule cl_mem_ok_store [OF d(1) st]) simp
  moreover have "cl_threads_ok ?s" using d(2) p(6) by (auto simp: cl_threads_ok_def hi)
  moreover have "cl_items_ok ?s"
  proof -
    have "cl_pcs ?s u \<noteq> SpStore" for u using p(5) [of u] by (cases "u = t") auto
    then show ?thesis using p(8) SpClear by (simp add: cl_items_ok_def m(1))
  qed
  moreover have "knows ?s V" using p(2) hi by (simp add: knows_def m(2)) (simp add: m(3))
  then have "cl_phase_ok Free ?s" using p p(6) by (auto simp: m(1))
  ultimately have "cl_inv ?s Free" using d(4,5) by (simp add: cl_inv_def)
  with st show ?thesis by (simp add: cl_store_def)
qed

lemma cl_inv_sp_send:
  assumes inv0: "cl_inv s ph" and sp: "spawner (cl_pcs s t)" and SpSchedule: "cl_pcs s t = SpSchedule"
  shows "cl_inv (cl_send t s) Queued"
proof -
  note inv = spawner_inv [OF inv0 sp]
  note d = cl_invD [OF inv] and md = cl_memD [OF cl_invD(1) [OF inv]]
  note p = spawner_state [OF inv0 sp]
  let ?s = "cl_send t s"
  have sel: "cl_mem ?s = cl_mem s" "cl_views ?s = cl_views s" "cl_pcs ?s = (cl_pcs s)(t := ClOut)"
    "cl_queue ?s = [cl_views s t]" "cl_future ?s = cl_future s" "cl_items ?s = cl_items s" "cl_bad ?s = cl_bad s" "cl_lost ?s = cl_lost s"
    using p(3) by (simp_all add: cl_send_def no_run_def)
  have hi: "has_item ?s" using d(6) SpSchedule by (simp add: has_item_def sel)
  have "cl_mem_ok ?s" by (rule cl_mem_ok_same [OF d(1), of _ t "cl_views s t"]) (use md(2) in \<open>auto simp: sel\<close>)
  moreover have "cl_threads_ok ?s" using d(2) p(6) by (auto simp: cl_threads_ok_def sel hi)
  moreover have "cl_items_ok ?s"
  proof -
    have "cl_pcs ?s u \<noteq> SpStore" for u using p(5) [of u] by (cases "u = t") (auto simp: sel)
    then show ?thesis using p(8) SpSchedule by (simp add: cl_items_ok_def sel)
  qed
  moreover have "wakers ?s = {}" using wakers_upd [OF sel(3)] p(3) by (simp add: no_run_def)
  then have "cl_phase_ok Queued ?s"
    using p SpSchedule hi by (auto simp: sel knows_def has_item_def)
  ultimately show ?thesis using d(4,5) by (simp add: cl_inv_def sel(7,8) del: cl_phase_ok.simps)
qed

lemma cl_inv_spawner:
  assumes inv: "cl_inv s ph" and sp: "spawner (cl_pcs s t)"
  shows "\<exists>ph. cl_inv (cl_step n b t s) ph"
proof (cases "cl_pcs s t")
  case (SpWrite f)
  with cl_inv_sp_access [OF inv sp, of SpHandle "Some f" False] show ?thesis by (auto simp: cl_step_def)
next
  case SpUndo
  with cl_inv_sp_access [OF inv sp, of SpClear None True] spawner_state(7) [OF inv sp] show ?thesis
    by (auto simp: cl_step_def)
next
  case SpHandle
  with cl_inv_sp_handle [OF inv sp, of n b] show ?thesis by (auto simp: cl_step_def)
next
  case SpStore
  with cl_inv_sp_store [OF inv sp] show ?thesis by (auto simp: cl_step_def)
next
  case SpClear
  with cl_inv_sp_clear [OF inv sp] show ?thesis by (auto simp: cl_step_def)
next
  case SpSchedule
  with cl_inv_sp_send [OF inv sp] show ?thesis by (auto simp: cl_step_def)
qed (use sp in simp_all)

section \<open>Waking\<close>

text \<open>The waking thread learns of the item from the state byte whenever a run of the cell is under way.\<close>

definition wake_goes :: "'f cell_ra \<Rightarrow> bool" where
  "wake_goes s \<longleftrightarrow> ms_value (last (bits s)) AND SPAWNED \<noteq> 0 \<and> ms_value (last (bits s)) AND RUN_QUEUED = 0"

lemma wake_goes_running: "cl_phase_ok ph s \<Longrightarrow> wake_goes s \<longleftrightarrow> ph = Running \<and> ms_value (last (bits s)) = 1"
  by (cases ph) (auto simp: wake_goes_def)

lemma wake_or_phase:
  assumes ph: "cl_phase_ok ph s" and bits: "bits s' = bits s @ [msg]"
    and val: "ms_value msg = ms_value (last (bits s)) OR RUN_QUEUED" and keep: "\<And>x. ms_view (last (bits s)) x \<le> ms_view msg x"
    and same: "cl_pcs s' 0 = cl_pcs s 0" "cl_views s' 0 = cl_views s 0" "cl_queue s' = cl_queue s" "cl_future s' = cl_future s"
      "\<And>u. spawner (cl_pcs s u) \<Longrightarrow> cl_pcs s' u = cl_pcs s u \<and> cl_views s' u = cl_views s u"
      "\<And>u. spawner (cl_pcs s' u) = spawner (cl_pcs s u)" "has_item s' = has_item s" "\<And>W. knows s' W = knows s W"
    and w: "wakers s' = (if wake_goes s then {t} \<union> wakers s else wakers s)"
  shows "cl_phase_ok ph s'"
proof (cases ph)
  case Free
  with ph val have "ms_value msg = 2" by auto
  moreover have "knows s (ms_view msg)" using ph Free order_trans [OF _ keep] by (auto simp: knows_def)
  ultimately show ?thesis using Free ph same bits by simp
next
  case (Spawning u)
  with ph val have "ms_value msg = 3" by auto
  then show ?thesis using Spawning ph same bits w wake_goes_running [OF ph] by (simp add: no_run_def)
next
  case Queued
  with ph val have "ms_value msg = 3" by auto
  then show ?thesis using Queued ph same bits w wake_goes_running [OF ph] by simp
next
  case Running
  then have old: "ms_value (last (bits s)) = 1 \<and> no_run s \<or> ms_value (last (bits s)) = 3 \<and> one_run s" using ph by simp
  then have val: "ms_value msg = 3" using val by auto
  have "one_run s'" using old w wake_goes_running [OF ph] Running same by (auto simp: no_run_def one_run_def)
  moreover have "1 \<le> ms_view msg Hnd" using Running ph order_trans [OF _ keep [of Hnd]] by simp
  ultimately show ?thesis using Running ph same bits val by simp
qed

lemma cl_inv_wake_or:
  assumes inv: "cl_inv s ph" and pc: "cl_pcs s t = WkOr"
  shows "cl_inv (cl_wake_or t s) ph"
proof -
  note d = cl_invD [OF inv] and md = cl_memD [OF cl_invD(1) [OF inv]]
  have t0: "t \<noteq> 0" using not_disp_thread [OF d(2)] pc by simp
  obtain prev m V where rmw: "ra_rmw AcqRel (\<lambda>v. v OR RUN_QUEUED) Bits (cl_mem s) (cl_views s t) = (prev, m, V)"
    by (metis surj_pair)
  from ra_rmw_spec [OF rmw md(2) md(1) md(4)] obtain msg where prev: "prev = ms_value (last (bits s))"
    and m: "mm_hist m = (mm_hist (cl_mem s))(Bits := bits s @ [msg])" "mm_clock m = mm_clock (cl_mem s)"
      "ms_value msg = prev OR RUN_QUEUED"
    and keep: "\<And>x. ms_view (last (bits s)) x \<le> ms_view msg x"
    and learn: "\<And>x. acquires AcqRel \<Longrightarrow> ms_view (last (bits s)) x \<le> V x" by metis
  define pc' :: "'a cl_pc" where "pc' = (if wake_goes s then WkHandle else ClOut)"
  let ?s = "cl_goto t pc' m V s"
  have step: "cl_wake_or t s = ?s" using rmw by (simp add: cl_wake_or_def pc'_def wake_goes_def prev)
  have hi: "has_item ?s = has_item s" by (simp add: has_item_def m(1))
  have tpc: "\<not> spawner pc'" "\<not> disp_side pc'" "pc' \<noteq> SpStore" "pc' = WkHandle \<longleftrightarrow> wake_goes s" by (simp_all add: pc'_def)
  have "cl_mem_ok ?s" by (rule cl_mem_ok_rmw [OF d(1) rmw])
  moreover have "cl_threads_ok ?s"
  proof -
    have "has_item s \<and> 1 \<le> V Hnd" if "wake_goes s"
      using that wake_goes_running [OF d(6)] d(6) order_trans [OF _ learn [of Hnd]] by auto
    with d(2) t0 tpc show ?thesis by (auto simp: cl_threads_ok_def hi)
  qed
  moreover have "cl_items_ok ?s" by (rule cl_items_ok_same [OF d(3)]) (use pc tpc m(1) in simp_all)
  moreover have "cl_phase_ok ph ?s"
  proof (rule wake_or_phase [OF d(6)])
    show "bits ?s = bits s @ [msg]" by (simp add: m(1))
    show "wakers ?s = (if wake_goes s then {t} \<union> wakers s else wakers s)" using pc by (auto simp: wakers_def pc'_def)
  qed (use m(3) prev keep t0 tpc pc hi m(2) in \<open>auto simp: knows_def\<close>)
  ultimately show ?thesis using d(4,5) step by (simp add: cl_inv_def del: cl_phase_ok.simps)
qed

lemma cl_inv_wake_handle:
  assumes inv: "cl_inv s ph" and pc: "cl_pcs s t = WkHandle"
  shows "cl_inv (cl_wake_handle n t s) ph"
proof -
  note d = cl_invD [OF inv]
  have t0: "t \<noteq> 0" using not_disp_thread [OF d(2)] pc by simp
  obtain h V where ld: "ra_load Acquire n Hnd (cl_mem s) (cl_views s t) = (h, V)" by (metis surj_pair)
  note h = cl_load_handle [OF d(1) ld]
  have "h \<noteq> 0" using h(2) d(2) pc by (simp add: cl_threads_ok_def)
  then have "cl_wake_handle n t s = cl_goto t WkSchedule (cl_mem s) V s" using ld by (simp add: cl_wake_handle_def)
  also have "cl_inv \<dots> ph" by (rule cl_inv_bystander [OF inv t0]) (use pc h(3) in simp_all)
  finally show ?thesis .
qed

lemma cl_inv_wake_send:
  assumes inv: "cl_inv s ph" and pc: "cl_pcs s t = WkSchedule"
  shows "cl_inv (cl_send t s) ph"
proof -
  note d = cl_invD [OF inv] and md = cl_memD [OF cl_invD(1) [OF inv]]
  have t0: "t \<noteq> 0" using not_disp_thread [OF d(2)] pc by simp
  let ?s = "cl_send t s"
  have sel: "cl_mem ?s = cl_mem s" "cl_views ?s = cl_views s" "cl_pcs ?s = (cl_pcs s)(t := ClOut)"
    "cl_queue ?s = cl_queue s @ [cl_views s t]" "cl_future ?s = cl_future s" "cl_items ?s = cl_items s"
    "cl_bad ?s = cl_bad s" "cl_lost ?s = cl_lost s"
    by (simp_all add: cl_send_def)
  have hi: "has_item ?s = has_item s" by (simp add: has_item_def sel)
  have kn: "knows ?s W = knows s W" for W by (simp add: knows_def hi sel)
  have sp: "spawner (cl_pcs ?s u) = spawner (cl_pcs s u)" for u using pc by (simp add: sel)
  have w: "wakers ?s = wakers s - {t}" using wakers_upd [OF sel(3)] by simp
  have mine: "t \<in> wakers s" using pc by (simp add: wakers_def)
  have same: "cl_pcs ?s 0 = cl_pcs s 0" using t0 by (simp add: sel)
  have "cl_mem_ok ?s" by (rule cl_mem_ok_same [OF d(1), of _ t "cl_views s t"]) (use md(2) in \<open>auto simp: sel\<close>)
  moreover have "cl_threads_ok ?s" using d(2) t0 by (auto simp: cl_threads_ok_def sel hi)
  moreover have "cl_items_ok ?s" by (rule cl_items_ok_same [OF d(3)]) (use pc in \<open>simp_all add: sel\<close>)
  moreover have "cl_phase_ok ph ?s"
  proof (cases ph)
    case Free
    with d(6) show ?thesis by (simp add: sp kn same sel(1))
  next
    case Running
    have "one_run s" and val: "ms_value (last (bits s)) = 3" using Running d(6) mine by (auto simp: no_run_def)
    then have "cl_queue s = []" "cl_pcs s 0 \<noteq> DpAnd" "wakers s = {t}"
      using mine by (auto simp: one_run_def split: if_splits)
    then have "one_run ?s" by (simp add: one_run_def sel(4) same w)
    with Running d(6) val show ?thesis by (simp add: sp kn hi same sel(1,2,5))
  qed (use d(6) mine in \<open>auto simp: no_run_def\<close>)
  ultimately show ?thesis using d(4,5) by (simp add: cl_inv_def sel(7,8) del: cl_phase_ok.simps)
qed

section \<open>Running\<close>

lemma cl_inv_take:
  assumes inv: "cl_inv s ph"
  shows "cl_inv (cl_do ClTake s) ph"
proof (cases "cl_queue s = [] \<or> cl_pcs s 0 \<noteq> ClOut")
  case True
  then have "cl_do ClTake s = s" by (cases "cl_queue s") auto
  with inv show ?thesis by simp
next
  case False
  then obtain W q where q: "cl_queue s = W # q" and pc: "cl_pcs s 0 = ClOut" by (cases "cl_queue s") auto
  note d = cl_invD [OF inv] and md = cl_memD [OF cl_invD(1) [OF inv]]
  define V where "V = view_join (cl_views s 0) W"
  define s' where "s' = (cl_goto 0 DpAnd (cl_mem s) V s)\<lparr>cl_queue := q\<rparr>"
  have step: "cl_do ClTake s = s'" using q pc by (simp add: s'_def V_def)
  have sel: "cl_mem s' = cl_mem s" "cl_views s' = (cl_views s)(0 := V)" "cl_pcs s' = (cl_pcs s)(0 := DpAnd)"
    "cl_queue s' = q" "cl_future s' = cl_future s" "cl_items s' = cl_items s" "cl_bad s' = cl_bad s" "cl_lost s' = cl_lost s"
    by (simp_all add: s'_def)
  have hi: "has_item s' = has_item s" by (simp add: has_item_def sel)
  have kn: "knows s' U = knows s U" for U by (simp add: knows_def hi sel)
  have sp: "spawner (cl_pcs s' u) = spawner (cl_pcs s u)" for u using pc by (simp add: sel)
  have w: "wakers s' = wakers s" using wakers_upd [OF sel(3)] pc by (auto simp: wakers_def)
  have V: "view_ok (cl_mem s) V" using d(1) q by (auto simp: V_def cl_mem_ok_def view_ok_join)
  have know: "knows s (cl_views s 0) \<or> knows s W \<Longrightarrow> knows s V" by (auto simp: V_def knows_def)
  have "cl_mem_ok s'" by (rule cl_mem_ok_same [OF d(1) sel(1,2) V]) (use q sel(4) in auto)
  moreover have "cl_threads_ok s'" using d(2) by (auto simp: cl_threads_ok_def sel hi)
  moreover have "cl_items_ok s'" by (rule cl_items_ok_same [OF d(3)]) (use pc in \<open>simp_all add: sel\<close>)
  moreover have "cl_phase_ok ph s'"
  proof (cases ph)
    case Free
    with d(6) show ?thesis by (simp add: sp kn sel(1,3) del: fun_upd_apply) simp
  next
    case Spawning
    with d(6) q show ?thesis by (simp add: no_run_def)
  next
    case Queued
    with d(6) q pc have "knows s V" "q = []" using know by auto
    with Queued d(6) w show ?thesis by (simp add: sp kn hi sel(1,2,4,5)) (simp add: sel)
  next
    case Running
    have "\<not> no_run s" using q by (simp add: no_run_def)
    then have run: "one_run s" and val: "ms_value (last (bits s)) = 3" using Running d(6) by auto
    then have "q = []" "wakers s = {}" using q pc by (auto simp: one_run_def)
    then have "one_run s'" using w by (simp add: one_run_def sel(3,4))
    with Running d(6) val pc know show ?thesis by (simp add: sp kn hi sel(1,2,5))
  qed
  ultimately have "cl_inv s' ph" using d(4,5) by (simp add: cl_inv_def sel(7,8) del: cl_phase_ok.simps)
  with step show ?thesis by simp
qed

lemma disp_thread: "cl_threads_ok s \<Longrightarrow> disp_side (cl_pcs s t) \<Longrightarrow> t = 0"
  by (cases "t = 0") (simp_all add: cl_threads_ok_def)

lemma cl_inv_and:
  assumes inv: "cl_inv s ph" and pc: "cl_pcs s 0 = DpAnd"
  shows "\<exists>ph. cl_inv (cl_and 0 s) ph"
proof -
  note d = cl_invD [OF inv] and md = cl_memD [OF cl_invD(1) [OF inv]]
  obtain prev m V where rmw: "ra_rmw AcqRel (\<lambda>v. v AND NOT RUN_QUEUED) Bits (cl_mem s) (cl_views s 0) = (prev, m, V)"
    by (metis surj_pair)
  from ra_rmw_spec [OF rmw md(2) md(1) md(4)] obtain msg where prev: "prev = ms_value (last (bits s))"
    and m: "mm_hist m = (mm_hist (cl_mem s))(Bits := bits s @ [msg])" "mm_clock m = mm_clock (cl_mem s)"
      "ms_value msg = prev AND NOT RUN_QUEUED"
    and own: "\<And>x. cl_views s 0 x \<le> V x"
    and keep: "\<And>x. ms_view (last (bits s)) x \<le> ms_view msg x"
    and give: "\<And>x. releases AcqRel \<Longrightarrow> V x \<le> ms_view msg x" by metis
  define pc' :: "'a cl_pc" where "pc' = (if prev AND SPAWNED = 0 then ClOut else DpPoll)"
  let ?s = "cl_goto 0 pc' m V s"
  have step: "cl_and 0 s = ?s" using rmw by (simp add: cl_and_def pc'_def)
  have pc': "pc' = ClOut \<or> pc' = DpPoll" by (simp add: pc'_def)
  have hi: "has_item ?s = has_item s" by (simp add: has_item_def m(1))
  have kn: "knows ?s W = knows s W" for W by (simp add: knows_def hi m(2))
  have sp: "spawner (cl_pcs ?s u) = spawner (cl_pcs s u)" for u using pc pc' by auto
  have w: "wakers ?s = wakers s" using pc pc' by (auto simp: wakers_def)
  have "cl_mem_ok ?s" by (rule cl_mem_ok_rmw [OF d(1) rmw])
  moreover have "cl_threads_ok ?s" using d(2) pc' by (auto simp: cl_threads_ok_def hi)
  moreover have "cl_items_ok ?s" by (rule cl_items_ok_same [OF d(3)]) (use pc pc' m(1) in auto)
  moreover have "\<exists>ph. cl_phase_ok ph ?s"
  proof (cases "ph = Free")
    case True
    then have "ms_value msg = 0" "pc' = ClOut" using d(6) prev m(3) by (auto simp: pc'_def)
    moreover have "knows s (ms_view msg)" using d(6) True order_trans [OF _ keep] by (auto simp: knows_def)
    ultimately have "cl_phase_ok Free ?s" using d(6) True sp kn m(1) by simp
    then show ?thesis ..
  next
    case False
    have all: "\<forall>u. \<not> spawner (cl_pcs s u)" "has_item s" "cl_future s \<noteq> None" "prev = 3" "knows s (cl_views s 0)"
      "cl_queue s = []" "wakers s = {}"
      using d(6) pc prev False by (cases ph; auto simp: no_run_def one_run_def)+
    then have val: "ms_value msg = 1" and poll: "pc' = DpPoll" using m(3) by (simp_all add: pc'_def)
    have "knows s V" using all(5) own by (auto simp: knows_def intro: order_trans)
    moreover have "1 \<le> ms_view msg Hnd"
      using calculation all(2) order_trans [OF _ give [of Hnd]] by (simp add: knows_def)
    moreover have "no_run ?s" using all(6,7) w poll by (simp add: no_run_def)
    ultimately have "cl_phase_ok Running ?s" using all sp kn hi m(1) val by simp
    then show ?thesis ..
  qed
  ultimately show ?thesis using d(4,5) step by (auto simp: cl_inv_def simp del: cl_phase_ok.simps)
qed

lemma cl_inv_poll:
  assumes inv: "cl_inv s ph" and pc: "cl_pcs s 0 = DpPoll \<or> cl_pcs s 0 = DpDrop"
    and nx: "pc' = DpClear \<or> (pc' = DpDrop \<or> pc' = ClOut) \<and> x \<noteq> None"
  shows "cl_inv (cl_access 0 pc' True x s) Running"
proof -
  note d = cl_invD [OF inv]
  have ph: "ph = Running" using d(6) pc by (cases ph) (auto split: if_splits)
  have all: "\<forall>u. \<not> spawner (cl_pcs s u)" "has_item s" "knows s (cl_views s 0)" "1 \<le> ms_view (last (bits s)) Hnd"
    "cl_future s \<noteq> None"
    and run: "ms_value (last (bits s)) = 1 \<and> no_run s \<or> ms_value (last (bits s)) = 3 \<and> one_run s"
    using d(6) pc ph by auto
  from cl_access_eq [OF all(3), of True pc' x] all(5) obtain m V where
    a: "cl_access 0 pc' True x s = (cl_goto 0 pc' m V s)\<lparr>cl_future := x, cl_bad := cl_bad s\<rparr>"
      "mm_hist m = mm_hist (cl_mem s)" "mm_clock m Fut \<le> V Fut" "V Hnd = cl_views s 0 Hnd" by blast
  let ?s = "(cl_goto 0 pc' m V s)\<lparr>cl_future := x, cl_bad := cl_bad s\<rparr>"
  have pcs: "cl_pcs ?s = (cl_pcs s)(0 := pc')" by simp
  have hi: "has_item ?s = has_item s" by (simp add: has_item_def a(2))
  have sp: "spawner (cl_pcs ?s u) = spawner (cl_pcs s u)" for u using pc nx by auto
  have w: "wakers ?s = wakers s" using pc nx wakers_upd [OF pcs] by (auto simp: wakers_def)
  have "cl_mem_ok ?s" using cl_mem_ok_access [OF d(1), of 0 pc' True x] a(1) by simp
  moreover have "cl_threads_ok ?s" using d(2) nx by (auto simp: cl_threads_ok_def hi)
  moreover have "cl_items_ok ?s" by (rule cl_items_ok_same [OF d(3)]) (use pc nx a(2) in auto)
  moreover have "cl_phase_ok Running ?s"
  proof -
    have "knows ?s V" using all(3) a(3,4) hi by (simp add: knows_def)
    moreover have "no_run ?s = no_run s" "one_run ?s = one_run s"
      using pc nx w by (auto simp: no_run_def one_run_def)
    ultimately show ?thesis using all run sp hi a(2) nx by auto
  qed
  ultimately show ?thesis using d(4,5) a(1) by (simp add: cl_inv_def del: cl_phase_ok.simps)
qed

lemma cl_inv_clear:
  assumes inv: "cl_inv s ph" and pc: "cl_pcs s 0 = DpClear"
  shows "cl_inv (cl_store Bits 0 0 ClOut s) Free"
proof -
  note d = cl_invD [OF inv]
  have ph: "ph = Running" using d(6) pc by (cases ph) (auto split: if_splits)
  obtain m V where st: "ra_store Release Bits 0 (cl_mem s) (cl_views s 0) = (m, V)" by (metis surj_pair)
  then have m: "mm_hist m = (mm_hist (cl_mem s))(Bits := bits s @ [\<lparr>ms_value = 0, ms_view = V\<rparr>])"
    "mm_clock m = mm_clock (cl_mem s)" "V = (cl_views s 0)(Bits := length (bits s))"
    by (auto simp: ra_store_def Let_def)
  let ?s = "cl_goto 0 ClOut m V s"
  have hi: "has_item ?s = has_item s" by (simp add: has_item_def m(1))
  have sp: "spawner (cl_pcs ?s u) = spawner (cl_pcs s u)" for u using pc by simp
  have "cl_mem_ok ?s" by (rule cl_mem_ok_store [OF d(1) st]) simp
  moreover have "cl_threads_ok ?s" using d(2) by (auto simp: cl_threads_ok_def hi)
  moreover have "cl_items_ok ?s" by (rule cl_items_ok_same [OF d(3)]) (use pc m(1) in auto)
  moreover have "knows ?s V" using d(6) ph hi by (simp add: knows_def m(2)) (simp add: m(3))
  then have "cl_phase_ok Free ?s" using d(6) ph sp m(1) by simp
  ultimately have "cl_inv ?s Free" using d(4,5) by (simp add: cl_inv_def del: cl_phase_ok.simps)
  with st show ?thesis by (simp add: cl_store_def)
qed

section \<open>Every run\<close>

lemma cl_inv_call:
  assumes "cl_inv s ph" and "t \<noteq> 0" and "cl_pcs s t = ClOut" and "pc = WkOr \<or> pc = SpCas f"
  shows "cl_inv (s\<lparr>cl_pcs := (cl_pcs s)(t := pc)\<rparr>) ph"
proof -
  have "s\<lparr>cl_pcs := (cl_pcs s)(t := pc)\<rparr> = cl_goto t pc (cl_mem s) (cl_views s t) s" by (simp add: cl_goto_def)
  also have "cl_inv \<dots> ph"
    by (rule cl_inv_bystander [OF assms(1,2)]) (use assms cl_memD(2) [OF cl_invD(1) [OF assms(1)]] in auto)
  finally show ?thesis .
qed

lemma cl_inv_step:
  assumes inv: "cl_inv s ph" and quiet: "cl_quiet (ClStep n b t) s"
  shows "\<exists>ph. cl_inv (cl_step n b t s) ph"
proof -
  note disp = disp_thread [OF cl_invD(2) [OF inv], of t]
  have poll: "\<exists>ph. cl_inv (cl_access 0 pc' True x s) ph"
    if "cl_pcs s 0 = DpPoll \<or> cl_pcs s 0 = DpDrop" "pc' = DpClear \<or> (pc' = DpDrop \<or> pc' = ClOut) \<and> x \<noteq> None" for pc' x
    using cl_inv_poll [OF inv that] by blast
  show ?thesis
  proof (cases "cl_pcs s t")
    case ClOut
    with inv show ?thesis by (auto simp: cl_step_def)
  next
    case (SpCas f)
    with quiet have "ms_value (last (bits s)) = 0 \<Longrightarrow> cl_queue s = [] \<and> wakers s = {} \<and> cl_pcs s 0 \<noteq> DpAnd"
      by (auto simp: cl_quiet_def)
    from cl_inv_cas [OF inv SpCas this, of n] SpCas show ?thesis by (simp add: cl_step_def)
  next
    case WkOr
    with cl_inv_wake_or [OF inv WkOr] show ?thesis by (auto simp: cl_step_def)
  next
    case WkHandle
    with cl_inv_wake_handle [OF inv WkHandle, of n] show ?thesis by (auto simp: cl_step_def)
  next
    case WkSchedule
    with cl_inv_wake_send [OF inv WkSchedule] show ?thesis by (auto simp: cl_step_def)
  next
    case DpAnd
    with disp cl_inv_and [OF inv] show ?thesis by (simp add: cl_step_def)
  next
    case DpPoll
    have "cl_future s \<noteq> None" using inv DpPoll disp by (cases ph) (auto simp: cl_inv_def split: if_splits)
    with DpPoll disp poll [of "if b then DpDrop else ClOut" "cl_future s"] show ?thesis by (simp add: cl_step_def)
  next
    case DpDrop
    with disp poll [of DpClear None] show ?thesis by (simp add: cl_step_def)
  next
    case DpClear
    with disp cl_inv_clear [OF inv] show ?thesis by (auto simp: cl_step_def)
  qed (use cl_inv_spawner [OF inv, of t n b] in simp_all)
qed

lemma cl_inv_reach: "cl_reach s \<Longrightarrow> \<exists>ph. cl_inv s ph"
proof (induction rule: cl_reach.induct)
  case cl_start
  show ?case using cl_inv_new by blast
next
  case (cl_more s act)
  then obtain ph where inv: "cl_inv s ph" by blast
  show ?case
  proof (cases act)
    case (ClSpawn t f)
    with inv cl_inv_call [OF inv, of t "SpCas f" f] show ?thesis by auto
  next
    case (ClWake t)
    with inv cl_inv_call [OF inv, of t WkOr] show ?thesis by auto
  next
    case ClTake
    with cl_inv_take [OF inv] show ?thesis by blast
  next
    case (ClStep n b t)
    with cl_inv_step [OF inv] cl_more.hyps(2) show ?thesis by simp
  qed
qed

section \<open>Properties\<close>

text \<open>
  C7: the orderings of the source suffice for a task cell shared by any number of spawning and waking threads and the
  work queue, whatever old values the loads return. In a run whose every spawn that finds the cell free finds no run of an
  earlier life in the queue, on its way there or just taken (\<open>cl_clean\<close>; \<open>respawn_safe_iff\<close> shows what happens
  otherwise), no two accesses to the future race and none finds the
  slot empty, no wake finds a null handle (where it would be dropped), and the cell allocates one work item at most.
\<close>

theorem cell_orderings_suffice:
  assumes "cl_clean acts cl_new" and "s = cl_run acts cl_new"
  shows "\<not> cl_bad s \<and> \<not> cl_lost s \<and> cl_items s \<le> 1"
proof -
  have "cl_reach s" using cl_clean_reach [OF cl_start assms(1)] assms(2) by simp
  from cl_inv_reach [OF this] obtain ph where inv: "cl_inv s ph" ..
  note d = cl_invD [OF inv]
  have "length (mm_hist (cl_mem s) Hnd) = length (map ms_value (mm_hist (cl_mem s) Hnd))" by simp
  then have len: "length (mm_hist (cl_mem s) Hnd) = 1 \<or> length (mm_hist (cl_mem s) Hnd) = 2"
    using d(1) by (auto simp: cl_mem_ok_def)
  have "\<not> has_item s" if "cl_pcs s t = SpStore" for t
    using spawner_phase [OF inv, of t] d(6) that by simp
  with d(3) len have "cl_items s \<le> 1" by (auto simp: cl_items_ok_def has_item_def)
  with d(4,5) show ?thesis by simp
qed

text \<open>
  A run with two lives of the cell: thread 1 spawns and the task is polled, thread 2 wakes it, it ends, and thread 3
  spawns again with the same work item, while its compare-exchange and loads may still read what was there first.
\<close>

definition two_lives :: "nat cl_act list" where
  "two_lives =
     [ClSpawn 1 7, ClStep 0 True 1, ClStep 0 True 1, ClStep 0 True 1, ClStep 0 True 1, ClStep 0 True 1,
      ClTake, ClStep 0 True 0, ClStep 0 False 0,
      ClWake 2, ClStep 0 True 2, ClStep 0 True 2, ClStep 0 True 2,
      ClTake, ClStep 0 True 0, ClStep 0 True 0, ClStep 0 True 0, ClStep 0 True 0,
      ClSpawn 3 8, ClStep 0 True 3, ClStep 0 True 3, ClStep 0 True 3, ClStep 0 True 3,
      ClTake, ClStep 0 True 0, ClStep 0 True 0]"

lemmas cl_eval = two_lives_def cl_new_def mem_new_def cl_goto_def cl_step_def cl_cas_def cl_access_def cl_handle_def
  cl_store_def cl_send_def cl_wake_or_def cl_wake_handle_def cl_and_def read_index_def ra_load_def ra_store_def
  ra_cas_def ra_rmw_def plain_access_def Let_def

lemma two_lives_clean: "cl_clean two_lives cl_new"
  by (simp add: cl_eval cl_quiet_def wakers_def)

theorem cell_orderings_suffice_witness:
  "let s = cl_run two_lives cl_new
   in cl_future s = Some 8 \<and> cl_pcs s 0 = DpDrop \<and> cl_items s = 1 \<and> \<not> cl_bad s \<and> \<not> cl_lost s"
proof -
  have "cl_future (cl_run two_lives cl_new) = Some 8" "cl_pcs (cl_run two_lives cl_new) 0 = DpDrop"
    "cl_items (cl_run two_lives cl_new) = 1"
    by (simp_all add: cl_run_def cl_eval)
  with cell_orderings_suffice [OF two_lives_clean refl] show ?thesis by (simp add: Let_def)
qed

end
