(* ===== verification/Wq_Mock.thy ===== *)
theory Wq_Mock
  imports Task_Cell
begin

text \<open>
  The mock of \<open>crates/px4-workqueue/src/ffi.rs\<close>: one dispatcher thread takes work items from a channel
  and runs their callbacks. Work items are leaked boxes, so an item is an address in a store that only
  grows. \<open>Task_Cell\<close> sees of the channel the number of entries of its own item; here all items share it.
\<close>

section \<open>The dispatcher\<close>

type_synonym wi = nat

record work_item =
  wi_ctx :: nat
  wi_run :: nat

record mock =
  mk_started :: bool
  mk_items :: "work_item list"
  mk_sent :: "wi list"
  mk_ran :: "work_item list"

definition mock_new :: mock where
  "mock_new = \<lparr>mk_started = False, mk_items = [], mk_sent = [], mk_ran = []\<rparr>"

definition ensure_dispatcher :: "mock \<Rightarrow> mock" where
  "ensure_dispatcher s = (if mk_started s then s else s\<lparr>mk_started := True\<rparr>)"

text \<open>\<open>None\<close> is the panic of \<open>run.expect\<close>.\<close>

definition wi_new :: "nat \<Rightarrow> nat option \<Rightarrow> mock \<Rightarrow> (wi \<times> mock) option" where
  "wi_new ctx run s =
     (case run of
        None \<Rightarrow> None
      | Some r \<Rightarrow>
          let s = ensure_dispatcher s
          in Some (length (mk_items s), s\<lparr>mk_items := mk_items s @ [\<lparr>wi_ctx = ctx, wi_run = r\<rparr>]\<rparr>))"

definition wi_schedule_now :: "wi \<Rightarrow> mock \<Rightarrow> mock" where
  "wi_schedule_now w s = (let s = ensure_dispatcher s in s\<lparr>mk_sent := mk_sent s @ [w]\<rparr>)"

text \<open>One turn of the dispatcher's loop: \<open>None\<close> while \<open>recv\<close> blocks, or the item whose callback runs.\<close>

definition mock_dispatch :: "mock \<Rightarrow> (wi \<times> mock) option" where
  "mock_dispatch s =
     (if \<not> mk_started s then None
      else case mk_sent s of
             [] \<Rightarrow> None
           | w # rest \<Rightarrow> Some (w, s\<lparr>mk_sent := rest, mk_ran := mk_ran s @ [mk_items s ! w]\<rparr>))"

datatype mock_act = New nat nat | Schedule wi | Turn

definition mock_do :: "mock_act \<Rightarrow> mock \<Rightarrow> mock" where
  "mock_do act s =
     (case act of
        New ctx run \<Rightarrow> (case wi_new ctx (Some run) s of Some (w, s) \<Rightarrow> s | None \<Rightarrow> s)
      | Schedule w \<Rightarrow> if w < length (mk_items s) then wi_schedule_now w s else s
      | Turn \<Rightarrow> (case mock_dispatch s of Some (w, s) \<Rightarrow> s | None \<Rightarrow> s))"

section \<open>Facts\<close>

text \<open>The items sent by a run, in order, for a start with \<open>n\<close> items.\<close>

fun sent_by :: "mock_act list \<Rightarrow> nat \<Rightarrow> wi list" where
  "sent_by [] n = []"
| "sent_by (New ctx run # acts) n = sent_by acts (n + 1)"
| "sent_by (Schedule w # acts) n = (if w < n then [w] else []) @ sent_by acts n"
| "sent_by (Turn # acts) n = sent_by acts n"

definition mock_inv :: "mock \<Rightarrow> bool" where
  "mock_inv s \<longleftrightarrow> (\<forall>w\<in>set (mk_sent s). w < length (mk_items s)) \<and> (mk_items s \<noteq> [] \<longrightarrow> mk_started s)"

lemmas mock_defs [step_defs] = mock_do_def wi_new_def wi_schedule_now_def mock_dispatch_def ensure_dispatcher_def Let_def

lemma mock_inv_do: "mock_inv s \<Longrightarrow> mock_inv (mock_do act s)"
  by (cases act; cases "mk_sent s") (auto simp: mock_inv_def step_defs)

lemma mock_do_order:
  assumes "mock_inv s"
  shows "\<exists>ws. mk_items (mock_do act s) = mk_items s @ ws \<and>
    mk_ran (mock_do act s) @ map (\<lambda>w. mk_items (mock_do act s) ! w) (mk_sent (mock_do act s)) =
      mk_ran s @ map (\<lambda>w. mk_items (mock_do act s) ! w) (mk_sent s @ sent_by [act] (length (mk_items s)))"
  using assms by (cases act; cases "mk_sent s") (auto simp: mock_inv_def step_defs nth_append)

lemma sent_by_Cons:
  "sent_by (act # acts) (length (mk_items s)) =
     sent_by [act] (length (mk_items s)) @ sent_by acts (length (mk_items (mock_do act s)))"
  by (cases act) (auto simp: step_defs split: list.split)

lemma sent_by_one: "w \<in> set (sent_by [act] n) \<Longrightarrow> w < n"
  by (cases act) (auto split: if_splits)

text \<open>
  The dispatcher is a queue: at any time the callbacks run so far, followed by those of the entries still in
  the channel, are the callbacks of the items in the order in which they were scheduled, each as often as it
  was scheduled.
\<close>

lemma mock_fifo:
  assumes "mock_inv s" and "s' = fold mock_do acts s"
  shows "\<exists>ws. mk_items s' = mk_items s @ ws \<and>
    mk_ran s' @ map (\<lambda>w. mk_items s' ! w) (mk_sent s') =
      mk_ran s @ map (\<lambda>w. mk_items s' ! w) (mk_sent s @ sent_by acts (length (mk_items s)))"
  using assms
proof (induction acts arbitrary: s)
  case (Cons act acts)
  let ?t = "mock_do act s"
  have s': "s' = fold mock_do acts ?t" using Cons.prems(2) by simp
  from Cons.IH [OF mock_inv_do [OF Cons.prems(1)] s'] obtain vs where
      vs: "mk_items s' = mk_items ?t @ vs"
    and ran: "mk_ran s' @ map (\<lambda>w. mk_items s' ! w) (mk_sent s') =
        mk_ran ?t @ map (\<lambda>w. mk_items s' ! w) (mk_sent ?t @ sent_by acts (length (mk_items ?t)))" by blast
  from mock_do_order [OF Cons.prems(1), of act] obtain us where
      us: "mk_items ?t = mk_items s @ us"
    and step: "mk_ran ?t @ map (\<lambda>w. mk_items ?t ! w) (mk_sent ?t) =
        mk_ran s @ map (\<lambda>w. mk_items ?t ! w) (mk_sent s @ sent_by [act] (length (mk_items s)))" by blast
  have less: "length (mk_items s) \<le> length (mk_items ?t)" by (simp only: us length_append le_add1)
  have inv: "\<forall>w\<in>set (mk_sent ?t). w < length (mk_items ?t)" "\<forall>w\<in>set (mk_sent s). w < length (mk_items s)"
    using mock_inv_do [OF Cons.prems(1), of act] Cons.prems(1) unfolding mock_inv_def by blast+
  have low: "w < length (mk_items ?t)" if "w \<in> set (mk_sent ?t) \<union> set (mk_sent s @ sent_by [act] (length (mk_items s)))" for w
  proof -
    from that consider "w \<in> set (mk_sent ?t)" | "w \<in> set (mk_sent s)" | "w \<in> set (sent_by [act] (length (mk_items s)))"
      unfolding set_append by blast
    then show ?thesis
    proof cases
      case 1
      with inv(1) show ?thesis by (rule bspec)
    next
      case 2
      with inv(2) have "w < length (mk_items s)" by (rule bspec)
      then show ?thesis using less by (rule order_less_le_trans)
    next
      case 3
      then have "w < length (mk_items s)" by (rule sent_by_one)
      then show ?thesis using less by (rule order_less_le_trans)
    qed
  qed
  have nth: "map (\<lambda>w. mk_items s' ! w) xs = map (\<lambda>w. mk_items ?t ! w) xs"
    if "set xs \<subseteq> set (mk_sent ?t) \<union> set (mk_sent s @ sent_by [act] (length (mk_items s)))" for xs
  proof (rule map_cong [OF refl])
    fix w assume "w \<in> set xs"
    with that have "w < length (mk_items ?t)" by (intro low) blast
    then show "mk_items s' ! w = mk_items ?t ! w" by (simp only: vs nth_append if_True)
  qed
  have a: "map (\<lambda>w. mk_items s' ! w) (mk_sent ?t) = map (\<lambda>w. mk_items ?t ! w) (mk_sent ?t)" by (rule nth) simp
  have b: "map (\<lambda>w. mk_items s' ! w) (mk_sent s @ sent_by [act] (length (mk_items s))) =
      map (\<lambda>w. mk_items ?t ! w) (mk_sent s @ sent_by [act] (length (mk_items s)))" by (rule nth) simp
  let ?rest = "map (\<lambda>w. mk_items s' ! w) (sent_by acts (length (mk_items ?t)))"
  have "mk_ran s' @ map (\<lambda>w. mk_items s' ! w) (mk_sent s') =
      (mk_ran ?t @ map (\<lambda>w. mk_items ?t ! w) (mk_sent ?t)) @ ?rest"
    unfolding ran map_append [of _ "mk_sent ?t"] a by (simp only: append_assoc)
  also have "\<dots> = (mk_ran s @ map (\<lambda>w. mk_items s' ! w) (mk_sent s @ sent_by [act] (length (mk_items s)))) @ ?rest"
    by (simp only: step b)
  finally have "mk_ran s' @ map (\<lambda>w. mk_items s' ! w) (mk_sent s') =
      mk_ran s @ map (\<lambda>w. mk_items s' ! w) (mk_sent s @ sent_by (act # acts) (length (mk_items s)))"
    by (simp only: sent_by_Cons [of act acts s] map_append append_assoc)
  moreover have "mk_items s' = mk_items s @ (us @ vs)" by (simp only: vs us append_assoc)
  ultimately show ?case by blast
qed simp

text \<open>
  What one cell sees: the number of its entries in the channel goes up by one when it schedules itself and
  down by one when the dispatcher takes it, and no other item's entries change it.
\<close>

theorem mock_counts:
  "count_list (mk_sent (wi_schedule_now w s)) v = count_list (mk_sent s) v + of_bool (v = w) \<and>
   (\<forall>u s'. mock_dispatch s = Some (u, s') \<longrightarrow> count_list (mk_sent s) v = count_list (mk_sent s') v + of_bool (v = u))"
  by (auto simp: step_defs split: list.splits if_splits)

end
