(* ===== verification/Wq_System.thy ===== *)
theory Wq_System
  imports Wq_Mock
begin

text \<open>
  The work queue as a whole: any number of task cells (\<open>cell.rs\<close>, \<open>waker.rs\<close>) whose work items share the one
  channel and the one dispatcher thread of the mock in \<open>ffi.rs\<close>. A cell is named by its address, which is
  the \<open>ctx\<close> of its work item. Every action is a step of one cell of \<open>Task_Cell\<close> together with what it does to the
  mock of \<open>Wq_Mock\<close>: \<open>wi_new\<close>, \<open>wi_schedule_now\<close>, or a turn of the dispatcher's loop, which polls the cell the
  entry belongs to until \<open>poll_once\<close> returns.
\<close>

lemma distinct_count_le: "(\<And>x. count_list xs x \<le> 1) \<Longrightarrow> distinct xs"
proof (induction xs)
  case (Cons y xs)
  from Cons.prems [of y] have "y \<notin> set xs" by (simp add: count_list_0_iff)
  moreover have "count_list xs x \<le> 1" for x
    using Cons.prems [of x] by (cases "x = y") simp_all
  ultimately show ?case using Cons.IH by simp
qed simp

section \<open>The interface of the channel\<close>

text \<open>
  What the system relies on: entries are taken in the order in which they were put, and none is dropped.
\<close>

locale fifo_queue =
  fixes ok :: "'q \<Rightarrow> bool"
    and put :: "'e \<Rightarrow> 'q \<Rightarrow> 'q"
    and take_first :: "'q \<Rightarrow> ('e \<times> 'q) option"
    and pending :: "'q \<Rightarrow> 'e list"
  assumes pending_put: "ok q \<Longrightarrow> pending (put x q) = pending q @ [x]"
    and pending_take: "take_first q = Some (x, q') \<Longrightarrow> pending q = x # pending q'"
    and take_None: "ok q \<Longrightarrow> take_first q = None \<longleftrightarrow> pending q = []"
begin

definition at :: "nat \<Rightarrow> 'e \<Rightarrow> 'q \<Rightarrow> bool" where
  "at k x q \<longleftrightarrow> k < length (pending q) \<and> pending q ! k = x"

lemma at_put: "ok q \<Longrightarrow> at k x q \<Longrightarrow> at k x (put y q)"
  by (simp add: at_def pending_put nth_append)

lemma at_take: "at k x q \<Longrightarrow> take_first q = Some (y, q') \<Longrightarrow> (case k of 0 \<Rightarrow> y = x | Suc j \<Rightarrow> at j x q')"
  by (auto simp: at_def dest!: pending_take split: nat.split)

lemma at_takes: "ok q \<Longrightarrow> at k x q \<Longrightarrow> take_first q \<noteq> None"
  by (auto simp: at_def take_None)

lemma count_put: "ok q \<Longrightarrow> count_list (pending (put x q)) y = count_list (pending q) y + of_bool (y = x)"
  by (auto simp: pending_put)

lemma count_take:
  "take_first q = Some (x, q') \<Longrightarrow> count_list (pending q) y = count_list (pending q') y + of_bool (y = x)"
  by (auto dest!: pending_take)

lemma at_exists: "count_list (pending q) x \<noteq> 0 \<Longrightarrow> \<exists>k. at k x q"
  by (auto simp: at_def count_list_0_iff in_set_conv_nth)

lemma at_early:
  assumes "\<And>x. count_list (pending q) x \<le> 1" and "set (pending q) \<subseteq> A" and "finite A" and "at k y q"
  shows "k < card A"
proof -
  have "distinct (pending q)"
    using assms(1) by (intro distinct_count_le)
  then have "length (pending q) = card (set (pending q))" by (simp add: distinct_card)
  also have "\<dots> \<le> card A" using assms(2,3) by (rule card_mono [rotated])
  finally show ?thesis using assms(4) by (simp add: at_def)
qed

end

interpretation mq: fifo_queue mock_inv wi_schedule_now mock_dispatch mk_sent
proof
  fix q x
  show "mk_sent (wi_schedule_now x q) = mk_sent q @ [x]" by (simp add: step_defs)
next
  fix q x q'
  assume "mock_dispatch q = Some (x, q')"
  then show "mk_sent q = x # mk_sent q'" by (auto simp: step_defs split: if_splits list.splits)
next
  fix q assume "mock_inv q"
  then show "mock_dispatch q = None \<longleftrightarrow> mk_sent q = []"
    by (cases "mk_sent q") (auto simp: mock_inv_def step_defs)
qed

section \<open>State and actions\<close>

record 'f wq_sys =
  sy_cells :: "nat \<Rightarrow> 'f task_cell"
  sy_wi :: "nat \<Rightarrow> wi option"
  sy_mock :: mock
  sy_cur :: "nat option"

definition sys_new :: "'f wq_sys" where
  "sys_new = \<lparr>sy_cells = (\<lambda>_. cell_new), sy_wi = (\<lambda>_. None), sy_mock = mock_new, sy_cur = None\<rparr>"

definition on_cell :: "nat \<Rightarrow> 'f cell_act \<Rightarrow> 'f wq_sys \<Rightarrow> 'f wq_sys" where
  "on_cell i act s = s\<lparr>sy_cells := (sy_cells s)(i := cell_do act (sy_cells s i))\<rparr>"

text \<open>\<open>wi_schedule_now\<close> of the handle of cell \<open>i\<close>.\<close>

definition schedule_cell :: "nat \<Rightarrow> 'f wq_sys \<Rightarrow> 'f wq_sys" where
  "schedule_cell i s =
     (case sy_wi s i of None \<Rightarrow> s | Some w \<Rightarrow> s\<lparr>sy_mock := wi_schedule_now w (sy_mock s)\<rparr>)"

text \<open>\<open>wi_new\<close> with the cell as its context; the handle is stored in the cell.\<close>

definition new_item :: "nat \<Rightarrow> 'f wq_sys \<Rightarrow> 'f wq_sys" where
  "new_item i s =
     (case wi_new i (Some i) (sy_mock s) of
        None \<Rightarrow> s
      | Some (w, m) \<Rightarrow> s\<lparr>sy_wi := (sy_wi s)(i := Some w), sy_mock := m\<rparr>)"

text \<open>The dispatcher stays with cell \<open>i\<close> until \<open>poll_once\<close> has returned.\<close>

definition stay_with :: "nat \<Rightarrow> 'f wq_sys \<Rightarrow> 'f wq_sys" where
  "stay_with i s = s\<lparr>sy_cur := (if tc_disp (sy_cells s i) = DIdle then None else Some i)\<rparr>"

definition spawn_go :: "nat \<Rightarrow> bool \<Rightarrow> 'f wq_sys \<Rightarrow> 'f wq_sys" where
  "spawn_go i alloc_ok s =
     (let c = sy_cells s i; s' = on_cell i (SpawnStep alloc_ok) s
      in case tc_spawn c of
           SpWritten \<Rightarrow> if \<not> tc_handle c \<and> alloc_ok then new_item i s' else s'
         | SpReady \<Rightarrow> schedule_cell i s'
         | _ \<Rightarrow> s')"

definition wake_go :: "nat \<Rightarrow> 'f wq_sys \<Rightarrow> 'f wq_sys" where
  "wake_go i s =
     (let s' = on_cell i WakeSchedule s
      in if tc_wakes (sy_cells s i) = 0 then s' else schedule_cell i s')"

definition run_turn :: "'f wq_sys \<Rightarrow> 'f wq_sys" where
  "run_turn s =
     (if sy_cur s \<noteq> None then s
      else case mock_dispatch (sy_mock s) of
             None \<Rightarrow> s
           | Some (w, m) \<Rightarrow>
               let i = wi_ctx (mk_items m ! w)
               in stay_with i (on_cell i Dispatch (s\<lparr>sy_mock := m\<rparr>)))"

definition on_current :: "'f cell_act \<Rightarrow> 'f wq_sys \<Rightarrow> 'f wq_sys" where
  "on_current act s = (case sy_cur s of None \<Rightarrow> s | Some i \<Rightarrow> stay_with i (on_cell i act s))"

datatype 'f sys_act =
    SpawnCall nat 'f
  | SpawnGo nat bool
  | WakeCall nat
  | WakeGo nat
  | RunTurn
  | PollEnd bool
  | FinishGo

fun sys_do :: "'f sys_act \<Rightarrow> 'f wq_sys \<Rightarrow> 'f wq_sys" where
  "sys_do (SpawnCall i fut) s = on_cell i (TrySpawn fut) s"
| "sys_do (SpawnGo i alloc_ok) s = spawn_go i alloc_ok s"
| "sys_do (WakeCall i) s = on_cell i WakeByRef s"
| "sys_do (WakeGo i) s = wake_go i s"
| "sys_do RunTurn s = run_turn s"
| "sys_do (PollEnd is_ready) s = on_current (PollReturns is_ready) s"
| "sys_do FinishGo s = on_current FinishStep s"

definition sys_run :: "'f sys_act list \<Rightarrow> 'f wq_sys \<Rightarrow> 'f wq_sys" where
  "sys_run acts s = fold sys_do acts s"

text \<open>A run in which every successful spawn finds no entry and no waker left of an earlier life of its cell.\<close>

definition sys_quiet :: "'f sys_act \<Rightarrow> 'f wq_sys \<Rightarrow> bool" where
  "sys_quiet act s \<longleftrightarrow> (case act of SpawnCall i fut \<Rightarrow> quiet (TrySpawn fut) (sy_cells s i) | _ \<Rightarrow> True)"

inductive sys_reach :: "'f wq_sys \<Rightarrow> bool" where
  sys_start: "sys_reach sys_new"
| sys_act: "sys_reach s \<Longrightarrow> sys_quiet act s \<Longrightarrow> sys_reach (sys_do act s)"

text \<open>The same of a run given by its actions.\<close>

fun sys_clean :: "'f sys_act list \<Rightarrow> 'f wq_sys \<Rightarrow> bool" where
  "sys_clean [] s = True"
| "sys_clean (act # acts) s = (sys_quiet act s \<and> sys_clean acts (sys_do act s))"

section \<open>Invariant\<close>

text \<open>Each work item belongs to one cell, each handle is an item of its cell.\<close>

definition items_ok :: "(nat \<Rightarrow> wi option) \<Rightarrow> mock \<Rightarrow> bool" where
  "items_ok h m \<longleftrightarrow>
     (\<forall>i w. h i = Some w \<longleftrightarrow> w < length (mk_items m) \<and> wi_ctx (mk_items m ! w) = i)"

text \<open>A cell's handle is its work item, and it counts its own entries of the shared channel.\<close>

definition entries_in :: "mock \<Rightarrow> wi option \<Rightarrow> nat" where
  "entries_in m h = (case h of None \<Rightarrow> 0 | Some w \<Rightarrow> count_list (mk_sent m) w)"

definition handle_ok :: "mock \<Rightarrow> wi option \<Rightarrow> 'f task_cell \<Rightarrow> bool" where
  "handle_ok m h c \<longleftrightarrow>
     (tc_handle c \<longleftrightarrow> h \<noteq> None) \<and> (tc_spawn c = SpReady \<longrightarrow> h \<noteq> None) \<and> tc_queue c = entries_in m h"

text \<open>The dispatcher is inside the \<open>poll_once\<close> of at most one cell.\<close>

definition current_ok :: "(nat \<Rightarrow> 'f task_cell) \<Rightarrow> nat option \<Rightarrow> bool" where
  "current_ok cs cur \<longleftrightarrow> (\<forall>i. tc_disp (cs i) \<noteq> DIdle \<longleftrightarrow> cur = Some i)"

definition sys_inv :: "'f wq_sys \<Rightarrow> bool" where
  "sys_inv s \<longleftrightarrow>
     mock_inv (sy_mock s) \<and> items_ok (sy_wi s) (sy_mock s) \<and>
     (\<forall>i. handle_ok (sy_mock s) (sy_wi s i) (sy_cells s i)) \<and> current_ok (sy_cells s) (sy_cur s)"

lemma items_one: "items_ok h m \<Longrightarrow> h i = Some w \<Longrightarrow> h j = Some w \<longleftrightarrow> j = i"
  by (auto simp: items_ok_def)

lemma sys_inv_new: "sys_inv sys_new"
  by (simp add: sys_inv_def items_ok_def handle_ok_def entries_in_def current_ok_def sys_new_def cell_new_def
      mock_inv_def mock_new_def)

lemma current_ok_same: "current_ok cs cur \<Longrightarrow> tc_disp c = tc_disp (cs i) \<Longrightarrow> current_ok (cs(i := c)) cur"
  by (simp add: current_ok_def)

lemma current_ok_set:
  "current_ok cs cur \<Longrightarrow> cur = None \<or> cur = Some i \<Longrightarrow>
   current_ok (cs(i := c)) (if tc_disp c = DIdle then None else Some i)"
  by (auto simp: current_ok_def)

text \<open>What each kind of step changes.\<close>

lemma sys_inv_cell:
  assumes "sys_inv s" and "handle_ok (sy_mock s) (sy_wi s i) c" and "tc_disp c = tc_disp (sy_cells s i)"
  shows "sys_inv (s\<lparr>sy_cells := (sy_cells s)(i := c)\<rparr>)"
  using assms by (simp add: sys_inv_def current_ok_same)

lemma sys_inv_put:
  assumes "sys_inv s" and "sy_wi s i = Some w" and "tc_handle c" and "tc_queue c = tc_queue (sy_cells s i) + 1"
    and "tc_disp c = tc_disp (sy_cells s i)"
  shows "sys_inv (s\<lparr>sy_cells := (sy_cells s)(i := c), sy_mock := wi_schedule_now w (sy_mock s)\<rparr>)"
proof -
  let ?m = "wi_schedule_now w (sy_mock s)"
  have m: "mk_items ?m = mk_items (sy_mock s)" by (simp add: step_defs)
  have mi: "mock_inv (sy_mock s)" and it: "items_ok (sy_wi s) (sy_mock s)" using assms(1) by (auto simp: sys_inv_def)
  have "w < length (mk_items (sy_mock s))" using it assms(2) by (simp add: items_ok_def)
  then have "mock_inv ?m" using mi by (auto simp: mock_inv_def step_defs)
  moreover have "items_ok (sy_wi s) ?m" using it by (simp add: items_ok_def m)
  moreover have ent: "entries_in ?m (sy_wi s j) = entries_in (sy_mock s) (sy_wi s j) + of_bool (j = i)" for j
    using items_one [OF it assms(2), of j] assms(2)
    by (cases "sy_wi s j") (auto simp: entries_in_def mq.count_put [OF mi])
  have "handle_ok ?m (sy_wi s j) (((sy_cells s)(i := c)) j)" for j
    using assms ent [of j] by (simp add: sys_inv_def handle_ok_def)
  ultimately show ?thesis using assms(1,5) by (simp add: sys_inv_def current_ok_same)
qed

lemma sys_inv_item:
  assumes "sys_inv s" and "\<not> tc_handle (sy_cells s i)" and "tc_handle c" and "tc_queue c = tc_queue (sy_cells s i)"
    and "tc_disp c = tc_disp (sy_cells s i)" and "wi_new i (Some i) (sy_mock s) = Some (w, m)"
  shows "sys_inv (s\<lparr>sy_cells := (sy_cells s)(i := c), sy_wi := (sy_wi s)(i := Some w), sy_mock := m\<rparr>)"
proof -
  have m: "mk_items m = mk_items (sy_mock s) @ [\<lparr>wi_ctx = i, wi_run = i\<rparr>]" "mk_sent m = mk_sent (sy_mock s)"
    "w = length (mk_items (sy_mock s))" "mk_started m"
    using assms(6) by (auto simp: step_defs)
  have mi: "mock_inv (sy_mock s)" and it: "items_ok (sy_wi s) (sy_mock s)" using assms(1) by (auto simp: sys_inv_def)
  have none: "sy_wi s i = None" using assms(1,2) by (simp add: sys_inv_def handle_ok_def)
  have fresh: "w \<notin> set (mk_sent (sy_mock s))" using mi by (auto simp: mock_inv_def m)
  have "mock_inv m" using mi by (auto simp: mock_inv_def m)
  moreover have "((sy_wi s)(i := Some w)) j = Some v \<longleftrightarrow> v < length (mk_items m) \<and> wi_ctx (mk_items m ! v) = j" for j v
  proof (cases "v = w")
    case True
    with it show ?thesis by (auto simp: items_ok_def m)
  next
    case False
    with it none have "((sy_wi s)(i := Some w)) j = Some v \<longleftrightarrow> sy_wi s j = Some v" by auto
    with False it show ?thesis by (auto simp: items_ok_def m nth_append)
  qed
  then have "items_ok ((sy_wi s)(i := Some w)) m" by (simp add: items_ok_def)
  moreover have ent: "entries_in m (((sy_wi s)(i := Some w)) j) = entries_in (sy_mock s) (sy_wi s j)" for j
    using none fresh by (auto simp: entries_in_def m split: option.split)
  have "handle_ok m (((sy_wi s)(i := Some w)) j) (((sy_cells s)(i := c)) j)" for j
    using assms(1,3,4) ent [of j] by (simp add: sys_inv_def handle_ok_def)
  ultimately show ?thesis using assms(1,5) by (simp add: sys_inv_def current_ok_same)
qed

lemma sys_inv_take:
  assumes "sys_inv s" and "sy_cur s = None" and "mock_dispatch (sy_mock s) = Some (w, m)"
    and "tc_handle c = tc_handle (sy_cells s i)" and "tc_queue c = tc_queue (sy_cells s i) - 1"
    and "tc_spawn c = tc_spawn (sy_cells s i)" and "i = wi_ctx (mk_items m ! w)"
  shows "sys_inv (stay_with i (s\<lparr>sy_cells := (sy_cells s)(i := c), sy_mock := m\<rparr>))"
proof -
  have mi: "mock_inv (sy_mock s)" and it: "items_ok (sy_wi s) (sy_mock s)" using assms(1) by (auto simp: sys_inv_def)
  have m: "mk_items m = mk_items (sy_mock s)" "mk_started m"
    using assms(3) by (auto simp: step_defs split: if_splits list.splits)
  have "w < length (mk_items (sy_mock s))"
    using mi mq.pending_take [OF assms(3)] by (simp add: mock_inv_def)
  then have w: "sy_wi s i = Some w" using it assms(7) by (simp add: items_ok_def m)
  have "mock_inv m" using mi mq.pending_take [OF assms(3)] by (auto simp: mock_inv_def m)
  moreover have "items_ok (sy_wi s) m" using it by (simp add: items_ok_def m)
  moreover have ent: "entries_in (sy_mock s) (sy_wi s j) = entries_in m (sy_wi s j) + of_bool (j = i)" for j
    using items_one [OF it w, of j] w
    by (cases "sy_wi s j") (auto simp: entries_in_def mq.count_take [OF assms(3)])
  have "handle_ok m (sy_wi s j) (((sy_cells s)(i := c)) j)" for j
    using assms(1,4-6) ent [of j] by (auto simp: sys_inv_def handle_ok_def)
  moreover have "current_ok ((sy_cells s)(i := c)) (if tc_disp c = DIdle then None else Some i)"
    using assms(1,2) by (intro current_ok_set [of _ None]) (simp_all add: sys_inv_def)
  ultimately show ?thesis by (simp add: sys_inv_def stay_with_def)
qed

lemma dispatched_cell:
  assumes "sys_inv s" and "mock_dispatch (sy_mock s) = Some (w, m)"
  shows "sy_wi s (wi_ctx (mk_items m ! w)) = Some w" and "tc_queue (sy_cells s (wi_ctx (mk_items m ! w))) \<noteq> 0"
proof -
  have m: "mk_items m = mk_items (sy_mock s)" using assms(2) by (auto simp: step_defs split: if_splits list.splits)
  have "w < length (mk_items (sy_mock s))"
    using assms(1) mq.pending_take [OF assms(2)] by (simp add: sys_inv_def mock_inv_def)
  then show w: "sy_wi s (wi_ctx (mk_items m ! w)) = Some w" using assms(1) by (simp add: sys_inv_def items_ok_def m)
  have "handle_ok (sy_mock s) (Some w) (sy_cells s (wi_ctx (mk_items m ! w)))"
    using assms(1) w by (metis sys_inv_def)
  then show "tc_queue (sy_cells s (wi_ctx (mk_items m ! w))) \<noteq> 0"
    by (simp add: handle_ok_def entries_in_def mq.pending_take [OF assms(2)])
qed

lemma sys_inv_current:
  assumes "sys_inv s" and "sy_cur s = Some i" and "tc_handle c = tc_handle (sy_cells s i)"
    and "tc_queue c = tc_queue (sy_cells s i)" and "tc_spawn c = tc_spawn (sy_cells s i)"
  shows "sys_inv (stay_with i (s\<lparr>sy_cells := (sy_cells s)(i := c)\<rparr>))"
proof -
  have "current_ok ((sy_cells s)(i := c)) (if tc_disp c = DIdle then None else Some i)"
    using assms(1,2) by (intro current_ok_set [of _ "Some i"]) (simp_all add: sys_inv_def)
  moreover have "handle_ok (sy_mock s) (sy_wi s j) (((sy_cells s)(i := c)) j)" for j
    using assms by (simp add: sys_inv_def handle_ok_def)
  ultimately show ?thesis using assms(1) by (simp add: sys_inv_def stay_with_def)
qed

text \<open>The steps of a cell that leave its handle and its entries alone.\<close>

lemma inv_handle_ok: "sys_inv s \<Longrightarrow> handle_ok (sy_mock s) (sy_wi s i) (sy_cells s i)"
  by (simp add: sys_inv_def)

lemma sys_inv_spawn_go: "sys_inv s \<Longrightarrow> sys_inv (spawn_go i a s)"
proof -
  assume inv: "sys_inv s"
  let ?c = "sy_cells s i"
  note h = inv_handle_ok [OF inv, of i]
  show ?thesis
  proof (cases "tc_spawn ?c")
    case SpReady
    with h obtain w where w: "sy_wi s i = Some w" "tc_handle ?c" by (auto simp: handle_ok_def)
    have "spawn_go i a s = s\<lparr>sy_cells := (sy_cells s)(i := cell_do (SpawnStep a) ?c), sy_mock := wi_schedule_now w (sy_mock s)\<rparr>"
      using SpReady w by (simp add: spawn_go_def schedule_cell_def on_cell_def)
    with inv w SpReady show ?thesis by (simp add: sys_inv_put spawn_step_def)
  next
    case SpWritten
    show ?thesis
    proof (cases "\<not> tc_handle ?c \<and> a")
      case True
      obtain w m where n: "wi_new i (Some i) (sy_mock s) = Some (w, m)" by (simp add: step_defs)
      have "spawn_go i a s = s\<lparr>sy_cells := (sy_cells s)(i := cell_do (SpawnStep a) ?c), sy_wi := (sy_wi s)(i := Some w), sy_mock := m\<rparr>"
        using SpWritten True n by (simp add: spawn_go_def new_item_def on_cell_def)
      with inv n True SpWritten show ?thesis by (simp add: sys_inv_item spawn_step_def)
    next
      case False
      with SpWritten have "spawn_go i a s = on_cell i (SpawnStep a) s" by (auto simp: spawn_go_def)
      with h False SpWritten show ?thesis
        by (auto simp: on_cell_def handle_ok_def spawn_step_def intro!: sys_inv_cell [OF inv])
    qed
  qed (use h in \<open>simp_all add: spawn_go_def on_cell_def handle_ok_def spawn_step_def sys_inv_cell inv\<close>)
qed

lemma sys_inv_wake_go: "sys_inv s \<Longrightarrow> sys_inv (wake_go i s)"
proof -
  assume inv: "sys_inv s"
  let ?c = "sy_cells s i"
  note h = inv_handle_ok [OF inv, of i]
  show ?thesis
  proof (cases "tc_wakes ?c \<noteq> 0 \<and> sy_wi s i \<noteq> None")
    case True
    then obtain w where w: "sy_wi s i = Some w" by auto
    have "wake_go i s = s\<lparr>sy_cells := (sy_cells s)(i := cell_do WakeSchedule ?c), sy_mock := wi_schedule_now w (sy_mock s)\<rparr>"
      using True w by (simp add: wake_go_def schedule_cell_def on_cell_def)
    with inv w h True show ?thesis by (simp add: sys_inv_put wake_schedule_def handle_ok_def)
  next
    case False
    then have "wake_go i s = on_cell i WakeSchedule s" by (auto simp: wake_go_def schedule_cell_def on_cell_def Let_def)
    with h False inv show ?thesis
      by (auto simp: on_cell_def handle_ok_def wake_schedule_def intro!: sys_inv_cell [OF inv])
  qed
qed

lemma sys_inv_run_turn: "sys_inv s \<Longrightarrow> sys_inv (run_turn s)"
proof -
  assume inv: "sys_inv s"
  show ?thesis
  proof (cases "sy_cur s = None \<and> mock_dispatch (sy_mock s) \<noteq> None")
    case True
    then obtain w m where d: "mock_dispatch (sy_mock s) = Some (w, m)" by auto
    let ?i = "wi_ctx (mk_items m ! w)"
    have "run_turn s = stay_with ?i (s\<lparr>sy_cells := (sy_cells s)(?i := cell_do Dispatch (sy_cells s ?i)), sy_mock := m\<rparr>)"
      using True d by (simp add: run_turn_def on_cell_def stay_with_def Let_def)
    moreover have "tc_disp (sy_cells s ?i) = DIdle" using inv True by (auto simp: sys_inv_def current_ok_def)
    ultimately show ?thesis
      using True dispatched_cell(2) [OF inv d] by (simp add: sys_inv_take [OF inv _ d] dispatch_def Let_def)
  qed (use inv in \<open>auto simp: run_turn_def split: option.split\<close>)
qed

lemma sys_inv_on_current:
  assumes "sys_inv s" and "act = PollReturns r \<or> act = FinishStep"
  shows "sys_inv (on_current act s)"
proof (cases "sy_cur s")
  case (Some i)
  have same: "tc_handle (cell_do act c) = tc_handle c" "tc_queue (cell_do act c) = tc_queue c"
    "tc_spawn (cell_do act c) = tc_spawn c" for c :: "'a task_cell"
    using assms(2) by (cases "tc_disp c"; auto simp: poll_returns_def finish_step_def)+
  from Some have "on_current act s = stay_with i (s\<lparr>sy_cells := (sy_cells s)(i := cell_do act (sy_cells s i))\<rparr>)"
    by (simp add: on_current_def on_cell_def)
  then show ?thesis using assms Some same by (simp add: sys_inv_current)
qed (use assms in \<open>simp add: on_current_def\<close>)

lemma sys_inv_do: "sys_inv s \<Longrightarrow> sys_inv (sys_do act s)"
proof (cases act)
  case (SpawnCall i fut)
  assume inv: "sys_inv s"
  with SpawnCall inv_handle_ok [OF inv, of i] show ?thesis
    by (auto simp: on_cell_def try_spawn_def handle_ok_def intro!: sys_inv_cell)
next
  case (WakeCall i)
  assume inv: "sys_inv s"
  with WakeCall inv_handle_ok [OF inv, of i] show ?thesis
    by (auto simp: on_cell_def waker_wake_by_ref_def Let_def handle_ok_def intro!: sys_inv_cell)
qed (auto intro: sys_inv_spawn_go sys_inv_wake_go sys_inv_run_turn sys_inv_on_current)

lemma sys_inv_run: "sys_inv s \<Longrightarrow> sys_inv (sys_run acts s)"
  by (induction acts arbitrary: s) (simp_all add: sys_run_def sys_inv_do)

lemma sys_reach_inv: "sys_reach s \<Longrightarrow> sys_inv s"
  by (induction rule: sys_reach.induct) (auto intro: sys_inv_new sys_inv_do)


lemma sys_clean_reach: "sys_clean acts s \<Longrightarrow> sys_reach s \<Longrightarrow> sys_reach (sys_run acts s)"
  by (induction acts arbitrary: s) (simp_all add: sys_act sys_run_def)

section \<open>Every cell runs as \<open>Task_Cell\<close> says\<close>

text \<open>The step of cell \<open>i\<close> that an action of the system is, if it is one.\<close>

definition cell_part :: "nat \<Rightarrow> 'f sys_act \<Rightarrow> 'f wq_sys \<Rightarrow> 'f cell_act list" where
  "cell_part i act s =
     (case act of
        SpawnCall j fut \<Rightarrow> if j = i then [TrySpawn fut] else []
      | SpawnGo j alloc_ok \<Rightarrow> if j = i then [SpawnStep alloc_ok] else []
      | WakeCall j \<Rightarrow> if j = i then [WakeByRef] else []
      | WakeGo j \<Rightarrow> if j = i then [WakeSchedule] else []
      | RunTurn \<Rightarrow>
          if sy_cur s \<noteq> None then []
          else (case mock_dispatch (sy_mock s) of
                  None \<Rightarrow> []
                | Some (w, m) \<Rightarrow> if wi_ctx (mk_items m ! w) = i then [Dispatch] else [])
      | PollEnd is_ready \<Rightarrow> if sy_cur s = Some i then [PollReturns is_ready] else []
      | FinishGo \<Rightarrow> if sy_cur s = Some i then [FinishStep] else [])"

fun cell_parts :: "nat \<Rightarrow> 'f sys_act list \<Rightarrow> 'f wq_sys \<Rightarrow> 'f cell_act list" where
  "cell_parts i [] s = []"
| "cell_parts i (act # acts) s = cell_part i act s @ cell_parts i acts (sys_do act s)"

lemma sys_helpers_cells [simp]:
  "sy_cells (stay_with j s) = sy_cells s"
  "sy_cells (new_item j s) = sy_cells s"
  "sy_cells (schedule_cell j s) = sy_cells s"
  "sy_cells (on_cell j a s) = (sy_cells s)(j := cell_do a (sy_cells s j))"
  by (simp_all add: stay_with_def new_item_def schedule_cell_def on_cell_def split: option.split)

lemma spawn_go_cells [simp]: "sy_cells (spawn_go j a s) = (sy_cells s)(j := cell_do (SpawnStep a) (sy_cells s j))"
  by (simp add: spawn_go_def Let_def split: spawn_pc.split)

lemma wake_go_cells [simp]: "sy_cells (wake_go j s) = (sy_cells s)(j := cell_do WakeSchedule (sy_cells s j))"
  by (simp add: wake_go_def Let_def)

lemma sys_do_cell: "sy_cells (sys_do act s) i = cell_run (cell_part i act s) (sy_cells s i)"
  by (cases act) (auto simp: cell_part_def run_turn_def on_current_def Let_def split: option.split)

lemma sys_run_simps [simp]:
  "sys_run [] s = s"
  "sys_run (act # acts) s = sys_run acts (sys_do act s)"
  by (simp_all add: sys_run_def)

lemma sys_run_cell: "sy_cells (sys_run acts s) i = cell_run (cell_parts i acts s) (sy_cells s i)"
  by (induction acts arbitrary: s) (simp_all add: sys_do_cell cell_run_def)

lemma sys_reach_cell: "sys_reach s \<Longrightarrow> cell_reach (sy_cells s i)"
proof (induction rule: sys_reach.induct)
  case sys_start
  then show ?case by (simp add: sys_new_def cell_start)
next
  case (sys_act s act)
  have "cell_part i act s = [] \<or> (\<exists>a. cell_part i act s = [a] \<and> quiet a (sy_cells s i))"
    using sys_act.hyps(2)
    by (cases act) (auto simp: cell_part_def sys_quiet_def quiet_def split: option.split)
  then show ?case
    using sys_act.IH cell_act [OF sys_act.IH] unfolding sys_do_cell by auto
qed

lemma cell_reach_entries: "cell_reach c \<Longrightarrow> tc_queue c + tc_wakes c \<le> 1"
proof (induction rule: cell_reach.induct)
  case (cell_act c act)
  from cell_reach_inv [OF cell_act.hyps(1)] cell_act.IH cell_act.hyps(2) show ?case
    by (cases act; cases "tc_spawn c"; cases "tc_disp c")
       (auto simp: cell_inv_def cell_defs quiet_def Let_def)
qed (simp add: cell_new_def)

lemma entries_once:
  assumes "sys_reach s"
  shows "count_list (mk_sent (sy_mock s)) w \<le> 1"
proof (cases "w \<in> set (mk_sent (sy_mock s))")
  case True
  have inv: "sys_inv s" using assms by (rule sys_reach_inv)
  then have w: "sy_wi s (wi_ctx (mk_items (sy_mock s) ! w)) = Some w"
    using True by (auto simp: sys_inv_def mock_inv_def items_ok_def)
  let ?c = "sy_cells s (wi_ctx (mk_items (sy_mock s) ! w))"
  have "count_list (mk_sent (sy_mock s)) w = tc_queue ?c"
    using inv_handle_ok [OF inv, of "wi_ctx (mk_items (sy_mock s) ! w)"] w by (simp add: handle_ok_def entries_in_def)
  then show ?thesis using cell_reach_entries [OF sys_reach_cell [OF assms]] by (metis add_leD1)
qed (simp add: count_list_0_iff)

section \<open>Waiting for the dispatcher\<close>

text \<open>Cell \<open>i\<close> is live, nobody is inside it, and its entry has \<open>k\<close> entries before it.\<close>

definition waiting :: "nat \<Rightarrow> wi \<Rightarrow> nat \<Rightarrow> 'f wq_sys \<Rightarrow> bool" where
  "waiting i w k s \<longleftrightarrow>
     sys_inv s \<and> sy_wi s i = Some w \<and> mq.at k w (sy_mock s) \<and>
     tc_spawn (sy_cells s i) = SpIdle \<and> tc_disp (sy_cells s i) = DIdle \<and> tc_state (sy_cells s i) AND SPAWNED \<noteq> 0"

definition turns_taken :: "'f wq_sys \<Rightarrow> nat" where
  "turns_taken s = length (mk_ran (sy_mock s))"


text \<open>What an action other than a turn does to the shared parts.\<close>

definition only_puts :: "'f wq_sys \<Rightarrow> 'f wq_sys \<Rightarrow> bool" where
  "only_puts s s' \<longleftrightarrow>
     mk_ran (sy_mock s') = mk_ran (sy_mock s) \<and>
     (\<forall>k w. mq.at k w (sy_mock s) \<longrightarrow> mq.at k w (sy_mock s')) \<and>
     (\<forall>i w. sy_wi s i = Some w \<longrightarrow> sy_wi s' i = Some w)"

lemma only_puts_on_cell: "only_puts s s' \<Longrightarrow> only_puts s (on_cell j a s')"
  by (simp add: only_puts_def on_cell_def)

lemma only_puts_stay: "only_puts s s' \<Longrightarrow> only_puts s (stay_with j s')"
  by (simp add: only_puts_def stay_with_def)

lemma only_puts_refl: "only_puts s s"
  by (simp add: only_puts_def)

lemma only_puts_schedule:
  assumes "mock_inv (sy_mock s)" and "sy_mock s' = sy_mock s" and "sy_wi s' = sy_wi s"
  shows "only_puts s (schedule_cell j s')"
proof (cases "sy_wi s j")
  case (Some w)
  have "mk_ran (wi_schedule_now w (sy_mock s)) = mk_ran (sy_mock s)" by (simp add: step_defs)
  then show ?thesis using Some assms mq.at_put [OF assms(1)] by (auto simp: only_puts_def schedule_cell_def)
qed (use assms in \<open>simp add: only_puts_def schedule_cell_def\<close>)

lemma only_puts_item:
  assumes "sy_wi s j = None" and "sy_mock s' = sy_mock s" and "sy_wi s' = sy_wi s"
  shows "only_puts s (new_item j s')"
  using assms by (auto simp: only_puts_def new_item_def mq.at_def step_defs)

lemma only_puts_do:
  assumes "sys_inv s" and "act \<noteq> RunTurn"
  shows "only_puts s (sys_do act s)"
proof (cases act)
  case (SpawnGo j a)
  have "sy_wi s j = None" if "\<not> tc_handle (sy_cells s j)"
    using that inv_handle_ok [OF assms(1), of j] by (simp add: handle_ok_def)
  moreover have "mock_inv (sy_mock s)" using assms(1) by (simp add: sys_inv_def)
  moreover have "sy_mock (on_cell j b s) = sy_mock s" "sy_wi (on_cell j b s) = sy_wi s" for b
    by (simp_all add: on_cell_def)
  ultimately show ?thesis using SpawnGo
    by (auto simp: spawn_go_def Let_def split: spawn_pc.split
        intro: only_puts_on_cell only_puts_refl only_puts_schedule only_puts_item)
next
  case (WakeGo j)
  have "mock_inv (sy_mock s)" using assms(1) by (simp add: sys_inv_def)
  then show ?thesis using WakeGo
    by (auto simp: wake_go_def Let_def on_cell_def intro: only_puts_schedule)
       (simp add: only_puts_def)
qed (use assms in \<open>auto simp: on_current_def intro: only_puts_on_cell only_puts_stay only_puts_refl split: option.split\<close>)

text \<open>A live idle cell stays live and idle until the dispatcher comes to it.\<close>

lemma live_idle_do:
  assumes "tc_spawn c = SpIdle" and "tc_disp c = DIdle" and "tc_state c AND SPAWNED \<noteq> 0" and "act \<noteq> Dispatch"
  shows "tc_spawn (cell_do act c) = SpIdle \<and> tc_disp (cell_do act c) = DIdle \<and> tc_state (cell_do act c) AND SPAWNED \<noteq> 0"
  using assms by (cases act) (auto simp: cell_defs Let_def bit.conj_disj_distrib2)

lemma waiting_step:
  assumes "waiting i w k s"
  shows "tc_disp (sy_cells (sys_do act s) i) = DPoll \<or>
    (\<exists>k'. waiting i w k' (sys_do act s) \<and> turns_taken (sys_do act s) + k' = turns_taken s + k)"
proof (cases "act = RunTurn")
  case False
  have inv: "sys_inv s" using assms by (simp add: waiting_def)
  have "sy_cur s \<noteq> Some i" using assms inv by (auto simp: waiting_def sys_inv_def current_ok_def)
  then have "cell_part i act s = [] \<or> (\<exists>a. cell_part i act s = [a] \<and> a \<noteq> Dispatch)"
    using False by (cases act) (auto simp: cell_part_def)
  then consider "cell_part i act s = []" | a where "cell_part i act s = [a]" "a \<noteq> Dispatch" by blast
  then have "tc_spawn (sy_cells (sys_do act s) i) = SpIdle \<and> tc_disp (sy_cells (sys_do act s) i) = DIdle \<and>
      tc_state (sy_cells (sys_do act s) i) AND SPAWNED \<noteq> 0"
    using assms by cases (simp_all add: sys_do_cell waiting_def live_idle_do del: state_consts)
  with assms sys_inv_do [OF inv, of act] only_puts_do [OF inv False] show ?thesis
    by (auto simp: waiting_def only_puts_def turns_taken_def)
next
  case True
  have inv: "sys_inv s" using assms by (simp add: waiting_def)
  show ?thesis
  proof (cases "sy_cur s")
    case (Some j)
    with assms True show ?thesis by (auto simp: run_turn_def)
  next
    case None
    have "mock_inv (sy_mock s)" using inv by (simp add: sys_inv_def)
    with mq.at_takes obtain v m where d: "mock_dispatch (sy_mock s) = Some (v, m)"
      using assms by (fastforce simp: waiting_def)
    have at: "case k of 0 \<Rightarrow> v = w | Suc j \<Rightarrow> mq.at j w m"
      using mq.at_take [OF _ d] assms by (simp add: waiting_def)
    have m: "mk_items m = mk_items (sy_mock s)" "length (mk_ran m) = length (mk_ran (sy_mock s)) + 1"
      using d by (auto simp: step_defs split: if_splits list.splits)
    have part: "cell_part i act s = (if wi_ctx (mk_items m ! v) = i then [Dispatch] else [])"
      using True None d by (simp add: cell_part_def)
    show ?thesis
    proof (cases "wi_ctx (mk_items m ! v) = i")
      case True
      have "tc_queue (sy_cells s i) \<noteq> 0" using dispatched_cell(2) [OF inv d] True by simp
      then have "tc_disp (cell_do Dispatch (sy_cells s i)) = DPoll"
        using assms by (simp add: waiting_def dispatch_def Let_def)
      then show ?thesis using part True by (simp add: sys_do_cell)
    next
      case False
      have "v \<noteq> w"
        using False dispatched_cell(1) [OF inv d] inv assms by (auto simp: waiting_def sys_inv_def items_ok_def m)
      with at obtain k' where k: "k = Suc k'" "mq.at k' w m" by (auto split: nat.splits)
      have "sy_mock (sys_do act s) = m" "sy_wi (sys_do act s) = sy_wi s"
        using \<open>act = RunTurn\<close> None d by (simp_all add: run_turn_def Let_def stay_with_def on_cell_def)
      moreover have "sy_cells (sys_do act s) i = sy_cells s i" using part False by (simp add: sys_do_cell)
      ultimately have "waiting i w k' (sys_do act s)"
        using assms k sys_inv_do [OF inv, of act] by (simp add: waiting_def)
      moreover have "turns_taken (sys_do act s) + k' = turns_taken s + k"
        using \<open>sy_mock (sys_do act s) = m\<close> k m by (simp add: turns_taken_def)
      ultimately show ?thesis by blast
    qed
  qed
qed

lemma waiting_served:
  assumes "waiting i w k s" and "turns_taken s + k < turns_taken (sys_run acts s)"
  shows "\<exists>pre post. acts = pre @ post \<and> tc_disp (sy_cells (sys_run pre s) i) = DPoll"
  using assms
proof (induction acts arbitrary: s k)
  case (Cons act acts)
  from waiting_step [OF Cons.prems(1), of act] show ?case
  proof
    assume "tc_disp (sy_cells (sys_do act s) i) = DPoll"
    then show ?thesis by (intro exI [of _ "[act]"] exI [of _ acts]) simp
  next
    assume "\<exists>k'. waiting i w k' (sys_do act s) \<and> turns_taken (sys_do act s) + k' = turns_taken s + k"
    then obtain k' where "waiting i w k' (sys_do act s)" "turns_taken (sys_do act s) + k' = turns_taken s + k" by blast
    with Cons.IH [of k' "sys_do act s"] Cons.prems(2) obtain pre post
      where "acts = pre @ post" "tc_disp (sy_cells (sys_run pre (sys_do act s)) i) = DPoll" by auto
    then show ?thesis by (intro exI [of _ "act # pre"] exI [of _ post]) simp
  qed
qed simp


lemma waiting_starts:
  assumes "sys_inv s" and "tc_queue (sy_cells s i) \<noteq> 0"
    and "tc_spawn (sy_cells s i) = SpIdle" and "tc_disp (sy_cells s i) = DIdle"
    and "tc_state (sy_cells s i) AND SPAWNED \<noteq> 0"
  shows "\<exists>w k. waiting i w k s"
proof -
  from inv_handle_ok [OF assms(1), of i] assms(2) obtain w
    where "sy_wi s i = Some w" "count_list (mk_sent (sy_mock s)) w \<noteq> 0"
    by (cases "sy_wi s i") (auto simp: handle_ok_def entries_in_def)
  with mq.at_exists [of "sy_mock s" w] assms show ?thesis by (auto simp: waiting_def)
qed

text \<open>
  The dispatcher is never stuck: when the poll it is in returns, it takes the next entry.
\<close>

lemma dispatcher_takes_next:
  assumes "sys_inv s" and "mk_sent (sy_mock s) \<noteq> []"
  shows "turns_taken (sys_run [PollEnd r, FinishGo, FinishGo, RunTurn] s) = turns_taken s + 1"
proof -
  let ?t = "sys_run [PollEnd r, FinishGo, FinishGo] s"
  have cur: "sy_cur ?t = None"
  proof (cases "sy_cur s")
    case (Some i)
    then show ?thesis
      by (cases "tc_disp (sy_cells s i)"; cases r)
         (simp_all add: on_current_def stay_with_def on_cell_def poll_returns_def finish_step_def)
  qed (simp add: on_current_def)
  have same: "sy_mock (on_current a u) = sy_mock u" for a and u :: "'a wq_sys"
    by (simp add: on_current_def stay_with_def on_cell_def split: option.split)
  then have mock: "sy_mock ?t = sy_mock s" by simp
  have "mock_inv (sy_mock s)" using assms(1) by (simp add: sys_inv_def)
  with mq.take_None assms(2) obtain w m where d: "mock_dispatch (sy_mock s) = Some (w, m)" by fastforce
  then have m: "length (mk_ran m) = length (mk_ran (sy_mock s)) + 1"
    by (auto simp: step_defs split: if_splits list.splits)
  have "sy_mock (run_turn ?t) = m"
    using cur mock d by (simp add: run_turn_def Let_def stay_with_def on_cell_def)
  then show ?thesis using m by (simp add: turns_taken_def)
qed

section \<open>Runs for the witnesses\<close>

text \<open>Two tasks are spawned; the first one runs.\<close>

definition spawn_both :: "nat sys_act list" where
  "spawn_both =
     [SpawnCall 0 7, SpawnGo 0 True, SpawnGo 0 True, SpawnGo 0 True,
      SpawnCall 1 8, SpawnGo 1 True, SpawnGo 1 True, SpawnGo 1 True]"

definition both :: "nat wq_sys" where
  "both = sys_run spawn_both sys_new"

lemma sys_clean_append: "sys_clean (xs @ ys) s \<longleftrightarrow> sys_clean xs s \<and> sys_clean ys (sys_run xs s)"
  by (induction xs arbitrary: s) simp_all

lemma sys_clean_without_spawns:
  "list_all (\<lambda>act. case act of SpawnCall i f \<Rightarrow> False | _ \<Rightarrow> True) acts \<Longrightarrow> sys_clean acts s"
proof (induction acts arbitrary: s)
  case (Cons act acts)
  then show ?case by (cases act) (simp_all add: sys_quiet_def)
qed simp

lemmas sys_eval = on_cell_def schedule_cell_def new_item_def stay_with_def spawn_go_def wake_go_def run_turn_def
  on_current_def cell_defs mock_defs

lemma both_clean: "sys_clean spawn_both sys_new"
  by (simp add: spawn_both_def sys_quiet_def quiet_def sys_new_def cell_new_def mock_new_def sys_eval Let_def)

lemma both_reach: "sys_reach both"
  using sys_clean_reach [OF both_clean sys_start] by (simp add: both_def)

lemma both_eq:
  "sy_wi both (Suc 0) = Some 1"
  "sy_cells both (Suc 0) = \<lparr>tc_state = 3, tc_handle = True, tc_future = Some 8, tc_queue = 1, tc_wakes = 0,
     tc_spawn = SpIdle, tc_disp = DIdle, tc_polls = 0, tc_undef = False\<rparr>"
  "mk_items (sy_mock both) = [\<lparr>wi_ctx = 0, wi_run = 0\<rparr>, \<lparr>wi_ctx = 1, wi_run = 1\<rparr>]"
  "mk_sent (sy_mock both) = [0, 1]"
  "turns_taken both = 0"
  by (simp_all add: both_def spawn_both_def sys_new_def cell_new_def mock_new_def sys_eval turns_taken_def Let_def)

section \<open>Properties\<close>

text \<open>
  C13: the cells share the queue without disturbing each other: in every state that the system reaches by runs whose every
  spawn finds no entry and no waker left of an earlier life of its cell, each cell is in a state that \<open>Task_Cell\<close> reaches for a cell alone, so that what is proved there holds for it; the
  number of entries it counts is the number of entries of its own work item in the shared channel; no poll or drop found
  an uninitialised future; and the dispatcher is inside one cell at most.
\<close>

theorem wq_cells_compose:
  assumes "sys_reach s"
  shows "cell_reach (sy_cells s i) \<and> \<not> tc_undef (sy_cells s i) \<and>
    tc_queue (sy_cells s i) = (case sy_wi s i of None \<Rightarrow> 0 | Some w \<Rightarrow> count_list (mk_sent (sy_mock s)) w) \<and>
    (tc_disp (sy_cells s i) = DIdle \<or> tc_disp (sy_cells s j) = DIdle \<or> i = j)"
proof -
  have "current_ok (sy_cells s) (sy_cur s)" using sys_reach_inv [OF assms] by (simp add: sys_inv_def)
  then have "tc_disp (sy_cells s i) = DIdle \<or> tc_disp (sy_cells s j) = DIdle \<or> i = j" by (auto simp: current_ok_def)
  with cell_reach_inv [OF sys_reach_cell [OF assms, of i]] sys_reach_cell [OF assms, of i]
    inv_handle_ok [OF sys_reach_inv [OF assms], of i] show ?thesis
    by (simp add: cell_inv_def handle_ok_def entries_in_def)
qed

theorem wq_cells_compose_witness:
  "tc_queue (sy_cells both 1) = 1 \<and> count_list (mk_sent (sy_mock both)) 1 = 1 \<and> cell_reach (sy_cells both 1)"
  using wq_cells_compose [OF both_reach, of 1 1] by (simp add: both_eq)

text \<open>
  C28: the shared queue is bounded: in a run whose every spawn finds no entry and no waker left of an earlier life of
  its cell (\<open>sys_clean\<close>), a task has at most one entry in the channel, so the channel never holds more
  entries than there are tasks, however often they are woken. Where spawns do find such entries there is no bound
  (\<open>stale_entries_pile_up\<close>).
\<close>

theorem wq_queue_bounded:
  assumes "sys_clean acts sys_new" and "s = sys_run acts sys_new"
  shows "distinct (mk_sent (sy_mock s)) \<and> length (mk_sent (sy_mock s)) \<le> length (mk_items (sy_mock s))"
proof -
  have reach: "sys_reach s" using sys_clean_reach [OF assms(1) sys_start] assms(2) by simp
  have d: "distinct (mk_sent (sy_mock s))" using entries_once [OF reach] by (rule distinct_count_le)
  have "set (mk_sent (sy_mock s)) \<subseteq> {..<length (mk_items (sy_mock s))}"
    using sys_reach_inv [OF reach] by (auto simp: sys_inv_def mock_inv_def)
  then have "card (set (mk_sent (sy_mock s))) \<le> card {..<length (mk_items (sy_mock s))}" by (intro card_mono) simp_all
  with d show ?thesis by (simp add: distinct_card)
qed

theorem wq_queue_bounded_witness:
  "(let s = sys_run (spawn_both @ [WakeCall 0, WakeGo 0, WakeCall 1, WakeGo 1, WakeCall 1]) sys_new
    in distinct (mk_sent (sy_mock s)) \<and> length (mk_sent (sy_mock s)) \<le> length (mk_items (sy_mock s)))"
proof -
  have "sys_clean (spawn_both @ [WakeCall 0, WakeGo 0, WakeCall 1, WakeGo 1, WakeCall 1]) sys_new"
    unfolding sys_clean_append by (intro conjI both_clean sys_clean_without_spawns) simp
  from wq_queue_bounded [OF this refl] show ?thesis by (simp only: Let_def)
qed

text \<open>
  C8: no task starves: after a run whose every spawn finds no entry and no waker left of an earlier life of its cell
  (\<open>sys_clean\<close>), a live task that has been woken, and whose waker has handed it to the queue, is polled
  before the dispatcher has run as many callbacks as there are tasks, whatever the other tasks, spawners and
  wakers do in the meantime, further spawns over old entries included.
\<close>

theorem wq_task_served:
  assumes "sys_clean past sys_new" and "s = sys_run past sys_new" and "tc_spawn (sy_cells s i) = SpIdle" and "tc_disp (sy_cells s i) = DIdle"
    and "tc_state (sy_cells s i) = SPAWNED OR RUN_QUEUED" and "tc_wakes (sy_cells s i) = 0"
    and "turns_taken s + length (mk_items (sy_mock s)) \<le> turns_taken (sys_run acts s)"
  shows "\<exists>pre post. acts = pre @ post \<and> tc_disp (sy_cells (sys_run pre s) i) = DPoll"
proof -
  have reach: "sys_reach s" using sys_clean_reach [OF assms(1) sys_start] assms(2) by simp
  then have inv: "sys_inv s" by (rule sys_reach_inv)
  have "tc_queue (sy_cells s i) \<noteq> 0"
    using cell_reach_inv [OF sys_reach_cell [OF reach, of i]] assms(3-6) by (simp add: cell_inv_def)
  moreover have "tc_state (sy_cells s i) AND SPAWNED \<noteq> 0" using assms(5) by simp
  ultimately obtain w k where wait: "waiting i w k s" using waiting_starts [OF inv] assms(3,4) by blast
  have "k < card {..<length (mk_items (sy_mock s))}"
    by (rule mq.at_early [OF entries_once [OF reach]])
       (use inv wait in \<open>auto simp: sys_inv_def mock_inv_def waiting_def\<close>)
  with waiting_served [OF wait] assms(7) show ?thesis by simp
qed

theorem wq_task_served_witness:
  "\<exists>pre post. [RunTurn, WakeCall 0, WakeGo 0, PollEnd False, RunTurn] = pre @ post \<and>
     tc_disp (sy_cells (sys_run pre both) 1) = DPoll"
proof (rule wq_task_served [OF both_clean both_def])
  show "turns_taken both + length (mk_items (sy_mock both)) \<le>
      turns_taken (sys_run [RunTurn, WakeCall 0, WakeGo 0, PollEnd False, RunTurn] both)"
    by (simp add: both_def spawn_both_def sys_new_def cell_new_def mock_new_def sys_eval turns_taken_def Let_def)
qed (simp_all add: both_eq)

end
