(* ===== verification/Wq_Tasks.thy ===== *)
theory Wq_Tasks
  imports Wq_System
begin

text \<open>
  Tasks on the shared work queue of \<open>Wq_System\<close>, one call after another: a task is spawned, woken through its
  waker, taken from the queue, polled and finished, each of these run to its end. \<open>tasks_on\<close> describes the states in between by
  the tasks in the queue, in order, the tasks that are live, and the one that is being polled.
\<close>

section \<open>Whole calls\<close>

definition spawn_task :: "nat \<Rightarrow> 'f \<Rightarrow> 'f wq_sys \<Rightarrow> 'f wq_sys" where
  "spawn_task i fut = sys_run [SpawnCall i fut, SpawnGo i True, SpawnGo i True, SpawnGo i True]"

definition wake_task :: "nat \<Rightarrow> 'f wq_sys \<Rightarrow> 'f wq_sys" where
  "wake_task i = sys_run [WakeCall i, WakeGo i]"

text \<open>The rest of \<open>poll_once\<close> after the poll of the future: for \<open>Ready\<close> the drop and the store of the state.\<close>

definition poll_ends :: "bool \<Rightarrow> 'f wq_sys \<Rightarrow> 'f wq_sys" where
  "poll_ends is_ready = sys_run (PollEnd is_ready # (if is_ready then [FinishGo, FinishGo] else []))"

section \<open>The states in between\<close>

definition cell_is :: "'f task_cell \<Rightarrow> bool \<Rightarrow> bool \<Rightarrow> bool \<Rightarrow> bool" where
  "cell_is c live queued running \<longleftrightarrow>
     tc_spawn c = SpIdle \<and> tc_handle c \<and> tc_wakes c = 0 \<and> \<not> tc_undef c \<and> tc_queue c = of_bool queued \<and>
     tc_state c = (if live then (if queued then 3 else 1) else 0) \<and> tc_disp c = (if running then DPoll else DIdle) \<and>
     (live \<longrightarrow> tc_future c \<noteq> None) \<and> (running \<longrightarrow> live)"

definition item_is :: "'f wq_sys \<Rightarrow> nat \<Rightarrow> bool" where
  "item_is s i \<longleftrightarrow>
     (\<exists>w. sy_wi s i = Some w \<and> w < length (mk_items (sy_mock s)) \<and> wi_ctx (mk_items (sy_mock s) ! w) = i)"

definition tasks_on :: "nat \<Rightarrow> 'f wq_sys \<Rightarrow> nat list \<Rightarrow> (nat \<Rightarrow> bool) \<Rightarrow> nat option \<Rightarrow> bool" where
  "tasks_on n s qs live cur \<longleftrightarrow>
     sy_cur s = cur \<and> mk_started (sy_mock s) \<and> mk_sent (sy_mock s) = map (the \<circ> sy_wi s) qs \<and>
     distinct qs \<and> (\<forall>i \<in> set qs. i < n \<and> live i) \<and> (\<forall>i. cur = Some i \<longrightarrow> i < n) \<and>
     (\<forall>i < n. item_is s i \<and> cell_is (sy_cells s i) (live i) (i \<in> set qs) (cur = Some i))"

lemma tasks_onD:
  assumes "tasks_on n s qs live cur"
  shows "sy_cur s = cur" "mk_started (sy_mock s)" "mk_sent (sy_mock s) = map (the \<circ> sy_wi s) qs" "distinct qs"
    "\<And>i. i \<in> set qs \<Longrightarrow> i < n \<and> live i" "\<And>i. i < n \<Longrightarrow> item_is s i"
    "\<And>i. i < n \<Longrightarrow> cell_is (sy_cells s i) (live i) (i \<in> set qs) (cur = Some i)"
  using assms by (auto simp: tasks_on_def)

lemma two_tasks_on: "tasks_on 2 (spawn_task 0 f (spawn_task 1 g sys_new)) [1, 0] (\<lambda>_. True) None"
  by (simp add: tasks_on_def spawn_task_def sys_run_def sys_new_def on_cell_def spawn_go_def new_item_def schedule_cell_def
      cell_new_def mock_new_def cell_is_def item_is_def step_defs less_2_cases_iff all_conj_distrib)

lemma tasks_wake:
  assumes on: "tasks_on n s qs live cur" and i: "i < n" "live i"
  shows "tasks_on n (wake_task i s) (if i \<in> set qs then qs else qs @ [i]) live cur"
proof -
  note d = tasks_onD [OF on]
  obtain w where w: "sy_wi s i = Some w" using d(6) [OF i(1)] by (auto simp: item_is_def)
  have c: "cell_is (sy_cells s i) True (i \<in> set qs) (cur = Some i)" using d(7) [OF i(1)] i(2) by simp
  show ?thesis
  proof (cases "i \<in> set qs")
    case True
    then have "wake_task i s = s\<lparr>sy_cells := (sy_cells s)(i := (sy_cells s i)\<lparr>tc_state := 3\<rparr>)\<rparr>"
      using c by (simp add: wake_task_def sys_run_def on_cell_def wake_go_def step_defs cell_is_def)
    with True on c show ?thesis by (auto simp: tasks_on_def item_is_def cell_is_def)
  next
    case False
    then have "wake_task i s = s\<lparr>sy_cells := (sy_cells s)(i := (sy_cells s i)\<lparr>tc_state := 3, tc_wakes := 0, tc_queue := 1\<rparr>),
        sy_mock := (sy_mock s)\<lparr>mk_sent := mk_sent (sy_mock s) @ [w]\<rparr>\<rparr>"
      using c d(2) w by (simp add: wake_task_def sys_run_def on_cell_def wake_go_def schedule_cell_def step_defs cell_is_def)
    with False on c i w show ?thesis by (auto simp: tasks_on_def item_is_def cell_is_def)
  qed
qed

lemma tasks_turn:
  assumes on: "tasks_on n s (i # qs) live None"
  shows "tasks_on n (run_turn s) qs live (Some i)"
proof -
  note d = tasks_onD [OF on]
  have i: "i < n" "live i" "i \<notin> set qs" using d(4) d(5) [of i] by auto
  obtain w where w: "sy_wi s i = Some w" "wi_ctx (mk_items (sy_mock s) ! w) = i" using d(6) [OF i(1)] by (auto simp: item_is_def)
  have c: "cell_is (sy_cells s i) True True False" using d(7) [OF i(1)] i(2) by simp
  have "run_turn s = s\<lparr>sy_cells := (sy_cells s)(i := (sy_cells s i)\<lparr>tc_queue := 0, tc_state := 1, tc_disp := DPoll,
        tc_undef := (tc_future (sy_cells s i) = None)\<rparr>),
      sy_mock := (sy_mock s)\<lparr>mk_sent := map (the \<circ> sy_wi s) qs, mk_ran := mk_ran (sy_mock s) @ [mk_items (sy_mock s) ! w]\<rparr>,
      sy_cur := Some i\<rparr>"
    using d(1-3) w c by (simp add: run_turn_def stay_with_def on_cell_def step_defs cell_is_def)
  with on i c show ?thesis by (auto simp: tasks_on_def item_is_def cell_is_def)
qed

lemma tasks_idle: "tasks_on n s [] live None \<Longrightarrow> run_turn s = s"
  by (simp add: tasks_on_def run_turn_def step_defs)

lemma tasks_pending:
  assumes on: "tasks_on n s qs live (Some i)"
  shows "tasks_on n (poll_ends False s) qs live None"
proof -
  note d = tasks_onD [OF on]
  have i: "i < n" using on by (simp add: tasks_on_def)
  have c: "cell_is (sy_cells s i) (live i) (i \<in> set qs) True" using d(7) [OF i] by simp
  have "poll_ends False s =
      s\<lparr>sy_cells := (sy_cells s)(i := (sy_cells s i)\<lparr>tc_disp := DIdle, tc_polls := tc_polls (sy_cells s i) + 1\<rparr>), sy_cur := None\<rparr>"
    using d(1) c by (simp add: poll_ends_def sys_run_def on_current_def stay_with_def on_cell_def step_defs cell_is_def)
  with on c show ?thesis by (auto simp: tasks_on_def item_is_def cell_is_def)
qed

lemma tasks_ready:
  assumes on: "tasks_on n s qs live (Some i)" and "i \<notin> set qs"
  shows "tasks_on n (poll_ends True s) qs (live(i := False)) None"
proof -
  note d = tasks_onD [OF on]
  have i: "i < n" using on by (simp add: tasks_on_def)
  have c: "cell_is (sy_cells s i) True False True" using d(7) [OF i] assms(2) by (auto simp: cell_is_def)
  have "poll_ends True s =
      s\<lparr>sy_cells := (sy_cells s)(i := (sy_cells s i)\<lparr>tc_polls := tc_polls (sy_cells s i) + 1,
          tc_undef := (tc_future (sy_cells s i) = None), tc_future := None, tc_state := 0, tc_disp := DIdle\<rparr>), sy_cur := None\<rparr>"
    using d(1) c by (simp add: poll_ends_def sys_run_def on_current_def stay_with_def on_cell_def step_defs cell_is_def)
  with on c assms(2) show ?thesis by (auto simp: tasks_on_def item_is_def cell_is_def)
qed

end
