(* ===== verification/Task_Pipe.thy ===== *)
theory Task_Pipe
  imports Wq_Tasks Channel
begin

text \<open>
  Two tasks of one work queue that talk over a channel (the scenario of \<open>crates/px4-workqueue/tests/channel.rs\<close>): one sends
  a list of values with \<open>send(v).await\<close>, the other makes as many \<open>recv().await\<close>. Everything they run through is the model of the
  source: the futures and wakers of \<open>Channel\<close>, the cells, the work items and the dispatcher of \<open>Wq_System\<close>. A poll
  runs to its end, since the one dispatcher thread polls both tasks. The waker of a task is its number.
\<close>

section \<open>The tasks\<close>

definition producer :: nat where
  "producer = 0"

definition consumer :: nat where
  "consumer = 1"

record ('a, 'u) pipe =
  pi_sys :: "unit wq_sys"
  pi_chan :: "('a, 'u) channel"
  pi_todo :: "'a list"
  pi_want :: nat
  pi_got :: "'a list"

text \<open>The task wakers that an operation of the channel has invoked, and their way to the work queue.\<close>

definition woken_by :: "('a, 'u) channel \<Rightarrow> ('a, 'u) channel \<Rightarrow> waker list" where
  "woken_by c c' =
     drop (length (aw_woken (ch_recv_waker c))) (aw_woken (ch_recv_waker c')) @
     drop (length (aw_woken (ch_send_waker c))) (aw_woken (ch_send_waker c'))"

text \<open>
  \<open>for v in values { ch.send(v).await }\<close>: one poll, which goes on until a send is \<open>Pending\<close> or all are done; the
  list is what is left, with the value of the pending future at its head.
\<close>

fun produce ::
  "'w::len word \<Rightarrow> 'a list \<Rightarrow> ('a, 'w word) channel \<times> 'f wq_sys \<Rightarrow>
     (bool \<times> 'a list \<times> ('a, 'w word) channel \<times> 'f wq_sys) option" where
  "produce N [] (c, s) = Some (True, [], c, s)"
| "produce N (v # vs) (c, s) =
     (case send_poll N 0 producer (Some v) c of
        None \<Rightarrow> None
      | Some (p, rest, c') \<Rightarrow>
          let s' = fold wake_task (woken_by c c') s
          in case p of
               Ready u \<Rightarrow> produce N vs (c', s')
             | Pending \<Rightarrow> Some (False, (case rest of None \<Rightarrow> vs | Some v \<Rightarrow> v # vs), c', s'))"

text \<open>\<open>for _ in 0..k { got.push(ch.recv().await) }\<close>.\<close>

fun consume ::
  "'w::len word \<Rightarrow> nat \<Rightarrow> 'a list \<Rightarrow> ('a, 'w word) channel \<times> 'f wq_sys \<Rightarrow>
     (bool \<times> nat \<times> 'a list \<times> ('a, 'w word) channel \<times> 'f wq_sys) option" where
  "consume N 0 got (c, s) = Some (True, 0, got, c, s)"
| "consume N (Suc k) got (c, s) =
     (case recv_poll N 0 consumer c of
        None \<Rightarrow> None
      | Some (p, c') \<Rightarrow>
          let s' = fold wake_task (woken_by c c') s
          in case p of
               Ready v \<Rightarrow> consume N k (got @ [v]) (c', s')
             | Pending \<Rightarrow> Some (False, Suc k, got, c', s'))"

text \<open>One turn of the dispatcher: the first entry of the queue, and the poll of the task it belongs to.\<close>

definition pipe_turn :: "'w::len word \<Rightarrow> ('a, 'w word) pipe \<Rightarrow> ('a, 'w word) pipe option" where
  "pipe_turn N s =
     (let sys = run_turn (pi_sys s)
      in case sy_cur sys of
           None \<Rightarrow> Some (s\<lparr>pi_sys := sys\<rparr>)
         | Some i \<Rightarrow>
             if i = producer
             then (case produce N (pi_todo s) (pi_chan s, sys) of
                     None \<Rightarrow> None
                   | Some (is_ready, vs, c, sys) \<Rightarrow>
                       Some (s\<lparr>pi_sys := poll_ends is_ready sys, pi_chan := c, pi_todo := vs\<rparr>))
             else (case consume N (pi_want s) (pi_got s) (pi_chan s, sys) of
                     None \<Rightarrow> None
                   | Some (is_ready, k, got, c, sys) \<Rightarrow>
                       Some (s\<lparr>pi_sys := poll_ends is_ready sys, pi_chan := c, pi_want := k, pi_got := got\<rparr>)))"

fun pipe_run :: "'w::len word \<Rightarrow> nat \<Rightarrow> ('a, 'w word) pipe \<Rightarrow> ('a, 'w word) pipe option" where
  "pipe_run N 0 s = Some s"
| "pipe_run N (Suc k) s = (case pipe_turn N s of None \<Rightarrow> None | Some s \<Rightarrow> pipe_run N k s)"

text \<open>Both tasks have been spawned, the consumer first, and the dispatcher has not run yet.\<close>

definition pipe_new :: "'w::len word \<Rightarrow> 'a list \<Rightarrow> ('a, 'w word) pipe" where
  "pipe_new N xs =
     \<lparr>pi_sys = spawn_task producer () (spawn_task consumer () sys_new), pi_chan = channel_new N, pi_todo = xs,
      pi_want = length xs, pi_got = []\<rparr>"

section \<open>The channel between the polls\<close>

definition waker_idle :: "aw \<Rightarrow> bool" where
  "waker_idle a \<longleftrightarrow> aw_state a = WAITING \<and> (\<forall>t. aw_pcs a t = Idle)"

text \<open>
  \<open>chan_is N H c q r t\<close>: the channel holds \<open>q\<close> after \<open>H\<close> values have been received, and \<open>r\<close> and \<open>t\<close> are the wakers
  of the receiver and the sender.
\<close>

definition chan_is ::
  "'w::len word \<Rightarrow> nat \<Rightarrow> ('a, 'w word) channel \<Rightarrow> 'a list \<Rightarrow> waker option \<Rightarrow> waker option \<Rightarrow> bool" where
  "chan_is N H c q r t \<longleftrightarrow>
     chan_rep N H c q \<and> waker_idle (ch_recv_waker c) \<and> waker_idle (ch_send_waker c) \<and>
     aw_slot (ch_recv_waker c) = r \<and> aw_slot (ch_send_waker c) = t"

lemma chan_is_new: "chan_is N 0 (channel_new N) [] None None"
  by (simp add: chan_is_def chan_rep_new) (simp add: channel_new_def waker_idle_def aw_new_def)

text \<open>What the waiting side has registered is woken.\<close>

definition waker_list :: "waker option \<Rightarrow> waker list" where
  "waker_list r = (case r of None \<Rightarrow> [] | Some w \<Rightarrow> [w])"

lemma send_poll_room:
  assumes c: "chan_is N H c q r t" and "length q < unat N" and "fits N (H + length q + 1)"
  obtains c' where "send_poll N i w (Some v) c = Some (Ready (), None, c')"
    and "chan_is N H c' (q @ [v]) None t" and "woken_by c c' = waker_list r"
proof -
  have rep: "chan_rep N H c q" using c by (simp add: chan_is_def)
  from try_send_rep(1) [OF rep assms(3,2), of i v] obtain c'
    where s: "try_send N i v c = (Ok (), c')" and rep': "chan_rep N H c' (q @ [v])" by blast
  then have c': "c' = (push_slot N v c)\<lparr>ch_recv_waker := aw_run i (aw_wake i (ch_recv_waker c))\<rparr>"
    by (auto simp: try_send_def Let_def push_slot_def split: if_splits)
  have "ch_send_waker c' = ch_send_waker c"
    "ch_recv_waker c' = (ch_recv_waker c)\<lparr>aw_slot := None, aw_woken := aw_woken (ch_recv_waker c) @ waker_list r\<rparr>"
    using c by (auto simp: c' push_slot_def Let_def chan_is_def waker_idle_def aw_run_wake waker_list_def)
  then have "chan_is N H c' (q @ [v]) None t" "woken_by c c' = waker_list r"
    using c rep' by (auto simp: chan_is_def waker_idle_def woken_by_def)
  with s show thesis by (intro that) (simp_all add: send_poll_def)
qed

lemma send_poll_full:
  assumes c: "chan_is N H c q r t" and "length q = unat N" and "fits N (H + length q + 1)"
  obtains c' where "send_poll N i w (Some v) c = Some (Pending, Some v, c')"
    and "chan_is N H c' q r (Some w)" and "woken_by c c' = []"
proof -
  have rep: "chan_rep N H c q" using c by (simp add: chan_is_def)
  let ?c = "c\<lparr>ch_send_waker := aw_run i (aw_register i w (ch_send_waker c))\<rparr>"
  have no: "\<not> length q < unat N" using assms(2) by simp
  have "try_send N i v c = (Err v, c)" by (rule try_send_rep(2) [OF rep assms(3) no])
  moreover have "try_send N i v ?c = (Err v, ?c)" by (rule try_send_rep(2) [OF _ assms(3) no]) (simp add: rep)
  moreover have "ch_send_waker ?c = (ch_send_waker c)\<lparr>aw_slot := Some w\<rparr>"
    using c by (simp add: chan_is_def waker_idle_def aw_run_register)
  then have "chan_is N H ?c q r (Some w)" "woken_by c ?c = []"
    using c by (auto simp: chan_is_def waker_idle_def woken_by_def)
  ultimately show thesis by (intro that) (simp_all add: send_poll_def Let_def)
qed

lemma recv_poll_some:
  assumes c: "chan_is N H c (x # q) r t" and "fits N (H + Suc (length q))"
  obtains c' where "recv_poll N i w c = Some (Ready x, c')"
    and "chan_is N (Suc H) c' q r None" and "woken_by c c' = waker_list t"
proof -
  have rep: "chan_rep N H c (x # q)" using c by (simp add: chan_is_def)
  from try_recv_rep(2) [OF rep _ refl, of i] assms(2) obtain c'
    where s: "try_recv N i c = (Got x, c')" and rep': "chan_rep N (Suc H) c' q" by auto
  then obtain c1 where "pop_slot N c = (Got x, c1)" and c': "c' = c1\<lparr>ch_send_waker := aw_run i (aw_wake i (ch_send_waker c1))\<rparr>"
    by (auto simp: try_recv_def split: if_splits prod.splits recv_res.splits)
  then have c1: "ch_send_waker c1 = ch_send_waker c" "ch_recv_waker c1 = ch_recv_waker c"
    by (auto simp: pop_slot_def Let_def split: option.splits)
  have "ch_recv_waker c' = ch_recv_waker c"
    "ch_send_waker c' = (ch_send_waker c)\<lparr>aw_slot := None, aw_woken := aw_woken (ch_send_waker c) @ waker_list t\<rparr>"
    using c by (auto simp: c' c1 chan_is_def waker_idle_def aw_run_wake waker_list_def)
  then have "chan_is N (Suc H) c' q r None" "woken_by c c' = waker_list t"
    using c rep' by (auto simp: chan_is_def waker_idle_def woken_by_def)
  with s show thesis by (intro that) (simp_all add: recv_poll_def)
qed

lemma recv_poll_empty:
  assumes c: "chan_is N H c [] r t" and "fits N H"
  obtains c' where "recv_poll N i w c = Some (Pending, c')"
    and "chan_is N H c' [] (Some w) t" and "woken_by c c' = []"
proof -
  have rep: "chan_rep N H c []" using c by (simp add: chan_is_def)
  let ?c = "c\<lparr>ch_recv_waker := aw_run i (aw_register i w (ch_recv_waker c))\<rparr>"
  have "try_recv N i c = (Empty, c)" by (rule try_recv_rep(1) [OF rep]) (use assms(2) in simp_all)
  moreover have "try_recv N i ?c = (Empty, ?c)" by (rule try_recv_rep(1)) (use rep assms(2) in simp_all)
  moreover have "ch_recv_waker ?c = (ch_recv_waker c)\<lparr>aw_slot := Some w\<rparr>"
    using c by (simp add: chan_is_def waker_idle_def aw_run_register)
  then have "chan_is N H ?c [] (Some w) t" "woken_by c ?c = []"
    using c by (auto simp: chan_is_def waker_idle_def woken_by_def)
  ultimately show thesis by (intro that) (simp_all add: recv_poll_def Let_def)
qed

section \<open>One poll of each task\<close>

text \<open>The waker of task \<open>b\<close>, which is live, not queued and not the one being polled, or nothing.\<close>

definition parked :: "waker option \<Rightarrow> nat \<Rightarrow> nat list \<Rightarrow> (nat \<Rightarrow> bool) \<Rightarrow> bool" where
  "parked r b qs live \<longleftrightarrow> r = None \<or> r = Some b \<and> live b \<and> b \<notin> set qs"

definition queue_after :: "nat list \<Rightarrow> waker option \<Rightarrow> nat list" where
  "queue_after qs r = qs @ waker_list r"

lemma tasks_wake_list:
  assumes "tasks_on n s qs live cur" and "parked r b qs live" and "b < n"
  shows "tasks_on n (fold wake_task (waker_list r) s) (queue_after qs r) live cur"
  using tasks_wake [OF assms(1,3)] assms(1,2) by (cases r) (auto simp: parked_def queue_after_def waker_list_def)

lemma parked_None [simp]: "parked None b qs live"
  by (simp add: parked_def)

lemma queue_after_None [simp]: "queue_after qs None = qs"
  by (simp add: queue_after_def waker_list_def)

lemma produce_run:
  assumes "chan_is N H c q r None" and "tasks_on 2 s qs live (Some producer)" and "parked r consumer qs live"
    and "fits N (H + length q + length vs)"
  shows "\<exists>k c' s'. produce N vs (c, s) = Some (k = length vs, drop k vs, c', s') \<and> k \<le> length vs \<and>
    (k < length vs \<longrightarrow> length q + k = unat N) \<and>
    chan_is N H c' (q @ take k vs) (if k = 0 then r else None) (if k = length vs then None else Some producer) \<and>
    tasks_on 2 s' (if k = 0 then qs else queue_after qs r) live (Some producer)"
  using assms
proof (induction vs arbitrary: c q r s qs)
  case Nil
  then show ?case by (intro exI [of _ 0] exI [of _ c] exI [of _ s]) simp
next
  case (Cons v vs)
  have f: "fits N (H + length q + 1)" by (rule fits_mono [OF Cons.prems(4)]) simp
  have le: "length q \<le> unat N" using Cons.prems(1) by (simp add: chan_is_def chan_rep_def)
  show ?case
  proof (cases "length q < unat N")
    case True
    from send_poll_room [OF Cons.prems(1) True f, of 0 producer v] obtain c1
      where c1: "send_poll N 0 producer (Some v) c = Some (Ready (), None, c1)"
        "chan_is N H c1 (q @ [v]) None None" "woken_by c c1 = waker_list r" by metis
    let ?s = "fold wake_task (waker_list r) s"
    have on: "tasks_on 2 ?s (queue_after qs r) live (Some producer)"
      by (rule tasks_wake_list [OF Cons.prems(2,3)]) (simp add: consumer_def)
    have "fits N (H + length (q @ [v]) + length vs)" using Cons.prems(4) by simp
    from Cons.IH [OF c1(2) on parked_None this] obtain k c' s'
      where k0: "produce N vs (c1, ?s) = Some (k = length vs, drop k vs, c', s')" and k1: "k \<le> length vs"
        and k2: "k < length vs \<longrightarrow> length (q @ [v]) + k = unat N"
        and k3: "chan_is N H c' ((q @ [v]) @ take k vs) (if k = 0 then None else None) (if k = length vs then None else Some producer)"
        and k4: "tasks_on 2 s' (if k = 0 then queue_after qs r else queue_after (queue_after qs r) None) live (Some producer)"
      by blast
    note k = k0 k1 k2 k3 [unfolded if_cancel] k4 [unfolded queue_after_None if_cancel]
    have "produce N (v # vs) (c, s) = Some (Suc k = length (v # vs), drop (Suc k) (v # vs), c', s')"
      using c1(1,3) k(1) by (simp add: Let_def)
    moreover have "chan_is N H c' (q @ take (Suc k) (v # vs)) None (if Suc k = length (v # vs) then None else Some producer)"
      using k(4) by simp
    ultimately show ?thesis using k(2,3,5)
      by (intro exI [of _ "Suc k"] exI [of _ c'] exI [of _ s']) simp
  next
    case False
    then have "length q = unat N" using le by simp
    from send_poll_full [OF Cons.prems(1) this f, of 0 producer v] obtain c1
      where c1: "send_poll N 0 producer (Some v) c = Some (Pending, Some v, c1)"
        "chan_is N H c1 q r (Some producer)" "woken_by c c1 = []" by metis
    have "produce N (v # vs) (c, s) = Some (False, v # vs, c1, s)" using c1(1,3) by (simp add: Let_def)
    then show ?thesis using c1(2) \<open>length q = unat N\<close> Cons.prems(2)
      by (intro exI [of _ 0] exI [of _ c1] exI [of _ s]) simp
  qed
qed

lemma consume_run:
  assumes "chan_is N H c q None t" and "tasks_on 2 s qs live (Some consumer)" and "parked t producer qs live"
    and "fits N (H + length q)" and "length q \<le> k"
  shows "\<exists>c' s'. consume N k got (c, s) = Some (k = length q, k - length q, got @ q, c', s') \<and>
    chan_is N (H + length q) c' [] (if k = length q then None else Some consumer) (if q = [] then t else None) \<and>
    tasks_on 2 s' (if q = [] then qs else queue_after qs t) live (Some consumer)"
  using assms
proof (induction q arbitrary: H c t s qs k got)
  case Nil
  show ?case
  proof (cases k)
    case 0
    with Nil.prems show ?thesis by auto
  next
    case (Suc j)
    have "fits N H" using Nil.prems(4) by simp
    from recv_poll_empty [OF Nil.prems(1) this, of 0 consumer] obtain c1
      where "recv_poll N 0 consumer c = Some (Pending, c1)" "chan_is N H c1 [] (Some consumer) t" "woken_by c c1 = []"
      by metis
    with Suc Nil.prems(2) show ?thesis by (auto simp: Let_def)
  qed
next
  case (Cons x q)
  then obtain j where j: "k = Suc j" "length q \<le> j" by (cases k) auto
  have "fits N (H + Suc (length q))" using Cons.prems(4) by simp
  from recv_poll_some [OF Cons.prems(1) this, of 0 consumer] obtain c1
    where c1: "recv_poll N 0 consumer c = Some (Ready x, c1)" "chan_is N (Suc H) c1 q None None"
      "woken_by c c1 = waker_list t" by metis
  let ?s = "fold wake_task (waker_list t) s"
  have on: "tasks_on 2 ?s (queue_after qs t) live (Some consumer)"
    by (rule tasks_wake_list [OF Cons.prems(2,3)]) (simp add: producer_def)
  have f: "fits N (Suc H + length q)" using Cons.prems(4) by simp
  from Cons.IH [OF c1(2) on parked_None f j(2), of "got @ [x]"] c1 j show ?case
    by (auto simp: Let_def cong: if_cong)
qed

section \<open>The invariant of the dispatcher's turns\<close>

lemma producer_consumer [simp]:
  "producer \<noteq> consumer" "consumer \<noteq> producer" "producer < 2" "consumer < 2"
  by (simp_all add: producer_def consumer_def)

text \<open>What a task has registered: its waker, while it waits and nobody has woken it yet.\<close>

definition asleep :: "nat \<Rightarrow> nat list \<Rightarrow> (nat \<Rightarrow> bool) \<Rightarrow> waker option" where
  "asleep i qs live = (if live i \<and> i \<notin> set qs then Some i else None)"

lemma parked_asleep [simp]: "parked (asleep i qs live) i qs live"
  by (simp add: parked_def asleep_def)

lemma set_queue_asleep [simp]: "set (queue_after qs (asleep i qs live)) = set qs \<union> (if live i then {i} else {})"
  by (auto simp: queue_after_def waker_list_def asleep_def)

lemma asleep_woken:
  "live' i = live i \<Longrightarrow> (i \<in> set qs' \<longleftrightarrow> i \<in> set qs \<or> w \<and> live i) \<Longrightarrow>
   asleep i qs' live' = (if w then None else asleep i qs live)"
  by (auto simp: asleep_def)

lemma length_queue_after: "length (queue_after qs r) \<le> length qs + 1"
  by (cases r) (simp_all add: queue_after_def waker_list_def)

definition pipe_inv ::
  "'w::len word \<Rightarrow> 'a list \<Rightarrow> ('a, 'w word) pipe \<Rightarrow> nat list \<Rightarrow> (nat \<Rightarrow> bool) \<Rightarrow> 'a list \<Rightarrow> bool" where
  "pipe_inv N xs st qs live q \<longleftrightarrow>
     tasks_on 2 (pi_sys st) qs live None \<and>
     chan_is N (length (pi_got st)) (pi_chan st) q (asleep consumer qs live) (asleep producer qs live) \<and>
     pi_got st @ q @ pi_todo st = xs \<and> pi_want st = length q + length (pi_todo st) \<and>
     (\<not> live producer \<longrightarrow> pi_todo st = []) \<and>
     (live producer \<and> producer \<notin> set qs \<longrightarrow> pi_todo st \<noteq> [] \<and> length q = unat N) \<and>
     (\<not> live consumer \<longrightarrow> q = [] \<and> pi_todo st = []) \<and>
     (live consumer \<and> consumer \<notin> set qs \<longrightarrow> q = [] \<and> pi_todo st \<noteq> [])"

definition pipe_left :: "('a, 'u) pipe \<Rightarrow> nat list \<Rightarrow> 'a list \<Rightarrow> nat" where
  "pipe_left st qs q = length qs + 2 * length (pi_todo st) + length q"

lemma pipe_inv_new: "pipe_inv N xs (pipe_new N xs) [consumer, producer] (\<lambda>_. True) []"
  using two_tasks_on [of "()" "()"] chan_is_new [of N]
  by (simp add: pipe_inv_def pipe_new_def asleep_def) (simp add: producer_def consumer_def)

lemma turn_producer:
  assumes inv: "pipe_inv N xs st (producer # qs) live q" and f: "fits N (length xs)"
  shows "\<exists>st' qs' live' q'. pipe_turn N st = Some st' \<and> pipe_inv N xs st' qs' live' q' \<and>
    pipe_left st' qs' q' < pipe_left st (producer # qs) q"
proof -
  let ?r = "asleep consumer qs live" and ?vs = "pi_todo st" and ?sys = "run_turn (pi_sys st)"
  have on0: "tasks_on 2 (pi_sys st) (producer # qs) live None" using inv by (simp add: pipe_inv_def)
  then have p: "producer \<notin> set qs" "live producer" by (auto simp: tasks_on_def)
  have on: "tasks_on 2 ?sys qs live (Some producer)" by (rule tasks_turn [OF on0])
  have c: "chan_is N (length (pi_got st)) (pi_chan st) q ?r None" and xs: "pi_got st @ q @ ?vs = xs"
    using inv by (simp_all add: pipe_inv_def asleep_def)
  have "length (pi_got st) + length q + length ?vs = length xs" by (simp flip: xs)
  with f have "fits N (length (pi_got st) + length q + length ?vs)" by simp
  from produce_run [OF c on parked_asleep this] obtain k c' s'
    where run: "produce N ?vs (pi_chan st, ?sys) = Some (k = length ?vs, drop k ?vs, c', s')" and k: "k \<le> length ?vs"
      and full: "k < length ?vs \<longrightarrow> length q + k = unat N"
      and c': "chan_is N (length (pi_got st)) c' (q @ take k ?vs) (if k = 0 then ?r else None)
          (if k = length ?vs then None else Some producer)"
      and on': "tasks_on 2 s' (if k = 0 then qs else queue_after qs ?r) live (Some producer)"
    by blast
  let ?qs = "if k = 0 then qs else queue_after qs ?r" and ?live = "live(producer := (k < length ?vs))"
  let ?st = "st\<lparr>pi_sys := poll_ends (k = length ?vs) s', pi_chan := c', pi_todo := drop k ?vs\<rparr>"
  have "sy_cur ?sys = Some producer" using on by (simp add: tasks_on_def)
  then have turn: "pipe_turn N st = Some ?st" using run by (simp add: pipe_turn_def Let_def)
  have notin: "producer \<notin> set ?qs" using p by simp
  have ends: "tasks_on 2 (poll_ends (k = length ?vs) s') ?qs ?live None"
  proof (cases "k = length ?vs")
    case True
    with tasks_ready [OF on' notin] show ?thesis by simp
  next
    case False
    then have "?live = live" using p(2) k by (simp add: fun_upd_idem)
    with False tasks_pending [OF on'] show ?thesis by simp
  qed
  have ch: "chan_is N (length (pi_got st)) c' (q @ take k ?vs) (asleep consumer ?qs ?live) (asleep producer ?qs ?live)"
  proof -
    have "asleep consumer ?qs ?live = (if k = 0 then ?r else None)"
      by (subst asleep_woken [of _ _ live _ qs "0 < k"]) simp_all
    moreover have "asleep producer ?qs ?live = (if k = length ?vs then None else Some producer)"
      using notin k by (simp add: asleep_def [of producer])
    ultimately show ?thesis by (simp only: c')
  qed
  have "pipe_inv N xs ?st ?qs ?live (q @ take k ?vs)"
    unfolding pipe_inv_def using ends ch xs inv k full notin by (auto simp: pipe_inv_def)
  moreover have "pipe_left ?st ?qs (q @ take k ?vs) < pipe_left st (producer # qs) q"
    using length_queue_after [of qs ?r] k by (auto simp: pipe_left_def)
  ultimately show ?thesis using turn by blast
qed

lemma turn_consumer:
  assumes inv: "pipe_inv N xs st (consumer # qs) live q" and f: "fits N (length xs)"
  shows "\<exists>st' qs' live' q'. pipe_turn N st = Some st' \<and> pipe_inv N xs st' qs' live' q' \<and>
    pipe_left st' qs' q' < pipe_left st (consumer # qs) q"
proof -
  let ?t = "asleep producer qs live" and ?k = "pi_want st" and ?sys = "run_turn (pi_sys st)"
  have on0: "tasks_on 2 (pi_sys st) (consumer # qs) live None" using inv by (simp add: pipe_inv_def)
  then have p: "consumer \<notin> set qs" "live consumer" by (auto simp: tasks_on_def)
  have on: "tasks_on 2 ?sys qs live (Some consumer)" by (rule tasks_turn [OF on0])
  have c: "chan_is N (length (pi_got st)) (pi_chan st) q None ?t" and xs: "pi_got st @ q @ pi_todo st = xs"
    and k: "?k = length q + length (pi_todo st)"
    using inv by (simp_all add: pipe_inv_def asleep_def)
  have "length (pi_got st) + length q \<le> length xs" by (simp flip: xs)
  then have f: "fits N (length (pi_got st) + length q)" by (rule fits_mono [OF f])
  have "length q \<le> ?k" using k by simp
  from consume_run [OF c on parked_asleep f this, of "pi_got st"] obtain c' s'
    where run: "consume N ?k (pi_got st) (pi_chan st, ?sys) = Some (?k = length q, ?k - length q, pi_got st @ q, c', s')"
      and c': "chan_is N (length (pi_got st) + length q) c' [] (if ?k = length q then None else Some consumer)
          (if q = [] then ?t else None)"
      and on': "tasks_on 2 s' (if q = [] then qs else queue_after qs ?t) live (Some consumer)"
    by blast
  let ?qs = "if q = [] then qs else queue_after qs ?t" and ?live = "live(consumer := (?k \<noteq> length q))"
  let ?st = "st\<lparr>pi_sys := poll_ends (?k = length q) s', pi_chan := c', pi_want := ?k - length q, pi_got := pi_got st @ q\<rparr>"
  have "sy_cur ?sys = Some consumer" using on by (simp add: tasks_on_def)
  then have turn: "pipe_turn N st = Some ?st" using run by (simp add: pipe_turn_def Let_def)
  have notin: "consumer \<notin> set ?qs" using p by simp
  have ends: "tasks_on 2 (poll_ends (?k = length q) s') ?qs ?live None"
  proof (cases "?k = length q")
    case True
    with tasks_ready [OF on' notin] show ?thesis by simp
  next
    case False
    then have "?live = live" using p(2) by (simp add: fun_upd_idem)
    with False tasks_pending [OF on'] show ?thesis by simp
  qed
  have ch: "chan_is N (length (pi_got st) + length q) c' [] (asleep consumer ?qs ?live) (asleep producer ?qs ?live)"
  proof -
    have "asleep producer ?qs ?live = (if q = [] then ?t else None)"
      by (subst asleep_woken [of _ _ live _ qs "q \<noteq> []"]) simp_all
    moreover have "asleep consumer ?qs ?live = (if ?k = length q then None else Some consumer)"
      using notin by (simp add: asleep_def [of consumer])
    ultimately show ?thesis by (simp only: c')
  qed
  have "pipe_inv N xs ?st ?qs ?live []"
    unfolding pipe_inv_def using ends ch xs inv k notin by (auto simp: pipe_inv_def)
  moreover have "pipe_left ?st ?qs [] < pipe_left st (consumer # qs) q"
    using length_queue_after [of qs ?t] by (cases q) (auto simp: pipe_left_def)
  ultimately show ?thesis using turn by blast
qed

lemma turn_idle:
  assumes "pipe_inv N xs st [] live q"
  shows "pipe_turn N st = Some st"
proof -
  have on: "tasks_on 2 (pi_sys st) [] live None" using assms by (simp add: pipe_inv_def)
  then have "sy_cur (pi_sys st) = None" by (simp add: tasks_on_def)
  then show ?thesis by (simp add: pipe_turn_def tasks_idle [OF on])
qed

text \<open>No deadlock: when the queue is empty, both tasks have finished.\<close>

lemma pipe_quiet:
  assumes inv: "pipe_inv N xs st [] live q" and "0 < N"
  shows "pi_got st = xs" "pi_todo st = []" "\<not> live producer" "\<not> live consumer" "q = []"
proof -
  have "unat N \<noteq> 0" using assms(2) by (simp add: unat_gt_0 word_neq_0_conv [symmetric])
  then have "\<not> live producer" "\<not> live consumer" using inv by (auto simp: pipe_inv_def)
  then show "pi_got st = xs" "pi_todo st = []" "\<not> live producer" "\<not> live consumer" "q = []"
    using inv by (auto simp: pipe_inv_def)
qed

lemma pipe_inv_queue: "pipe_inv N xs st (i # qs) live q \<Longrightarrow> i = producer \<or> i = consumer"
  by (auto simp: pipe_inv_def tasks_on_def producer_def consumer_def)

lemma pipe_run_inv:
  assumes "pipe_inv N xs st qs live q" and "fits N (length xs)"
  shows "\<exists>st' qs' live' q'. pipe_run N k st = Some st' \<and> pipe_inv N xs st' qs' live' q' \<and>
    (pipe_left st qs q \<le> k \<longrightarrow> qs' = [])"
  using assms(1)
proof (induction k arbitrary: st qs live q)
  case 0
  then show ?case by (auto simp: pipe_left_def)
next
  case (Suc k)
  show ?case
  proof (cases qs)
    case Nil
    with Suc.prems have inv: "pipe_inv N xs st [] live q" by simp
    have idle: "pipe_run N j st = Some st" for j by (induction j) (simp_all add: turn_idle [OF inv])
    show ?thesis using inv idle [of "Suc k"] by blast
  next
    case (Cons i qs1)
    with Suc.prems have inv: "pipe_inv N xs st (i # qs1) live q" by simp
    from pipe_inv_queue [OF this] inv obtain st1 qs2 live2 q2
      where turn: "pipe_turn N st = Some st1" and inv1: "pipe_inv N xs st1 qs2 live2 q2"
        and less: "pipe_left st1 qs2 q2 < pipe_left st (i # qs1) q"
      using turn_producer [OF _ assms(2)] turn_consumer [OF _ assms(2)] by metis
    from Suc.IH [OF inv1] obtain st' qs' live' q'
      where "pipe_run N k st1 = Some st'" "pipe_inv N xs st' qs' live' q'" "pipe_left st1 qs2 q2 \<le> k \<longrightarrow> qs' = []"
      by blast
    with turn less Cons show ?thesis by (intro exI [of _ st'] exI [of _ qs'] exI [of _ live'] exI [of _ q']) simp
  qed
qed

section \<open>The property\<close>

text \<open>
  C4: two tasks of one work queue that talk over a channel, one sending a list of values with
  \<open>send(v).await\<close> and one making as many \<open>recv().await\<close>, both polled by the dispatcher from the entries that spawning and
  waking put into the queue. After any number of turns the values received so far are the first ones sent, in order. After
  \<open>2 * n + 2\<close> turns all \<open>n\<close> values have arrived, both tasks have finished with their cells free for the next spawn, no
  step was undefined, and the queue is empty. So no wake is lost between the channel and the queue, and the two never wait for each other.
  The capacity must be positive, and a power of two when more than \<open>2 ^ w\<close> values are sent.
\<close>

theorem tasks_exchange_all_values:
  fixes N :: "'w::len word"
  assumes "0 < N" and "unat N dvd 2 ^ LENGTH('w) \<or> length xs \<le> 2 ^ LENGTH('w)"
  shows "(\<exists>st. pipe_run N k (pipe_new N xs) = Some st \<and> pi_got st = take (length (pi_got st)) xs) \<and>
    (\<exists>st. pipe_run N (2 * length xs + 2) (pipe_new N xs) = Some st \<and>
    pi_got st = xs \<and> pi_todo st = [] \<and> pi_want st = 0 \<and> mk_sent (sy_mock (pi_sys st)) = [] \<and>
    tc_state (sy_cells (pi_sys st) producer) = 0 \<and> tc_state (sy_cells (pi_sys st) consumer) = 0 \<and>
    \<not> tc_undef (sy_cells (pi_sys st) producer) \<and> \<not> tc_undef (sy_cells (pi_sys st) consumer) \<and> pipe_turn N st = Some st)"
proof -
  have f: "fits N (length xs)" using assms(2) by (simp add: fits_def)
  from pipe_run_inv [OF pipe_inv_new f, of k] obtain st1 qs1 live1 q1
    where "pipe_run N k (pipe_new N xs) = Some st1" and "pipe_inv N xs st1 qs1 live1 q1" by blast
  then have order: "\<exists>st. pipe_run N k (pipe_new N xs) = Some st \<and> pi_got st = take (length (pi_got st)) xs"
    by (intro exI [of _ st1]) (auto simp: pipe_inv_def)
  from pipe_run_inv [OF pipe_inv_new f, of "2 * length xs + 2"] obtain st live q
    where run: "pipe_run N (2 * length xs + 2) (pipe_new N xs) = Some st" and inv: "pipe_inv N xs st [] live q"
    by (auto simp: pipe_left_def pipe_new_def)
  note e = pipe_quiet [OF inv assms(1)]
  have on: "tasks_on 2 (pi_sys st) [] live None" and "pi_want st = 0" using inv e by (simp_all add: pipe_inv_def)
  have "cell_is (sy_cells (pi_sys st) i) False False False" if "i = producer \<or> i = consumer" for i
    using tasks_onD(7) [OF on, of i] that e by auto
  then have "tc_state (sy_cells (pi_sys st) producer) = 0" "tc_state (sy_cells (pi_sys st) consumer) = 0"
    "\<not> tc_undef (sy_cells (pi_sys st) producer)" "\<not> tc_undef (sy_cells (pi_sys st) consumer)"
    by (auto simp: cell_is_def)
  moreover have "mk_sent (sy_mock (pi_sys st)) = []" using on by (simp add: tasks_on_def)
  ultimately show ?thesis using order run e \<open>pi_want st = 0\<close> turn_idle [OF inv] by blast
qed

theorem tasks_exchange_all_values_witness:
  "(\<exists>st. pipe_run 2 3 (pipe_new (2::4 word) [7, 8, 9, 5, 6 :: nat]) = Some st \<and> pi_got st = take (length (pi_got st)) [7, 8, 9, 5, 6]) \<and>
    (\<exists>st. pipe_run (2::4 word) 12 (pipe_new 2 [7, 8, 9, 5, 6 :: nat]) = Some st \<and>
    pi_got st = [7, 8, 9, 5, 6] \<and> pi_todo st = [] \<and> pi_want st = 0 \<and> mk_sent (sy_mock (pi_sys st)) = [] \<and>
    tc_state (sy_cells (pi_sys st) producer) = 0 \<and> tc_state (sy_cells (pi_sys st) consumer) = 0 \<and>
    \<not> tc_undef (sy_cells (pi_sys st) producer) \<and> \<not> tc_undef (sy_cells (pi_sys st) consumer) \<and> pipe_turn 2 st = Some st)"
  using tasks_exchange_all_values [of "2::4 word" "[7, 8, 9, 5, 6 :: nat]" 3] by simp

end
