(* ===== verification/Sleep_Timer.thy ===== *)
theory Sleep_Timer
  imports Notify
begin

text \<open>
  \<open>crates/px4-workqueue/src/timer.rs\<close> and the host mock of \<open>src/hrt.rs\<close>: the future \<open>Sleep\<close>, the timer
  queue and its worker thread, interleaved at their accesses to shared memory. The queue is the
  contents of the binary heap: \<open>pop\<close> takes some entry that no other one precedes in the order of
  \<open>Pending\<close>, so entries with one deadline come out in any order. \<open>AtomicWaker::register\<close> and \<open>wake\<close>
  are one step each here; \<open>Atomic_Waker\<close> and \<open>Wake_Protocol\<close> take them apart. The callout of a \<open>Sleep\<close>
  that has been dropped is the fault \<open>UseAfterDrop\<close>, and addresses are not used twice.
\<close>

section \<open>Instants and the order of the queue\<close>

datatype instant = Micros nat

fun micros :: "instant \<Rightarrow> nat" where
  "micros (Micros n) = n"

instantiation instant :: linorder
begin

definition less_eq_instant :: "instant \<Rightarrow> instant \<Rightarrow> bool" where
  "less_eq_instant s t \<longleftrightarrow> micros s \<le> micros t"

definition less_instant :: "instant \<Rightarrow> instant \<Rightarrow> bool" where
  "less_instant s t \<longleftrightarrow> micros s < micros t"

instance
proof
  fix s t :: instant
  show "s \<le> t \<Longrightarrow> t \<le> s \<Longrightarrow> s = t" by (cases s; cases t) (simp add: less_eq_instant_def)
qed (auto simp: less_eq_instant_def less_instant_def)

end

definition instant_add :: "instant \<Rightarrow> 64 word \<Rightarrow> instant" where
  "instant_add t d = Micros (micros t + unat d)"

record pending =
  pn_deadline :: instant
  pn_entry :: nat
  pn_ctx :: nat

datatype ordering = Less | Equal | Greater

definition instant_cmp :: "instant \<Rightarrow> instant \<Rightarrow> ordering" where
  "instant_cmp s t = (if s < t then Less else if s = t then Equal else Greater)"

definition pending_eq :: "pending \<Rightarrow> pending \<Rightarrow> bool" where
  "pending_eq p q \<longleftrightarrow> pn_deadline p = pn_deadline q"

definition pending_cmp :: "pending \<Rightarrow> pending \<Rightarrow> ordering" where
  "pending_cmp p q = instant_cmp (pn_deadline q) (pn_deadline p)"

text \<open>The entries the max-heap may give out: no other one is \<open>Greater\<close>.\<close>

definition heap_top :: "pending \<Rightarrow> pending list \<Rightarrow> bool" where
  "heap_top p q \<longleftrightarrow> p \<in> set q \<and> list_all (\<lambda>r. pending_cmp r p \<noteq> Greater) q"

lemma heap_top_iff: "heap_top p q \<longleftrightarrow> p \<in> set q \<and> (\<forall>r \<in> set q. pn_deadline p \<le> pn_deadline r)"
  by (auto simp: heap_top_def list_all_iff pending_cmp_def instant_cmp_def)

section \<open>State\<close>

definition STATE_IDLE :: "8 word" where "STATE_IDLE = 0"
definition STATE_ARMED :: "8 word" where "STATE_ARMED = 1"
definition STATE_FIRED :: "8 word" where "STATE_FIRED = 2"

lemmas sleep_states = STATE_IDLE_def STATE_ARMED_def STATE_FIRED_def

lemma sleep_states_distinct [simp]:
  "STATE_IDLE \<noteq> STATE_ARMED" "STATE_ARMED \<noteq> STATE_IDLE" "STATE_IDLE \<noteq> STATE_FIRED"
  "STATE_FIRED \<noteq> STATE_IDLE" "STATE_ARMED \<noteq> STATE_FIRED" "STATE_FIRED \<noteq> STATE_ARMED"
  by (simp_all add: sleep_states)

text \<open>Where the task is in \<open>poll\<close> or \<open>drop\<close>.\<close>

datatype sleep_pc =
    SlRest
  | SlRegister waker
  | SlRecheck
  | SlFirst waker
  | SlCallAfter
  | SlStoreArmed
  | SlCancelFlag
  | SlCancelEvict
  | SlFree

text \<open>
  The last four fields record what happened: the result of the last poll, the wakes there had been when
  it began, the instant of \<open>call_after\<close>, and whether the store of \<open>STATE_ARMED\<close> hit \<open>STATE_FIRED\<close>.
\<close>

record sleep =
  sl_delay_us :: "64 word"
  sl_state :: "8 word"
  sl_waker :: aw
  sl_cancelled :: "bool option"
  sl_pc :: sleep_pc
  sl_last :: "unit poll option"
  sl_mark :: nat
  sl_called :: "instant option"
  sl_overwritten :: bool

datatype worker_pc = WWait | WPopped pending | WCallout nat | WWake nat

datatype hrt_fault = UseAfterDrop

record hrt_sys =
  hs_now :: instant
  hs_queue :: "pending list"
  hs_worker :: worker_pc
  hs_sleeps :: "nat \<rightharpoonup> sleep"
  hs_used :: "nat list"
  hs_fault :: "hrt_fault option"

definition hrt_new :: hrt_sys where
  "hrt_new = \<lparr>hs_now = Micros 0, hs_queue = [], hs_worker = WWait, hs_sleeps = Map.empty, hs_used = [], hs_fault = None\<rparr>"

text \<open>\<open>Sleep::new\<close>: the microseconds of the duration, a \<open>u128\<close>, saturate at \<open>u64::MAX\<close>.\<close>

definition delay_us :: "nat \<Rightarrow> 64 word" where
  "delay_us us = of_nat (min us (2 ^ 64 - 1))"

definition sleep_new :: "nat \<Rightarrow> sleep" where
  "sleep_new us = \<lparr>sl_delay_us = delay_us us, sl_state = STATE_IDLE, sl_waker = aw_new, sl_cancelled = None,
     sl_pc = SlRest, sl_last = None, sl_mark = 0, sl_called = None, sl_overwritten = False\<rparr>"

section \<open>Steps\<close>

definition set_sleep :: "nat \<Rightarrow> sleep \<Rightarrow> hrt_sys \<Rightarrow> hrt_sys" where
  "set_sleep a l s = s\<lparr>hs_sleeps := (hs_sleeps s)(a \<mapsto> l)\<rparr>"

text \<open>Registration and wake, uninterrupted, by the task (thread 0) and the worker (thread 1).\<close>

definition sl_register :: "waker \<Rightarrow> sleep \<Rightarrow> sleep" where
  "sl_register w l = l\<lparr>sl_waker := aw_run 0 (aw_register 0 w (sl_waker l))\<rparr>"

definition sl_wake :: "sleep \<Rightarrow> sleep" where
  "sl_wake l = l\<lparr>sl_waker := aw_run 1 (aw_wake 1 (sl_waker l))\<rparr>"

definition poll_begin :: "waker \<Rightarrow> sleep \<Rightarrow> sleep" where
  "poll_begin w l =
     (let l = l\<lparr>sl_mark := length (aw_woken (sl_waker l))\<rparr>
      in if sl_state l = STATE_FIRED then l\<lparr>sl_last := Some (Ready ())\<rparr>
         else if sl_state l = STATE_ARMED then l\<lparr>sl_pc := SlRegister w, sl_last := None\<rparr>
         else l\<lparr>sl_pc := SlFirst w, sl_last := None\<rparr>)"

definition call_after :: "nat \<Rightarrow> sleep \<Rightarrow> hrt_sys \<Rightarrow> hrt_sys" where
  "call_after a l s =
     (let deadline = instant_add (hs_now s) (sl_delay_us l)
      in s\<lparr>hs_sleeps := (hs_sleeps s)(a \<mapsto> l\<lparr>sl_cancelled := Some False, sl_called := Some (hs_now s), sl_pc := SlStoreArmed\<rparr>),
           hs_queue := \<lparr>pn_deadline = deadline, pn_entry = a, pn_ctx = a\<rparr> # hs_queue s\<rparr>)"

definition cancel_evict :: "nat \<Rightarrow> pending list \<Rightarrow> pending list" where
  "cancel_evict entry q = filter (\<lambda>p. pn_entry p \<noteq> entry) q"

definition sleep_step :: "nat \<Rightarrow> sleep \<Rightarrow> hrt_sys \<Rightarrow> hrt_sys" where
  "sleep_step a l s =
     (case sl_pc l of
        SlRest \<Rightarrow> s
      | SlRegister w \<Rightarrow> set_sleep a ((sl_register w l)\<lparr>sl_pc := SlRecheck\<rparr>) s
      | SlRecheck \<Rightarrow>
          set_sleep a (l\<lparr>sl_pc := SlRest, sl_last := Some (if sl_state l = STATE_FIRED then Ready () else Pending)\<rparr>) s
      | SlFirst w \<Rightarrow> set_sleep a ((sl_register w l)\<lparr>sl_pc := SlCallAfter\<rparr>) s
      | SlCallAfter \<Rightarrow> call_after a l s
      | SlStoreArmed \<Rightarrow>
          set_sleep a (l\<lparr>sl_state := STATE_ARMED, sl_pc := SlRest, sl_last := Some Pending,
            sl_overwritten := (sl_state l = STATE_FIRED)\<rparr>) s
      | SlCancelFlag \<Rightarrow> set_sleep a (l\<lparr>sl_cancelled := Some True, sl_pc := SlCancelEvict\<rparr>) s
      | SlCancelEvict \<Rightarrow> set_sleep a (l\<lparr>sl_pc := SlFree\<rparr>) (s\<lparr>hs_queue := cancel_evict a (hs_queue s)\<rparr>)
      | SlFree \<Rightarrow> s\<lparr>hs_sleeps := (hs_sleeps s)(a := None)\<rparr>)"

definition drop_begin :: "sleep \<Rightarrow> sleep" where
  "drop_begin l = (if sl_state l \<noteq> STATE_IDLE then l\<lparr>sl_pc := SlCancelFlag\<rparr> else l\<lparr>sl_pc := SlFree\<rparr>)"

text \<open>The worker between two locks: read the flag, call \<open>sleep_callout\<close>, which stores and wakes.\<close>

definition worker_step :: "hrt_sys \<Rightarrow> hrt_sys" where
  "worker_step s =
     (case hs_worker s of
        WWait \<Rightarrow> s
      | WPopped p \<Rightarrow>
          (case hs_sleeps s (pn_entry p) of
             None \<Rightarrow> s\<lparr>hs_fault := Some UseAfterDrop\<rparr>
           | Some l \<Rightarrow> s\<lparr>hs_worker := (if sl_cancelled l = Some True then WWait else WCallout (pn_ctx p))\<rparr>)
      | WCallout a \<Rightarrow>
          (case hs_sleeps s a of
             None \<Rightarrow> s\<lparr>hs_fault := Some UseAfterDrop\<rparr>
           | Some l \<Rightarrow> (set_sleep a (l\<lparr>sl_state := STATE_FIRED\<rparr>) s)\<lparr>hs_worker := WWake a\<rparr>)
      | WWake a \<Rightarrow>
          (case hs_sleeps s a of
             None \<Rightarrow> s\<lparr>hs_fault := Some UseAfterDrop\<rparr>
           | Some l \<Rightarrow> (set_sleep a (sl_wake l) s)\<lparr>hs_worker := WWait\<rparr>))"

definition worker_pop :: "nat \<Rightarrow> hrt_sys \<Rightarrow> hrt_sys" where
  "worker_pop k s =
     (if hs_worker s = WWait \<and> k < length (hs_queue s) \<and> heap_top (hs_queue s ! k) (hs_queue s) \<and>
         pn_deadline (hs_queue s ! k) \<le> hs_now s
      then s\<lparr>hs_queue := remove1 (hs_queue s ! k) (hs_queue s), hs_worker := WPopped (hs_queue s ! k)\<rparr>
      else s)"

datatype hrt_act = Tick nat | NewSleep nat nat | PollSleep nat waker | SleepStep nat | DropSleep nat | WorkerPop nat | WorkerStep

fun hrt_do :: "hrt_act \<Rightarrow> hrt_sys \<Rightarrow> hrt_sys" where
  "hrt_do (Tick n) s = s\<lparr>hs_now := Micros (micros (hs_now s) + n)\<rparr>"
| "hrt_do (NewSleep a us) s =
     (if a \<in> set (hs_used s) then s
      else (set_sleep a (sleep_new us) s)\<lparr>hs_used := a # hs_used s\<rparr>)"
| "hrt_do (PollSleep a w) s =
     (case hs_sleeps s a of
        Some l \<Rightarrow> if sl_pc l = SlRest then set_sleep a (poll_begin w l) s else s
      | None \<Rightarrow> s)"
| "hrt_do (SleepStep a) s = (case hs_sleeps s a of Some l \<Rightarrow> sleep_step a l s | None \<Rightarrow> s)"
| "hrt_do (DropSleep a) s =
     (case hs_sleeps s a of
        Some l \<Rightarrow> if sl_pc l = SlRest then set_sleep a (drop_begin l) s else s
      | None \<Rightarrow> s)"
| "hrt_do (WorkerPop k) s = worker_pop k s"
| "hrt_do WorkerStep s = worker_step s"

definition hrt_step :: "hrt_act \<Rightarrow> hrt_sys \<Rightarrow> hrt_sys" where
  "hrt_step a s = (if hs_fault s = None then hrt_do a s else s)"

definition hrt_run :: "hrt_act list \<Rightarrow> hrt_sys \<Rightarrow> hrt_sys" where
  "hrt_run acts s = fold hrt_step acts s"

section \<open>Invariant\<close>

definition sl_idle :: "aw \<Rightarrow> bool" where
  "sl_idle a \<longleftrightarrow> aw_state a = WAITING \<and> (\<forall>t. aw_pcs a t = Idle)"

lemma sl_register_eq: "sl_idle (sl_waker l) \<Longrightarrow> sl_register w l = l\<lparr>sl_waker := (sl_waker l)\<lparr>aw_slot := Some w\<rparr>\<rparr>"
  by (simp add: sl_register_def sl_idle_def aw_run_register)

lemma sl_wake_eq: "sl_idle (sl_waker l) \<Longrightarrow> sl_wake l = l\<lparr>sl_waker := (sl_waker l)\<lparr>aw_slot := None,
    aw_woken := aw_woken (sl_waker l) @ (case aw_slot (sl_waker l) of None \<Rightarrow> [] | Some w \<Rightarrow> [w])\<rparr>\<rparr>"
  by (simp add: sl_wake_def sl_idle_def aw_run_wake)

lemma sl_idle_update [simp]:
  "sl_idle (a\<lparr>aw_slot := w\<rparr>) \<longleftrightarrow> sl_idle a" "sl_idle (a\<lparr>aw_slot := w, aw_woken := ws\<rparr>) \<longleftrightarrow> sl_idle a"
  "sl_idle aw_new"
  by (simp_all add: sl_idle_def aw_new_def)

text \<open>What the worker holds of the sleep at \<open>a\<close>: nothing, an entry or callout under way, or the wake.\<close>

datatype wview = VNone | VFlight | VWake

fun view :: "nat \<Rightarrow> worker_pc \<Rightarrow> wview" where
  "view a WWait = VNone"
| "view a (WPopped p) = (if pn_ctx p = a then VFlight else VNone)"
| "view a (WCallout b) = (if b = a then VFlight else VNone)"
| "view a (WWake b) = (if b = a then VWake else VNone)"

definition entries :: "nat \<Rightarrow> pending list \<Rightarrow> pending list" where
  "entries a q = filter (\<lambda>p. pn_ctx p = a) q"

definition due :: "instant \<Rightarrow> sleep \<Rightarrow> bool" where
  "due now l \<longleftrightarrow> (\<exists>t. sl_called l = Some t \<and> instant_add t (sl_delay_us l) \<le> now)"

fun dropping :: "sleep_pc \<Rightarrow> bool" where
  "dropping SlCancelFlag = True"
| "dropping SlCancelEvict = True"
| "dropping SlFree = True"
| "dropping pc = False"

text \<open>Times: an entry has the deadline of its sleep, and nothing fires before it.\<close>

definition time_ok :: "instant \<Rightarrow> pending list \<Rightarrow> wview \<Rightarrow> sleep \<Rightarrow> bool" where
  "time_ok now es v l \<longleftrightarrow>
     (\<forall>p \<in> set es. \<exists>t. sl_called l = Some t \<and> pn_deadline p = instant_add t (sl_delay_us l)) \<and>
     (v \<noteq> VNone \<longrightarrow> due now l) \<and> (sl_state l = STATE_FIRED \<longrightarrow> due now l) \<and>
     (sl_last l = Some (Ready ()) \<longrightarrow> sl_state l = STATE_FIRED)"

text \<open>What a place in the code says of the state, of whether the timer is set, and of an overwrite.\<close>

fun pc_ok :: "bool \<Rightarrow> 8 word \<Rightarrow> bool \<Rightarrow> sleep_pc \<Rightarrow> bool" where
  "pc_ok unset st ow SlRest \<longleftrightarrow> (st = STATE_IDLE \<longrightarrow> unset)"
| "pc_ok unset st ow (SlRegister w) \<longleftrightarrow> \<not> unset \<and> st \<noteq> STATE_IDLE"
| "pc_ok unset st ow SlRecheck \<longleftrightarrow> \<not> unset \<and> st \<noteq> STATE_IDLE"
| "pc_ok unset st ow (SlFirst w) \<longleftrightarrow> unset"
| "pc_ok unset st ow SlCallAfter \<longleftrightarrow> unset"
| "pc_ok unset st ow SlStoreArmed \<longleftrightarrow> \<not> unset \<and> \<not> ow"
| "pc_ok unset st ow pc \<longleftrightarrow> True"

text \<open>One entry per sleep, in the queue or with the worker; none after it fired.\<close>

definition entry_ok :: "pending list \<Rightarrow> wview \<Rightarrow> sleep \<Rightarrow> bool" where
  "entry_ok es v l \<longleftrightarrow>
     length es + (if v = VNone then 0 else 1) \<le> (if sl_called l = None then 0 else 1) \<and>
     (sl_state l = STATE_IDLE \<or> sl_state l = STATE_ARMED \<or> sl_state l = STATE_FIRED) \<and>
     (sl_state l = STATE_FIRED \<longrightarrow> es = [] \<and> v \<noteq> VFlight) \<and>
     (sl_called l = None \<longrightarrow> sl_state l = STATE_IDLE) \<and>
     pc_ok (sl_called l = None) (sl_state l) (sl_overwritten l) (sl_pc l) \<and> (sl_pc l = SlFree \<longrightarrow> es = [])"

text \<open>Whoever waits has a waker in the slot, and something is under way that will fire.\<close>

definition cover_ok :: "pending list \<Rightarrow> wview \<Rightarrow> sleep \<Rightarrow> bool" where
  "cover_ok es v l \<longleftrightarrow>
     sl_idle (sl_waker l) \<and> sl_mark l \<le> length (aw_woken (sl_waker l)) \<and>
     (\<not> sl_overwritten l \<and> \<not> dropping (sl_pc l) \<and> sl_called l \<noteq> None \<longrightarrow>
        (sl_state l \<noteq> STATE_FIRED \<longrightarrow> (es \<noteq> [] \<or> v = VFlight) \<and> sl_cancelled l = Some False) \<and>
        (sl_pc l = SlRest \<and> sl_last l = Some Pending \<and> sl_state l \<noteq> STATE_FIRED \<longrightarrow> aw_slot (sl_waker l) \<noteq> None) \<and>
        (sl_pc l = SlRecheck \<and> sl_state l \<noteq> STATE_FIRED \<longrightarrow> aw_slot (sl_waker l) \<noteq> None) \<and>
        (sl_pc l = SlStoreArmed \<and> sl_state l \<noteq> STATE_FIRED \<longrightarrow> aw_slot (sl_waker l) \<noteq> None) \<and>
        (sl_pc l = SlRest \<and> sl_last l = Some Pending \<and> sl_state l = STATE_FIRED \<longrightarrow>
           v = VWake \<and> aw_slot (sl_waker l) \<noteq> None \<or> sl_mark l < length (aw_woken (sl_waker l)))) \<and>
     (sl_pc l = SlCallAfter \<longrightarrow> aw_slot (sl_waker l) \<noteq> None) \<and>
     (sl_called l = None \<longrightarrow> \<not> sl_overwritten l)"

definition sleep_ok :: "instant \<Rightarrow> pending list \<Rightarrow> wview \<Rightarrow> sleep \<Rightarrow> bool" where
  "sleep_ok now es v l \<longleftrightarrow> time_ok now es v l \<and> entry_ok es v l \<and> cover_ok es v l"

definition hrt_inv :: "hrt_sys \<Rightarrow> bool" where
  "hrt_inv s \<longleftrightarrow>
     (\<forall>p \<in> set (hs_queue s). pn_entry p = pn_ctx p \<and> pn_ctx p \<in> dom (hs_sleeps s)) \<and>
     (\<forall>p. hs_worker s = WPopped p \<longrightarrow> pn_entry p = pn_ctx p) \<and>
     (\<forall>a. view a (hs_worker s) \<noteq> VNone \<longrightarrow> a \<in> set (hs_used s)) \<and>
     dom (hs_sleeps s) \<subseteq> set (hs_used s) \<and>
     (\<forall>a l. hs_sleeps s a = Some l \<longrightarrow> sleep_ok (hs_now s) (entries a (hs_queue s)) (view a (hs_worker s)) l)"

lemmas sleep_ok_defs = sleep_ok_def time_ok_def entry_ok_def cover_ok_def

section \<open>The task's own steps\<close>

lemma sleep_cases:
  assumes "sleep_ok now es v l"
  obtains (idle) "sl_state l = STATE_IDLE" | (armed) "sl_state l = STATE_ARMED" | (fired) "sl_state l = STATE_FIRED"
  using assms by (auto simp: sleep_ok_def entry_ok_def)

lemma poll_begin_ok:
  assumes "sleep_ok now es v l" and "sl_pc l = SlRest"
  shows "sleep_ok now es v (poll_begin w l)"
  by (rule sleep_cases [OF assms(1)]; cases "sl_called l"; cases "sl_overwritten l";
      use assms in \<open>simp add: sleep_ok_defs poll_begin_def Let_def due_def\<close>)

lemma drop_begin_ok:
  assumes "sleep_ok now es v l" and "sl_pc l = SlRest"
  shows "sleep_ok now es v (drop_begin l)"
  by (rule sleep_cases [OF assms(1)]; cases "sl_called l"; use assms in \<open>simp add: sleep_ok_defs drop_begin_def due_def\<close>)

lemma register_ok:
  assumes "sleep_ok now es v l" and "sl_pc l = SlRegister w"
  shows "sleep_ok now es v ((sl_register w l)\<lparr>sl_pc := SlRecheck\<rparr>)"
  by (rule sleep_cases [OF assms(1)]; cases "sl_called l"; cases "sl_overwritten l";
      use assms in \<open>simp add: sleep_ok_defs sl_register_eq due_def\<close>)

lemma first_ok:
  assumes "sleep_ok now es v l" and "sl_pc l = SlFirst w"
  shows "sleep_ok now es v ((sl_register w l)\<lparr>sl_pc := SlCallAfter\<rparr>)"
  by (rule sleep_cases [OF assms(1)]; cases "sl_called l"; cases "sl_overwritten l";
      use assms in \<open>simp add: sleep_ok_defs sl_register_eq due_def\<close>)

lemma recheck_ok:
  assumes "sleep_ok now es v l" and "sl_pc l = SlRecheck"
  shows "sleep_ok now es v (l\<lparr>sl_pc := SlRest, sl_last := Some (if sl_state l = STATE_FIRED then Ready () else Pending)\<rparr>)"
  by (rule sleep_cases [OF assms(1)]; cases "sl_called l"; cases "sl_overwritten l";
      use assms in \<open>simp add: sleep_ok_defs due_def\<close>)

lemma call_after_ok:
  assumes "sleep_ok now es v l" and "sl_pc l = SlCallAfter"
  shows "sleep_ok now (\<lparr>pn_deadline = instant_add now (sl_delay_us l), pn_entry = a, pn_ctx = b\<rparr> # es) v
    (l\<lparr>sl_cancelled := Some False, sl_called := Some now, sl_pc := SlStoreArmed\<rparr>)"
  by (rule sleep_cases [OF assms(1)]; cases "sl_called l"; cases "v = VNone"; use assms in \<open>simp add: sleep_ok_defs due_def\<close>)

lemma store_armed_ok:
  assumes "sleep_ok now es v l" and "sl_pc l = SlStoreArmed"
  shows "sleep_ok now es v (l\<lparr>sl_state := STATE_ARMED, sl_pc := SlRest, sl_last := Some Pending,
     sl_overwritten := (sl_state l = STATE_FIRED)\<rparr>)"
  by (rule sleep_cases [OF assms(1)]; cases "sl_called l"; use assms in \<open>simp add: sleep_ok_defs due_def\<close>)

lemma cancel_flag_ok:
  assumes "sleep_ok now es v l" and "sl_pc l = SlCancelFlag"
  shows "sleep_ok now es v (l\<lparr>sl_cancelled := Some True, sl_pc := SlCancelEvict\<rparr>)"
  using assms by (simp add: sleep_ok_defs due_def)

lemma evict_ok:
  assumes "sleep_ok now es v l" and "sl_pc l = SlCancelEvict"
  shows "sleep_ok now [] v (l\<lparr>sl_pc := SlFree\<rparr>)"
  by (rule sleep_cases [OF assms(1)]; cases "sl_called l"; cases "v = VNone"; use assms in \<open>simp add: sleep_ok_defs due_def\<close>)

section \<open>The worker's steps\<close>

lemma pop_ok:
  assumes "sleep_ok now [p] VNone l" and "pn_deadline p \<le> now"
  shows "sleep_ok now [] VFlight l"
  by (rule sleep_cases [OF assms(1)]; cases "sl_called l"; cases "sl_overwritten l";
      use assms in \<open>simp add: sleep_ok_defs due_def\<close>)

lemma skip_ok:
  assumes "sleep_ok now es VFlight l" and "sl_cancelled l = Some True"
  shows "sleep_ok now es VNone l"
  by (rule sleep_cases [OF assms(1)]; cases "sl_called l"; cases "sl_overwritten l";
      use assms in \<open>simp add: sleep_ok_defs due_def\<close>)

lemma callout_ok:
  assumes "sleep_ok now es VFlight l"
  shows "sleep_ok now es VWake (l\<lparr>sl_state := STATE_FIRED\<rparr>)"
  by (rule sleep_cases [OF assms(1)]; cases "sl_called l"; cases "sl_pc l"; use assms in \<open>simp add: sleep_ok_defs due_def\<close>)

lemma wake_ok:
  assumes "sleep_ok now es VWake l"
  shows "sleep_ok now es VNone (sl_wake l)"
  by (rule sleep_cases [OF assms(1)]; cases "sl_called l"; cases "sl_overwritten l"; cases "aw_slot (sl_waker l)";
      cases "sl_pc l"; use assms in \<open>force simp: sleep_ok_defs sl_wake_eq due_def\<close>)

lemma due_mono: "due now l \<Longrightarrow> now \<le> now' \<Longrightarrow> due now' l"
  by (auto simp: due_def)

lemma tick_ok: "sleep_ok now es v l \<Longrightarrow> now \<le> now' \<Longrightarrow> sleep_ok now' es v l"
  using due_mono [of now l now'] by (simp add: sleep_ok_def time_ok_def)

lemma new_ok: "sleep_ok now [] VNone (sleep_new us)"
  by (simp add: sleep_ok_defs sleep_new_def)

section \<open>The whole system\<close>

lemma hrt_invD:
  assumes "hrt_inv s"
  shows "p \<in> set (hs_queue s) \<Longrightarrow> pn_entry p = pn_ctx p \<and> pn_ctx p \<in> dom (hs_sleeps s)"
    and "hs_worker s = WPopped p \<Longrightarrow> pn_entry p = pn_ctx p"
    and "view a (hs_worker s) \<noteq> VNone \<Longrightarrow> a \<in> set (hs_used s)"
    and "hs_sleeps s a = Some l \<Longrightarrow> a \<in> set (hs_used s)"
    and "hs_sleeps s a = Some l \<Longrightarrow> sleep_ok (hs_now s) (entries a (hs_queue s)) (view a (hs_worker s)) l"
  using assms unfolding hrt_inv_def by blast+

text \<open>A step of the sleep at \<open>a\<close> that leaves the queue and the worker.\<close>

lemma hrt_inv_set_sleep:
  assumes inv: "hrt_inv s" and l: "hs_sleeps s a = Some l"
    and ok: "sleep_ok (hs_now s) (entries a (hs_queue s)) (view a (hs_worker s)) l'"
  shows "hrt_inv (set_sleep a l' s)"
proof -
  have "hs_sleeps s b = Some m \<Longrightarrow> sleep_ok (hs_now s) (entries b (hs_queue s)) (view b (hs_worker s)) m" for b m
    by (rule hrt_invD(5) [OF inv])
  with inv ok hrt_invD(4) [OF inv l] show ?thesis by (auto simp: hrt_inv_def set_sleep_def)
qed

lemma entries_simps [simp]:
  "entries a [] = []"
  "entries a (p # q) = (if pn_ctx p = a then p # entries a q else entries a q)"
  by (simp_all add: entries_def)

lemma entries_evict:
  assumes "\<forall>p \<in> set q. pn_entry p = pn_ctx p"
  shows "entries b (cancel_evict a q) = (if b = a then [] else entries b q)"
  using assms by (induction q) (auto simp: cancel_evict_def)

lemma entries_remove1: "pn_ctx p \<noteq> a \<Longrightarrow> entries a (remove1 p q) = entries a q"
  by (induction q) auto

lemma entries_remove1_length: "p \<in> set q \<Longrightarrow> length (entries (pn_ctx p) q) = Suc (length (entries (pn_ctx p) (remove1 p q)))"
  by (induction q) auto

lemma sleep_step_inv:
  assumes inv: "hrt_inv s" and l: "hs_sleeps s a = Some l"
  shows "hrt_inv (sleep_step a l s)"
proof -
  note ok = hrt_invD(5) [OF inv l]
  note used = hrt_invD(4) [OF inv l]
  show ?thesis
  proof (cases "sl_pc l")
    case SlRest
    then show ?thesis using inv by (simp add: sleep_step_def)
  next
    case (SlRegister w)
    then show ?thesis using hrt_inv_set_sleep [OF inv l register_ok [OF ok]] by (simp add: sleep_step_def)
  next
    case SlRecheck
    then show ?thesis using hrt_inv_set_sleep [OF inv l recheck_ok [OF ok]] by (simp add: sleep_step_def)
  next
    case (SlFirst w)
    then show ?thesis using hrt_inv_set_sleep [OF inv l first_ok [OF ok]] by (simp add: sleep_step_def)
  next
    case SlCallAfter
    note ok' = call_after_ok [OF ok SlCallAfter, of a a]
    have "hs_sleeps s b = Some m \<Longrightarrow> sleep_ok (hs_now s) (entries b (hs_queue s)) (view b (hs_worker s)) m" for b m
      by (rule hrt_invD(5) [OF inv])
    with inv ok' used SlCallAfter show ?thesis
      by (auto simp: hrt_inv_def sleep_step_def call_after_def Let_def)
  next
    case SlStoreArmed
    then show ?thesis using hrt_inv_set_sleep [OF inv l store_armed_ok [OF ok]] by (simp add: sleep_step_def)
  next
    case SlCancelFlag
    then show ?thesis using hrt_inv_set_sleep [OF inv l cancel_flag_ok [OF ok]] by (simp add: sleep_step_def)
  next
    case SlCancelEvict
    have same: "\<forall>p \<in> set (hs_queue s). pn_entry p = pn_ctx p" using hrt_invD(1) [OF inv] by blast
    have "hs_sleeps s b = Some m \<Longrightarrow> sleep_ok (hs_now s) (entries b (hs_queue s)) (view b (hs_worker s)) m" for b m
      by (rule hrt_invD(5) [OF inv])
    with inv evict_ok [OF ok SlCancelEvict] used SlCancelEvict show ?thesis
      by (auto simp: hrt_inv_def sleep_step_def set_sleep_def entries_evict [OF same]) (auto simp: cancel_evict_def)
  next
    case SlFree
    then have "entries a (hs_queue s) = []" using ok by (simp add: sleep_ok_def entry_ok_def)
    then have "\<forall>p \<in> set (hs_queue s). pn_ctx p \<noteq> a" by (auto simp: entries_def filter_empty_conv)
    with inv SlFree show ?thesis by (auto simp: hrt_inv_def sleep_step_def)
  qed
qed

lemma worker_pop_inv:
  assumes inv: "hrt_inv s"
  shows "hrt_inv (worker_pop k s)"
proof (cases "hs_worker s = WWait \<and> k < length (hs_queue s) \<and> heap_top (hs_queue s ! k) (hs_queue s) \<and>
    pn_deadline (hs_queue s ! k) \<le> hs_now s")
  case True
  let ?p = "hs_queue s ! k"
  have p: "?p \<in> set (hs_queue s)" using True by simp
  have "sleep_ok (hs_now s) (entries a (remove1 ?p (hs_queue s))) (view a (WPopped ?p)) l"
    if l: "hs_sleeps s a = Some l" for a l
  proof (cases "pn_ctx ?p = a")
    case False
    then show ?thesis using hrt_invD(5) [OF inv l] True by (simp add: entries_remove1)
  next
    case True': True
    note ok = hrt_invD(5) [OF inv l]
    have len: "length (entries a (hs_queue s)) = Suc (length (entries a (remove1 ?p (hs_queue s))))"
      using entries_remove1_length [OF p] True' by simp
    moreover have "length (entries a (hs_queue s)) \<le> 1" using ok by (auto simp: sleep_ok_def entry_ok_def split: if_splits)
    moreover have "?p \<in> set (entries a (hs_queue s))" using p True' by (simp add: entries_def)
    ultimately have "entries a (hs_queue s) = [?p]" "entries a (remove1 ?p (hs_queue s)) = []"
      by (cases "entries a (hs_queue s)"; auto)+
    with ok True True' show ?thesis using pop_ok [of "hs_now s" ?p l] by simp
  qed
  moreover have "pn_ctx ?p \<in> set (hs_used s)" using hrt_invD(1) [OF inv p] hrt_invD(4) [OF inv] by blast
  ultimately show ?thesis using inv True p
    by (auto simp: hrt_inv_def worker_pop_def dest: notin_set_remove1 [rotated])
next
  case False
  then have "worker_pop k s = s" by (simp only: worker_pop_def if_False)
  with inv show ?thesis by simp
qed

lemma worker_step_inv:
  assumes inv: "hrt_inv s"
  shows "hrt_inv (worker_step s)"
proof -
  have others: "hs_sleeps s b = Some m \<Longrightarrow> sleep_ok (hs_now s) (entries b (hs_queue s)) (view b (hs_worker s)) m" for b m
    by (rule hrt_invD(5) [OF inv])
  show ?thesis
  proof (cases "hs_worker s")
    case (WPopped p)
    note eq = hrt_invD(2) [OF inv WPopped]
    show ?thesis
    proof (cases "hs_sleeps s (pn_ctx p)")
      case (Some l)
      have ok: "sleep_ok (hs_now s) (entries (pn_ctx p) (hs_queue s)) VFlight l" using others [OF Some] WPopped by simp
      show ?thesis
      proof (cases "sl_cancelled l = Some True")
        case True
        have "sleep_ok (hs_now s) (entries b (hs_queue s)) VNone m" if "hs_sleeps s b = Some m" for b m
          using others [OF that] skip_ok [OF ok True] Some that WPopped by (cases "b = pn_ctx p") auto
        with inv Some eq WPopped True show ?thesis by (auto simp: hrt_inv_def worker_step_def)
      next
        case False
        with inv Some eq WPopped others show ?thesis by (auto simp: hrt_inv_def worker_step_def)
      qed
    qed (use inv eq WPopped in \<open>simp add: hrt_inv_def worker_step_def\<close>)
  next
    case (WCallout a)
    show ?thesis
    proof (cases "hs_sleeps s a")
      case (Some l)
      have "sleep_ok (hs_now s) (entries a (hs_queue s)) VWake (l\<lparr>sl_state := STATE_FIRED\<rparr>)"
        using callout_ok others [OF Some] WCallout by simp
      moreover have "sleep_ok (hs_now s) (entries b (hs_queue s)) VNone m" if "b \<noteq> a" "hs_sleeps s b = Some m" for b m
        using others [OF that(2)] that(1) WCallout by simp
      ultimately show ?thesis using inv Some WCallout by (auto simp: hrt_inv_def worker_step_def set_sleep_def)
    qed (use inv WCallout in \<open>simp add: hrt_inv_def worker_step_def\<close>)
  next
    case (WWake a)
    show ?thesis
    proof (cases "hs_sleeps s a")
      case (Some l)
      have "sleep_ok (hs_now s) (entries a (hs_queue s)) VNone (sl_wake l)"
        using wake_ok others [OF Some] WWake by simp
      moreover have "sleep_ok (hs_now s) (entries b (hs_queue s)) VNone m" if "b \<noteq> a" "hs_sleeps s b = Some m" for b m
        using others [OF that(2)] that(1) WWake by simp
      ultimately show ?thesis using inv Some WWake by (auto simp: hrt_inv_def worker_step_def set_sleep_def)
    qed (use inv WWake in \<open>simp add: hrt_inv_def worker_step_def\<close>)
  qed (use inv in \<open>simp add: worker_step_def\<close>)
qed

lemma hrt_inv_do:
  assumes inv: "hrt_inv s"
  shows "hrt_inv (hrt_do act s)"
proof (cases act)
  case (Tick n)
  have "hs_now s \<le> Micros (micros (hs_now s) + n)" by (simp add: less_eq_instant_def)
  with inv Tick tick_ok show ?thesis unfolding hrt_inv_def by simp blast
next
  case (NewSleep a us)
  show ?thesis
  proof (cases "a \<in> set (hs_used s)")
    case False
    then have "view a (hs_worker s) = VNone" "\<forall>p \<in> set (hs_queue s). pn_ctx p \<noteq> a"
      using hrt_invD(1,3,4) [OF inv] by (auto simp: dom_def)
    moreover from this have "entries a (hs_queue s) = []" by (simp add: entries_def filter_empty_conv)
    ultimately show ?thesis using inv NewSleep False new_ok by (auto simp: hrt_inv_def set_sleep_def)
  qed (use inv NewSleep in simp)
next
  case (PollSleep a w)
  then show ?thesis using inv hrt_inv_set_sleep [OF inv] poll_begin_ok hrt_invD(5) [OF inv]
    by (simp split: option.split)
next
  case (SleepStep a)
  then show ?thesis using inv sleep_step_inv [OF inv] by (simp split: option.split)
next
  case (DropSleep a)
  then show ?thesis using inv hrt_inv_set_sleep [OF inv] drop_begin_ok hrt_invD(5) [OF inv]
    by (simp split: option.split)
qed (use inv worker_pop_inv worker_step_inv in simp_all)

lemma hrt_inv_run: "hrt_inv s \<Longrightarrow> hrt_inv (hrt_run acts s)"
  unfolding hrt_run_def by (induction acts arbitrary: s) (simp_all add: hrt_step_def hrt_inv_do)

lemma hrt_inv_new: "hrt_inv hrt_new"
  by (simp add: hrt_inv_def hrt_new_def)

lemma hrt_run_append: "hrt_run (xs @ ys) s = hrt_run ys (hrt_run xs s)"
  by (simp add: hrt_run_def)

section \<open>A round of the worker\<close>

definition worker_round :: "nat \<Rightarrow> hrt_act list" where
  "worker_round k = [WorkerPop k, WorkerStep, WorkerStep, WorkerStep]"

definition worker_rests :: "hrt_sys \<Rightarrow> bool" where
  "worker_rests s \<longleftrightarrow> hrt_inv s \<and> hs_fault s = None \<and> hs_worker s = WWait"

lemma heap_top_exists: "q \<noteq> [] \<Longrightarrow> \<exists>k < length q. heap_top (q ! k) q"
proof -
  assume "q \<noteq> []"
  then obtain p where "is_arg_min pn_deadline (\<lambda>p. p \<in> set q) p" using ex_is_arg_min_if_finite [of "set q" pn_deadline] by auto
  then have "heap_top p q" by (auto simp: heap_top_iff is_arg_min_linorder)
  then show ?thesis using heap_top_iff [of p q] by (auto simp: in_set_conv_nth)
qed

definition fired_at :: "hrt_sys \<Rightarrow> nat \<Rightarrow> bool" where
  "fired_at s a \<longleftrightarrow> (\<exists>l. hs_sleeps s a = Some l \<and> sl_state l = STATE_FIRED)"

definition live_at :: "hrt_sys \<Rightarrow> nat \<Rightarrow> bool" where
  "live_at s a \<longleftrightarrow> (\<exists>l. hs_sleeps s a = Some l \<and> sl_cancelled l \<noteq> Some True)"

lemma worker_round_step:
  assumes rests: "worker_rests s" and p: "p \<in> set (hs_queue s)" and due: "pn_deadline p \<le> hs_now s"
  shows "\<exists>k p'. let s' = hrt_run (worker_round k) s in
    worker_rests s' \<and> hs_now s' = hs_now s \<and> p' \<in> set (hs_queue s) \<and> pn_deadline p' \<le> pn_deadline p \<and>
    hs_queue s' = remove1 p' (hs_queue s) \<and> (live_at s (pn_ctx p') \<longrightarrow> fired_at s' (pn_ctx p')) \<and>
    (\<forall>a. fired_at s a \<longrightarrow> fired_at s' a) \<and> (\<forall>a. live_at s a \<longrightarrow> live_at s' a)"
proof -
  from rests have inv: "hrt_inv s" and nf: "hs_fault s = None" and w: "hs_worker s = WWait" by (simp_all add: worker_rests_def)
  obtain k where k: "k < length (hs_queue s)" "heap_top (hs_queue s ! k) (hs_queue s)"
    using heap_top_exists [of "hs_queue s"] length_pos_if_in_set [OF p] by auto
  let ?p = "hs_queue s ! k" and ?s = "hrt_run (worker_round k) s"
  have p': "?p \<in> set (hs_queue s)" "pn_deadline ?p \<le> pn_deadline p" using k p by (auto simp: heap_top_iff)
  have now: "pn_deadline ?p \<le> hs_now s" using p'(2) due by (rule order_trans)
  from hrt_invD(1) [OF inv p'(1)] obtain l where l: "hs_sleeps s (pn_ctx ?p) = Some l" and e: "pn_entry ?p = pn_ctx ?p" by auto
  have idle: "sl_idle (sl_waker l)" using hrt_invD(5) [OF inv l] by (simp add: sleep_ok_def cover_ok_def)
  have inv': "hrt_inv ?s" by (rule hrt_inv_run [OF inv])
  show ?thesis
  proof (cases "sl_cancelled l = Some True")
    case True
    then have "?s = s\<lparr>hs_queue := remove1 ?p (hs_queue s)\<rparr>"
      using k now nf w l e by (simp add: worker_round_def hrt_run_def hrt_step_def worker_pop_def worker_step_def)
    moreover have "\<not> live_at s (pn_ctx ?p)" using True l by (simp add: live_at_def)
    ultimately show ?thesis using inv' nf w p'
      by (intro exI [of _ k] exI [of _ ?p]) (auto simp: worker_rests_def Let_def fired_at_def live_at_def)
  next
    case False
    then have "?s = s\<lparr>hs_queue := remove1 ?p (hs_queue s),
        hs_sleeps := (hs_sleeps s)(pn_ctx ?p \<mapsto> sl_wake (l\<lparr>sl_state := STATE_FIRED\<rparr>))\<rparr>"
      using k now nf w l e
      by (simp add: worker_round_def hrt_run_def hrt_step_def worker_pop_def worker_step_def set_sleep_def)
    moreover have "sl_state (sl_wake (l\<lparr>sl_state := STATE_FIRED\<rparr>)) = STATE_FIRED"
      "sl_cancelled (sl_wake (l\<lparr>sl_state := STATE_FIRED\<rparr>)) = sl_cancelled l" by (simp_all add: sl_wake_def)
    ultimately show ?thesis using inv' nf w p' False
      by (intro exI [of _ k] exI [of _ ?p]) (auto simp: worker_rests_def Let_def fired_at_def live_at_def)
  qed
qed

lemma worker_drains:
  assumes "worker_rests s"
  shows "\<exists>ks. let s' = hrt_run (concat (map worker_round ks)) s in
    worker_rests s' \<and> hs_now s' = hs_now s \<and> length ks \<le> length (hs_queue s) \<and>
    (\<forall>p \<in> set (hs_queue s'). \<not> pn_deadline p \<le> hs_now s) \<and>
    (\<forall>a. fired_at s a \<longrightarrow> fired_at s' a) \<and>
    (\<forall>p \<in> set (hs_queue s). pn_deadline p \<le> hs_now s \<longrightarrow> live_at s (pn_ctx p) \<longrightarrow> fired_at s' (pn_ctx p))"
  using assms
proof (induction "length (hs_queue s)" arbitrary: s rule: less_induct)
  case less
  show ?case
  proof (cases "\<exists>p \<in> set (hs_queue s). pn_deadline p \<le> hs_now s")
    case False
    then show ?thesis using less.prems by (intro exI [of _ "[]"]) (simp add: hrt_run_def)
  next
    case True
    then obtain p where "p \<in> set (hs_queue s)" "pn_deadline p \<le> hs_now s" by blast
    from worker_round_step [OF less.prems this] obtain k p' s1 where s1: "s1 = hrt_run (worker_round k) s"
      and r1: "worker_rests s1" "hs_now s1 = hs_now s" "p' \<in> set (hs_queue s)" "hs_queue s1 = remove1 p' (hs_queue s)"
        "live_at s (pn_ctx p') \<longrightarrow> fired_at s1 (pn_ctx p')" "\<forall>a. fired_at s a \<longrightarrow> fired_at s1 a"
        "\<forall>a. live_at s a \<longrightarrow> live_at s1 a" unfolding Let_def by blast
    have len: "length (hs_queue s1) < length (hs_queue s)" using r1(4) length_pos_if_in_set [OF r1(3)] r1(3) by (simp add: length_remove1)
    from less.hyps [OF len r1(1)] obtain ks s2 where s2: "s2 = hrt_run (concat (map worker_round ks)) s1"
      and r2: "worker_rests s2" "hs_now s2 = hs_now s1" "length ks \<le> length (hs_queue s1)"
        "\<forall>p \<in> set (hs_queue s2). \<not> pn_deadline p \<le> hs_now s1" "\<forall>a. fired_at s1 a \<longrightarrow> fired_at s2 a"
        "\<forall>p \<in> set (hs_queue s1). pn_deadline p \<le> hs_now s1 \<longrightarrow> live_at s1 (pn_ctx p) \<longrightarrow> fired_at s2 (pn_ctx p)"
      unfolding Let_def by blast
    have "fired_at s2 (pn_ctx q)" if "q \<in> set (hs_queue s)" "pn_deadline q \<le> hs_now s" "live_at s (pn_ctx q)" for q
    proof (cases "q = p'")
      case False
      then have "q \<in> set (hs_queue s1)" using that(1) r1(4) by simp
      then show ?thesis using r1(2,7) r2(6) that by simp
    qed (use r1(5) r2(5) that in blast)
    moreover have "hrt_run (concat (map worker_round (k # ks))) s = s2" by (simp add: hrt_run_append s1 s2)
    moreover have "length (k # ks) \<le> length (hs_queue s)" using len r2(3) by simp
    ultimately show ?thesis unfolding Let_def using r1 r2 by (intro exI [of _ "k # ks"]) simp
  qed
qed

section \<open>Properties\<close>

text \<open>
  C18: \<open>sleep(d)\<close> never resolves early: a poll that returned \<open>Ready\<close> did so at or after the instant at which
  the timer was set plus the delay, in every interleaving of tasks, timer worker and clock.
\<close>

theorem sleep_never_early:
  assumes "s = hrt_run acts hrt_new" and "hs_sleeps s a = Some l" and "sl_last l = Some (Ready ())"
  shows "\<exists>t. sl_called l = Some t \<and> instant_add t (sl_delay_us l) \<le> hs_now s"
  using hrt_invD(5) [OF hrt_inv_run [OF hrt_inv_new] assms(2) [unfolded assms(1)]] assms(1,3)
  by (auto simp: sleep_ok_def time_ok_def due_def)

text \<open>
  C19: a task asleep is not forgotten: when its last poll of a \<open>Sleep\<close> returned \<open>Pending\<close>, and the store of
  \<open>STATE_ARMED\<close> did not overwrite \<open>STATE_FIRED\<close>, then its entry is in the queue with the right deadline or
  with the worker, or it has fired and the worker is about to call the waker in the slot, or the waker
  has been called since that poll began.
\<close>

theorem sleep_not_forgotten:
  assumes "s = hrt_run acts hrt_new" and "hs_sleeps s a = Some l" and "sl_pc l = SlRest"
    and "sl_last l = Some Pending" and "\<not> sl_overwritten l" and "sl_called l = Some t"
  shows "(sl_state l \<noteq> STATE_FIRED \<and> aw_slot (sl_waker l) \<noteq> None \<and> sl_cancelled l = Some False \<and>
      (view a (hs_worker s) = VFlight \<or>
       (\<exists>p \<in> set (hs_queue s). pn_ctx p = a \<and> pn_deadline p = instant_add t (sl_delay_us l)))) \<or>
    (sl_state l = STATE_FIRED \<and>
      (view a (hs_worker s) = VWake \<and> aw_slot (sl_waker l) \<noteq> None \<or> sl_mark l < length (aw_woken (sl_waker l))))"
proof -
  have ok: "sleep_ok (hs_now s) (entries a (hs_queue s)) (view a (hs_worker s)) l"
    using hrt_invD(5) [OF hrt_inv_run [OF hrt_inv_new] assms(2) [unfolded assms(1)]] assms(1) by simp
  show ?thesis
  proof (cases "sl_state l = STATE_FIRED")
    case True
    then show ?thesis using ok assms(3-6) by (simp add: sleep_ok_def cover_ok_def)
  next
    case False
    then have "entries a (hs_queue s) \<noteq> [] \<or> view a (hs_worker s) = VFlight"
      and "aw_slot (sl_waker l) \<noteq> None" "sl_cancelled l = Some False"
      using ok assms(3-6) by (simp_all add: sleep_ok_def cover_ok_def)
    moreover have "pn_ctx p = a \<and> p \<in> set (hs_queue s) \<and> pn_deadline p = instant_add t (sl_delay_us l)"
      if "p \<in> set (entries a (hs_queue s))" for p
      using that ok assms(6) by (auto simp: sleep_ok_def time_ok_def) (auto simp: entries_def)
    ultimately show ?thesis using False by (cases "entries a (hs_queue s)") auto
  qed
qed

text \<open>One sleep of five microseconds, polled, fired, and polled again.\<close>

definition one_sleep :: "hrt_act list" where
  "one_sleep = [NewSleep 0 5, PollSleep 0 1, SleepStep 0, SleepStep 0, SleepStep 0, Tick 5]"

definition asleep :: hrt_sys where
  "asleep = hrt_run one_sleep hrt_new"

lemmas hrt_eval = hrt_run_def hrt_step_def hrt_new_def set_sleep_def sleep_step_def poll_begin_def
  drop_begin_def sleep_new_def delay_us_def call_after_def worker_pop_def worker_step_def cancel_evict_def heap_top_iff
  sl_register_eq sl_wake_eq instant_add_def less_eq_instant_def sleep_states Let_def

lemma asleep_eq:
  "asleep = \<lparr>hs_now = Micros 5, hs_queue = [\<lparr>pn_deadline = Micros 5, pn_entry = 0, pn_ctx = 0\<rparr>], hs_worker = WWait,
     hs_sleeps = [0 \<mapsto> \<lparr>sl_delay_us = 5, sl_state = STATE_ARMED, sl_waker = aw_new\<lparr>aw_slot := Some 1\<rparr>,
       sl_cancelled = Some False, sl_pc = SlRest, sl_last = Some Pending, sl_mark = 0, sl_called = Some (Micros 0),
       sl_overwritten = False\<rparr>], hs_used = [0], hs_fault = None\<rparr>"
  by (simp add: asleep_def one_sleep_def hrt_eval) (simp add: aw_new_def)

definition awake :: hrt_sys where
  "awake = hrt_run (one_sleep @ worker_round 0 @ [PollSleep 0 1]) hrt_new"

lemma awake_last: "\<exists>l. hs_sleeps awake 0 = Some l \<and> sl_last l = Some (Ready ()) \<and> sl_called l = Some (Micros 0) \<and> sl_delay_us l = 5"
  by (simp add: awake_def hrt_run_append asleep_eq [unfolded asleep_def] worker_round_def)
     (simp add: hrt_eval)

theorem sleep_never_early_witness: "instant_add (Micros 0) 5 \<le> hs_now awake"
  using sleep_never_early [OF awake_def] awake_last by fastforce

theorem sleep_not_forgotten_witness:
  "view 0 (hs_worker asleep) = VFlight \<or> (\<exists>p \<in> set (hs_queue asleep). pn_ctx p = 0 \<and> pn_deadline p = Micros 5)"
  using sleep_not_forgotten [OF asleep_def, of 0]
  by (simp add: asleep_eq instant_add_def sleep_states)

text \<open>
  C29: the worker catches up: from any reachable state in which it rests, at most one round per entry
  later no entry is overdue, and the sleep of every entry that was overdue has fired unless it is being
  dropped. No round meets a dropped sleep: the queue never holds the address of one.
\<close>

theorem expired_timers_fire:
  assumes "s = hrt_run acts hrt_new" and "hs_fault s = None" and "hs_worker s = WWait"
  shows "\<exists>ks. let s' = hrt_run (concat (map worker_round ks)) s in
    hs_fault s' = None \<and> hs_worker s' = WWait \<and> length ks \<le> length (hs_queue s) \<and>
    (\<forall>p \<in> set (hs_queue s'). \<not> pn_deadline p \<le> hs_now s') \<and>
    (\<forall>p \<in> set (hs_queue s). pn_deadline p \<le> hs_now s \<longrightarrow> live_at s (pn_ctx p) \<longrightarrow> fired_at s' (pn_ctx p))"
proof -
  have "worker_rests s" using assms hrt_inv_run [OF hrt_inv_new] by (simp add: worker_rests_def)
  from worker_drains [OF this] show ?thesis by (fastforce simp: Let_def worker_rests_def)
qed

theorem expired_timers_fire_witness:
  "\<exists>ks. fired_at (hrt_run (concat (map worker_round ks)) asleep) 0"
  using expired_timers_fire [OF asleep_def] by (simp add: asleep_eq live_at_def Let_def) blast

text \<open>A sleep that neither the queue nor the worker knows, and that is armed, stays so.\<close>

definition stuck :: "nat \<Rightarrow> hrt_sys \<Rightarrow> bool" where
  "stuck a s \<longleftrightarrow> a \<in> set (hs_used s) \<and> entries a (hs_queue s) = [] \<and> view a (hs_worker s) = VNone \<and>
     (\<forall>p. hs_worker s = WPopped p \<longrightarrow> pn_entry p = pn_ctx p) \<and> (\<forall>p \<in> set (hs_queue s). pn_entry p = pn_ctx p) \<and>
     (\<forall>l. hs_sleeps s a = Some l \<longrightarrow> sl_state l = STATE_ARMED \<and> sl_last l \<noteq> Some (Ready ()) \<and>
        (\<forall>w. sl_pc l \<noteq> SlFirst w) \<and> sl_pc l \<noteq> SlCallAfter)"

lemma stuck_sleep_step: "stuck a s \<Longrightarrow> hs_sleeps s b = Some l \<Longrightarrow> stuck a (sleep_step b l s)"
  by (cases "b = a"; cases "sl_pc l")
     (auto simp: stuck_def sleep_step_def set_sleep_def call_after_def Let_def sl_register_def entries_evict,
      auto simp: cancel_evict_def)

lemma stuck_worker_step: "stuck a s \<Longrightarrow> stuck a (worker_step s)"
  by (cases "hs_worker s") (auto simp: stuck_def worker_step_def set_sleep_def split: option.split if_splits)

lemma stuck_worker_pop: "stuck a s \<Longrightarrow> stuck a (worker_pop k s)"
proof (cases "k < length (hs_queue s)")
  case True
  assume st: "stuck a s"
  have "pn_ctx (hs_queue s ! k) \<noteq> a"
    using st True nth_mem [OF True] by (auto simp: stuck_def entries_def filter_empty_conv)
  with st True show ?thesis
    by (auto simp: stuck_def worker_pop_def entries_remove1 dest: notin_set_remove1 [rotated])
qed (auto simp: worker_pop_def)

lemma stuck_do: "stuck a s \<Longrightarrow> stuck a (hrt_do act s)"
proof (cases act)
  case (PollSleep b w)
  then show "stuck a s \<Longrightarrow> ?thesis"
    by (cases "b = a") (auto simp: stuck_def set_sleep_def poll_begin_def Let_def split: option.split)
next
  case (DropSleep b)
  then show "stuck a s \<Longrightarrow> ?thesis"
    by (cases "b = a") (auto simp: stuck_def set_sleep_def drop_begin_def split: option.split)
next
  case (SleepStep b)
  then show "stuck a s \<Longrightarrow> ?thesis" using stuck_sleep_step [of a s b] by (simp split: option.split)
next
  case (NewSleep b us)
  then show "stuck a s \<Longrightarrow> ?thesis" by (auto simp: stuck_def set_sleep_def)
qed (auto simp: stuck_worker_pop stuck_worker_step, simp add: stuck_def)

lemma stuck_run: "stuck a s \<Longrightarrow> stuck a (hrt_run acts s)"
  unfolding hrt_run_def by (induction acts arbitrary: s) (simp_all add: hrt_step_def stuck_do)

definition overwrite_acts :: "hrt_act list" where
  "overwrite_acts = [NewSleep 0 0, PollSleep 0 1, SleepStep 0, SleepStep 0] @ worker_round 0 @ [SleepStep 0]"

lemma overwrite_result:
  "\<exists>l. hs_sleeps (hrt_run overwrite_acts hrt_new) 0 = Some l \<and> sl_last l = Some Pending \<and> sl_overwritten l"
  "stuck 0 (hrt_run overwrite_acts hrt_new)"
  by (simp_all add: overwrite_acts_def worker_round_def stuck_def) (simp_all add: hrt_eval)

text \<open>
  C35: a timer that fires between \<open>call_after\<close> and the store of \<open>STATE_ARMED\<close>, as a zero or very short
  delay does, is lost: the store overwrites \<open>STATE_FIRED\<close>, and from then on no poll of that \<open>Sleep\<close> is
  ever \<open>Ready\<close>, whatever happens.
\<close>

theorem sleep_fired_too_soon_hangs:
  "(\<exists>l. hs_sleeps (hrt_run overwrite_acts hrt_new) 0 = Some l \<and> sl_last l = Some Pending \<and> sl_overwritten l) \<and>
   map_option sl_last (hs_sleeps (hrt_run (overwrite_acts @ acts) hrt_new) 0) \<noteq> Some (Some (Ready ()))"
proof -
  have "stuck 0 (hrt_run (overwrite_acts @ acts) hrt_new)"
    unfolding hrt_run_append by (rule stuck_run [OF overwrite_result(2)])
  then show ?thesis using overwrite_result(1) by (auto simp: stuck_def)
qed

text \<open>
  \<open>cancel\<close> of the host mock does not wait for a callout under way: when the worker has read the
  flag before \<open>drop\<close> sets it, the callout runs on a \<open>Sleep\<close> that no longer exists.
\<close>

theorem sleep_dropped_under_callout:
  "hs_fault (hrt_run (one_sleep @ [WorkerPop 0, WorkerStep, DropSleep 0, SleepStep 0, SleepStep 0, SleepStep 0, WorkerStep]) hrt_new)
     = Some UseAfterDrop"
  by (simp add: hrt_run_append asleep_eq [unfolded asleep_def]) (simp add: hrt_eval)

end
