(* ===== verification/Uorb_Broker.thy ===== *)
theory Uorb_Broker
  imports Px4_Prelude
begin

text \<open>
  The mock of \<open>crates/px4-uorb/src/ffi.rs\<close>: the in-process broker. Topics and subscriber
  callbacks are shared objects behind \<open>Arc\<close>s, so they live in a store, and a handle is an address.
  A pointer to a sample is the list of the bytes it may read; copying more bytes than that, or more
  than the destination holds, is undefined behaviour and is the error \<open>OverRead\<close> or \<open>OverWrite\<close>.
  The sequence numbers are \<open>u64\<close>s whose overflow panics (\<open>SeqOverflow\<close>); a handle that does not
  come from \<open>advertise\<close> or \<open>sub_cb_new\<close> is \<open>BadHandle\<close>. Each call is one step here; the code takes the locks of
  a topic's data, sequence number and callbacks one after the other, and what other threads can do in between is in \<open>Uorb_Race\<close>.
  The shares of a topic that handles own are not counted, so a handle used after its \<open>unadvertise\<close> is no fault here. The callback of a subscriber wakes the
  \<open>AtomicWaker\<close> at its \<open>ctx\<close>, which is recorded in \<open>b_woken\<close>.
\<close>

section \<open>Data\<close>

type_synonym addr = nat

type_synonym bytes = "8 word list"

record orb_metadata =
  o_name :: string
  o_size :: "16 word"
  o_size_no_padding :: "16 word"
  o_message_hash :: "32 word"
  o_id :: "16 word"
  o_queue :: "8 word"

datatype orb_fault = OverRead | OverWrite | SeqOverflow | BadHandle

record topic_state =
  t_size :: nat
  t_seq :: nat
  t_data :: bytes
  t_callbacks :: "addr list"

record sub_cb =
  s_topic :: addr
  s_last_seen :: nat
  s_ctx :: addr
  s_registered :: bool
  s_size :: nat
  s_lost :: "32 word"

record broker =
  b_names :: "string \<rightharpoonup> addr"
  b_topics :: "addr \<rightharpoonup> topic_state"
  b_subs :: "addr \<rightharpoonup> sub_cb"
  b_next :: addr
  b_live :: "addr list"
  b_woken :: "addr list"

definition broker_new :: broker where
  "broker_new = \<lparr>b_names = Map.empty, b_topics = Map.empty, b_subs = Map.empty, b_next = 0,
     b_live = [], b_woken = []\<rparr>"

type_synonym 'a orb = "broker \<Rightarrow> orb_fault + ('a \<times> broker)"

section \<open>Topics\<close>

definition set_topic :: "addr \<Rightarrow> topic_state \<Rightarrow> broker \<Rightarrow> broker" where
  "set_topic t ts b = b\<lparr>b_topics := (b_topics b)(t \<mapsto> ts)\<rparr>"

definition set_sub :: "addr \<Rightarrow> sub_cb \<Rightarrow> broker \<Rightarrow> broker" where
  "set_sub c s b = b\<lparr>b_subs := (b_subs b)(c \<mapsto> s)\<rparr>"

definition new_topic :: "orb_metadata \<Rightarrow> topic_state" where
  "new_topic meta = \<lparr>t_size = unat (o_size meta), t_seq = 0,
     t_data = replicate (unat (o_size meta)) 0, t_callbacks = []\<rparr>"

definition topic_for :: "orb_metadata \<Rightarrow> broker \<Rightarrow> addr \<times> broker" where
  "topic_for meta b =
     (case b_names b (o_name meta) of
        Some t \<Rightarrow> (t, b)
      | None \<Rightarrow>
          (b_next b,
           set_topic (b_next b) (new_topic meta)
             (b\<lparr>b_names := (b_names b)(o_name meta \<mapsto> b_next b), b_next := b_next b + 1\<rparr>)))"

text \<open>\<open>copy_nonoverlapping(src, dst, n)\<close>, with the new contents of the destination.\<close>

definition copy_bytes :: "bytes \<Rightarrow> bytes \<Rightarrow> nat \<Rightarrow> orb_fault + bytes" where
  "copy_bytes src dst n =
     (if length src < n then Err OverRead
      else if length dst < n then Err OverWrite
      else Ok (take n src @ drop n dst))"

text \<open>\<open>*seq += 1\<close>.\<close>

definition seq_bump :: "nat \<Rightarrow> orb_fault + nat" where
  "seq_bump n = (if n + 1 < 2 ^ 64 then Ok (n + 1) else Err SeqOverflow)"

definition notify_topic :: "addr \<Rightarrow> broker \<Rightarrow> broker" where
  "notify_topic t b =
     (case b_topics b t of
        None \<Rightarrow> b
      | Some ts \<Rightarrow> b\<lparr>b_woken := b_woken b @ map (\<lambda>c. s_ctx (the (b_subs b c))) (t_callbacks ts)\<rparr>)"

text \<open>Write a sample, bump the sequence, fire the callbacks: common to \<open>advertise\<close> and \<open>publish\<close>.\<close>

definition write_sample :: "addr \<Rightarrow> bytes \<Rightarrow> broker \<Rightarrow> orb_fault + broker" where
  "write_sample t sample b =
     (case b_topics b t of
        None \<Rightarrow> Err BadHandle
      | Some ts \<Rightarrow>
          res_bind (copy_bytes sample (t_data ts) (t_size ts))
            (\<lambda>d. res_bind (seq_bump (t_seq ts))
               (\<lambda>n. Ok (notify_topic t (set_topic t (ts\<lparr>t_data := d, t_seq := n\<rparr>) b)))))"

definition orb_advertise :: "orb_metadata \<Rightarrow> bytes \<Rightarrow> addr orb" where
  "orb_advertise meta initial b =
     (case topic_for meta b of
        (t, b) \<Rightarrow> res_bind (write_sample t initial b) (\<lambda>b. Ok (t, b)))"

text \<open>The mock writes back the instance it was given.\<close>

definition orb_advertise_multi :: "orb_metadata \<Rightarrow> bytes \<Rightarrow> int \<Rightarrow> (addr \<times> int) orb" where
  "orb_advertise_multi meta initial instance_inout b =
     res_bind (orb_advertise meta initial b) (\<lambda>(h, b). Ok ((h, instance_inout), b))"

definition orb_publish :: "orb_metadata \<Rightarrow> addr \<Rightarrow> bytes \<Rightarrow> int orb" where
  "orb_publish meta handle sample b = res_bind (write_sample handle sample b) (\<lambda>b. Ok (0, b))"

text \<open>
  The broker keeps its own share of the topic, so dropping a handle frees nothing. The share itself is not represented: who
  calls this twice with one handle, or uses it afterwards, is told apart only in \<open>Uorb_Race\<close>.
\<close>

definition orb_unadvertise :: "addr \<Rightarrow> broker \<Rightarrow> orb_fault + broker" where
  "orb_unadvertise handle b = (if b_topics b handle = None then Err BadHandle else Ok b)"

section \<open>Subscriber callbacks\<close>

definition sub_cb_new :: "orb_metadata \<Rightarrow> nat \<Rightarrow> nat \<Rightarrow> addr \<Rightarrow> broker \<Rightarrow> addr \<times> broker" where
  "sub_cb_new meta interval_us instance' ctx b =
     (case topic_for meta b of
        (t, b) \<Rightarrow>
          let cb = \<lparr>s_topic = t, s_last_seen = 0, s_ctx = ctx, s_registered = False,
                s_size = t_size (the (b_topics b t)), s_lost = 0\<rparr>;
              raw = b_next b
          in (raw, set_sub raw cb (b\<lparr>b_next := raw + 1, b_live := b_live b @ [raw]\<rparr>)))"

definition sub_cb_register :: "addr \<Rightarrow> bool orb" where
  "sub_cb_register cb b =
     (case b_subs b cb of
        None \<Rightarrow> Err BadHandle
      | Some s \<Rightarrow>
          if s_registered s then Ok (True, b)
          else (case b_topics b (s_topic s) of
                  None \<Rightarrow> Err BadHandle
                | Some ts \<Rightarrow>
                    Ok (True, set_sub cb (s\<lparr>s_registered := True\<rparr>)
                          (set_topic (s_topic s) (ts\<lparr>t_callbacks := t_callbacks ts @ [cb]\<rparr>) b))))"

definition skipped_u32 :: "nat \<Rightarrow> 32 word" where
  "skipped_u32 skipped = (if skipped < 2 ^ 32 then of_nat skipped else - 1)"

text \<open>The result is the new contents of the destination, if there was a new sample.\<close>

definition sub_cb_update :: "addr \<Rightarrow> bytes \<Rightarrow> bytes option orb" where
  "sub_cb_update cb dst b =
     (case b_subs b cb of
        None \<Rightarrow> Err BadHandle
      | Some s \<Rightarrow>
          (case b_topics b (s_topic s) of
             None \<Rightarrow> Err BadHandle
           | Some ts \<Rightarrow>
               let cur = t_seq ts; last = s_last_seen s
               in if cur > last
                  then let skipped = cur - last - 1;
                           lost = (if skipped > 0 then s_lost s + skipped_u32 skipped else s_lost s)
                       in res_bind (copy_bytes (t_data ts) dst (s_size s))
                            (\<lambda>d. Ok (Some d, set_sub cb (s\<lparr>s_lost := lost, s_last_seen := cur\<rparr>) b))
                  else Ok (None, b)))"

definition sub_cb_lost_take :: "addr \<Rightarrow> 32 word orb" where
  "sub_cb_lost_take cb b =
     (case b_subs b cb of
        None \<Rightarrow> Err BadHandle
      | Some s \<Rightarrow> Ok (s_lost s, set_sub cb (s\<lparr>s_lost := 0\<rparr>) b))"

definition sub_cb_unregister :: "addr \<Rightarrow> broker \<Rightarrow> orb_fault + broker" where
  "sub_cb_unregister cb b =
     (case b_subs b cb of
        None \<Rightarrow> Err BadHandle
      | Some s \<Rightarrow>
          if s_registered s
          then (case b_topics b (s_topic s) of
                  None \<Rightarrow> Err BadHandle
                | Some ts \<Rightarrow>
                    Ok (set_sub cb (s\<lparr>s_registered := False\<rparr>)
                          (set_topic (s_topic s)
                             (ts\<lparr>t_callbacks := filter (\<lambda>c. c \<noteq> cb) (t_callbacks ts)\<rparr>) b)))
          else Ok b)"

definition sub_cb_delete :: "addr \<Rightarrow> broker \<Rightarrow> orb_fault + broker" where
  "sub_cb_delete cb b =
     res_bind (sub_cb_unregister cb b)
       (\<lambda>b. Ok (b\<lparr>b_live := filter (\<lambda>p. p \<noteq> cb) (b_live b), b_subs := (b_subs b)(cb := None)\<rparr>))"

definition reset_broker :: "broker \<Rightarrow> broker" where
  "reset_broker b = b\<lparr>b_names := Map.empty\<rparr>"

section \<open>Invariant\<close>

definition topic_ok :: "broker \<Rightarrow> addr \<Rightarrow> topic_state \<Rightarrow> bool" where
  "topic_ok b t ts \<longleftrightarrow>
     t < b_next b \<and> length (t_data ts) = t_size ts \<and> distinct (t_callbacks ts) \<and>
     (\<forall>c. c \<in> set (t_callbacks ts) \<longleftrightarrow>
        (\<exists>s. b_subs b c = Some s \<and> s_registered s \<and> s_topic s = t))"

definition sub_ok :: "broker \<Rightarrow> addr \<Rightarrow> sub_cb \<Rightarrow> bool" where
  "sub_ok b c s \<longleftrightarrow>
     c < b_next b \<and> c \<in> set (b_live b) \<and>
     (\<exists>ts. b_topics b (s_topic s) = Some ts \<and> s_size s = t_size ts \<and> s_last_seen s \<le> t_seq ts)"

definition broker_ok :: "broker \<Rightarrow> bool" where
  "broker_ok b \<longleftrightarrow>
     (\<forall>n t. b_names b n = Some t \<longrightarrow> b_topics b t \<noteq> None) \<and>
     (\<forall>t ts. b_topics b t = Some ts \<longrightarrow> topic_ok b t ts) \<and>
     (\<forall>c s. b_subs b c = Some s \<longrightarrow> sub_ok b c s)"

lemmas broker_defs = set_topic_def set_sub_def topic_ok_def sub_ok_def broker_ok_def

lemma broker_ok_new: "broker_ok broker_new"
  by (simp add: broker_new_def broker_ok_def)

lemma broker_okD:
  assumes "broker_ok b"
  shows "b_names b n = Some t \<Longrightarrow> \<exists>ts. b_topics b t = Some ts"
    and "b_topics b t = Some ts \<Longrightarrow> topic_ok b t ts"
    and "b_subs b c = Some s \<Longrightarrow> sub_ok b c s"
  using assms by (auto simp: broker_ok_def)

lemma fresh_topic: "broker_ok b \<Longrightarrow> b_topics b (b_next b) = None"
  by (rule ccontr) (use broker_okD(2) in \<open>force simp: topic_ok_def\<close>)

lemma fresh_sub: "broker_ok b \<Longrightarrow> b_subs b (b_next b) = None"
  by (rule ccontr) (use broker_okD(3) in \<open>force simp: sub_ok_def\<close>)

lemmas fresh_addr = fresh_topic fresh_sub

lemma topic_for_ok:
  assumes ok: "broker_ok b" and run: "topic_for meta b = (t, b')"
  shows "broker_ok b' \<and> (\<exists>ts. b_topics b' t = Some ts) \<and> b_names b' (o_name meta) = Some t \<and>
    b_subs b' = b_subs b \<and> b_woken b' = b_woken b \<and>
    (\<forall>u us. b_topics b u = Some us \<longrightarrow> b_topics b' u = Some us) \<and>
    (\<forall>n u. b_names b n = Some u \<longrightarrow> b_names b' n = Some u)"
proof (cases "b_names b (o_name meta)")
  case (Some u)
  with run broker_okD(1) [OF ok Some] ok show ?thesis by (auto simp: topic_for_def)
next
  case None
  note fresh = fresh_addr [OF ok]
  have b': "b' = set_topic (b_next b) (new_topic meta)
      (b\<lparr>b_names := (b_names b)(o_name meta \<mapsto> b_next b), b_next := b_next b + 1\<rparr>)" and t: "t = b_next b"
    using None run by (auto simp: topic_for_def)
  have subs: "s_topic s \<noteq> b_next b" if "b_subs b c = Some s" for c s
    using broker_okD(3) [OF ok that] fresh by (auto simp: sub_ok_def)
  have "topic_ok b' u us" if "b_topics b' u = Some us" for u us
  proof (cases "u = b_next b")
    case True
    then have "us = new_topic meta" using that by (simp add: b' set_topic_def)
    then show ?thesis using True subs by (auto simp: topic_ok_def new_topic_def b' set_topic_def)
  next
    case False
    then have "b_topics b u = Some us" using that by (simp add: b' set_topic_def)
    from broker_okD(2) [OF ok this] show ?thesis by (auto simp: topic_ok_def b' set_topic_def)
  qed
  moreover have "sub_ok b' c s" if "b_subs b' c = Some s" for c s
  proof -
    have s: "b_subs b c = Some s" using that by (simp add: b' set_topic_def)
    from broker_okD(3) [OF ok s] subs [OF s] show ?thesis by (auto simp: sub_ok_def b' set_topic_def)
  qed
  moreover have "b_topics b' u \<noteq> None" if "b_names b' n = Some u" for n u
    using that broker_okD(1) [OF ok, of n u] by (auto simp: b' set_topic_def split: if_splits)
  ultimately have "broker_ok b'" by (simp add: broker_ok_def)
  then show ?thesis using None fresh by (auto simp: b' t set_topic_def)
qed

text \<open>Changing a topic without touching its size and callbacks, with a sequence that does not drop.\<close>

lemma set_topic_ok:
  assumes ok: "broker_ok b" and ts: "b_topics b t = Some ts"
    and "t_size ts' = t_size ts" and "t_callbacks ts' = t_callbacks ts" and "t_seq ts \<le> t_seq ts'"
    and "length (t_data ts') = t_size ts'"
  shows "broker_ok (set_topic t ts' b)"
proof -
  let ?b = "set_topic t ts' b"
  have "topic_ok ?b u us" if "b_topics ?b u = Some us" for u us
  proof (cases "u = t")
    case True
    with that have "us = ts'" by (simp add: set_topic_def)
    with broker_okD(2) [OF ok ts] True assms(3-6) show ?thesis by (simp add: topic_ok_def set_topic_def)
  next
    case False
    with that have "b_topics b u = Some us" by (simp add: set_topic_def)
    from broker_okD(2) [OF ok this] show ?thesis by (simp add: topic_ok_def set_topic_def)
  qed
  moreover have "sub_ok ?b c s" if "b_subs ?b c = Some s" for c s
  proof -
    have "b_subs b c = Some s" using that by (simp add: set_topic_def)
    from broker_okD(3) [OF ok this] ts assms(3,5) show ?thesis
      by (fastforce simp: sub_ok_def set_topic_def)
  qed
  moreover have "b_topics ?b u \<noteq> None" if "b_names ?b n = Some u" for n u
    using that broker_okD(1) [OF ok, of n u] by (auto simp: set_topic_def)
  ultimately show ?thesis by (simp add: broker_ok_def)
qed

lemma broker_ok_woken [simp]: "broker_ok (b\<lparr>b_woken := w\<rparr>) \<longleftrightarrow> broker_ok b"
  by (simp add: broker_ok_def topic_ok_def sub_ok_def)

lemma notify_topic_ok [simp]: "broker_ok (notify_topic t b) \<longleftrightarrow> broker_ok b"
  by (simp add: notify_topic_def split: option.split)

lemma notify_topic_sel [simp]:
  "b_topics (notify_topic t b) = b_topics b" "b_subs (notify_topic t b) = b_subs b"
  "b_names (notify_topic t b) = b_names b" "b_live (notify_topic t b) = b_live b"
  by (simp_all add: notify_topic_def split: option.split)

lemma copy_bytes_exact: "length dst = n \<Longrightarrow> copy_bytes src dst n = Ok d \<longleftrightarrow> n \<le> length src \<and> d = take n src"
  by (auto simp: copy_bytes_def)

text \<open>The callbacks fired for a topic.\<close>

definition topic_ctxs :: "broker \<Rightarrow> addr \<Rightarrow> addr list" where
  "topic_ctxs b t = map (\<lambda>c. s_ctx (the (b_subs b c))) (t_callbacks (the (b_topics b t)))"

lemma write_sample_spec:
  assumes ok: "broker_ok b" and run: "write_sample t sample b = Ok b'"
  shows "broker_ok b' \<and>
    (\<exists>ts. b_topics b t = Some ts \<and> t_size ts \<le> length sample \<and> t_seq ts + 1 < 2 ^ 64 \<and>
       b_topics b' = (b_topics b)(t \<mapsto> ts\<lparr>t_data := take (t_size ts) sample, t_seq := t_seq ts + 1\<rparr>)) \<and>
    b_subs b' = b_subs b \<and> b_names b' = b_names b \<and> b_live b' = b_live b \<and>
    b_woken b' = b_woken b @ topic_ctxs b t"
proof -
  from run obtain ts d n where ts: "b_topics b t = Some ts" and d: "copy_bytes sample (t_data ts) (t_size ts) = Ok d"
    and n: "seq_bump (t_seq ts) = Ok n"
    and b': "b' = notify_topic t (set_topic t (ts\<lparr>t_data := d, t_seq := n\<rparr>) b)"
    by (auto simp: write_sample_def split: option.splits)
  have len: "length (t_data ts) = t_size ts" using broker_okD(2) [OF ok ts] by (simp add: topic_ok_def)
  have d': "t_size ts \<le> length sample" "d = take (t_size ts) sample" using d copy_bytes_exact [OF len] by auto
  have n': "n = t_seq ts + 1" "t_seq ts + 1 < 2 ^ 64" using n by (auto simp: seq_bump_def split: if_splits)
  have "broker_ok (set_topic t (ts\<lparr>t_data := d, t_seq := n\<rparr>) b)"
    by (rule set_topic_ok [OF ok ts]) (use d' n' in simp_all)
  then show ?thesis
    using ts d' n' by (simp add: b') (simp add: notify_topic_def set_topic_def topic_ctxs_def)
qed

lemma write_sample_Ok:
  assumes ok: "broker_ok b" and ts: "b_topics b t = Some ts" and "t_size ts \<le> length sample"
    and "t_seq ts + 1 < 2 ^ 64"
  shows "\<exists>b'. write_sample t sample b = Ok b'"
proof -
  have len: "length (t_data ts) = t_size ts" using broker_okD(2) [OF ok ts] by (simp add: topic_ok_def)
  with assms show ?thesis by (simp add: write_sample_def copy_bytes_def seq_bump_def)
qed

text \<open>Changing a subscriber within its topic, without touching its registration.\<close>

lemma set_sub_ok:
  assumes ok: "broker_ok b" and s: "b_subs b c = Some s"
    and "s_topic s' = s_topic s" and "s_registered s' = s_registered s" and "s_size s' = s_size s"
    and "\<And>ts. b_topics b (s_topic s) = Some ts \<Longrightarrow> s_last_seen s' \<le> t_seq ts"
  shows "broker_ok (set_sub c s' b)"
proof -
  let ?b = "set_sub c s' b"
  have "topic_ok ?b u us" if us: "b_topics ?b u = Some us" for u us
  proof -
    have eq: "(\<exists>x. b_subs ?b d = Some x \<and> s_registered x \<and> s_topic x = u) \<longleftrightarrow>
        (\<exists>x. b_subs b d = Some x \<and> s_registered x \<and> s_topic x = u)" for d
      using s assms(3,4) by (cases "d = c") (auto simp: set_sub_def)
    have "b_topics b u = Some us" using us by (simp add: set_sub_def)
    from broker_okD(2) [OF ok this] show ?thesis unfolding topic_ok_def eq by (simp add: set_sub_def)
  qed
  moreover have "sub_ok ?b d x" if "b_subs ?b d = Some x" for d x
    using that broker_okD(3) [OF ok s] broker_okD(3) [OF ok, of d x] assms(3,5,6)
    by (cases "d = c") (auto simp: set_sub_def sub_ok_def)
  moreover have "b_topics ?b u \<noteq> None" if "b_names ?b n = Some u" for n u
    using that broker_okD(1) [OF ok, of n u] by (auto simp: set_sub_def)
  ultimately show ?thesis by (simp add: broker_ok_def)
qed

text \<open>Adding a callback to, and removing it from, its topic.\<close>

definition set_reg :: "bool \<Rightarrow> addr \<Rightarrow> sub_cb \<Rightarrow> topic_state \<Rightarrow> addr list \<Rightarrow> broker \<Rightarrow> broker" where
  "set_reg r c s ts cs b =
     set_sub c (s\<lparr>s_registered := r\<rparr>) (set_topic (s_topic s) (ts\<lparr>t_callbacks := cs\<rparr>) b)"

lemma set_reg_ok:
  assumes ok: "broker_ok b" and s: "b_subs b c = Some s" and ts: "b_topics b (s_topic s) = Some ts"
    and cs: "distinct cs" "set cs - {c} = set (t_callbacks ts) - {c}" "c \<in> set cs \<longleftrightarrow> r"
  shows "broker_ok (set_reg r c s ts cs b)"
proof -
  let ?b = "set_reg r c s ts cs b"
  note defs = set_reg_def set_sub_def set_topic_def
  have "topic_ok ?b u us" if us: "b_topics ?b u = Some us" for u us
  proof (cases "u = s_topic s")
    case True
    have old: "topic_ok b (s_topic s) ts" by (rule broker_okD(2) [OF ok ts])
    have "us = ts\<lparr>t_callbacks := cs\<rparr>" using us True by (simp add: defs)
    moreover have "d \<in> set cs \<longleftrightarrow> (\<exists>x. b_subs ?b d = Some x \<and> s_registered x \<and> s_topic x = u)" for d
    proof (cases "d = c")
      case True
      then show ?thesis using cs(3) \<open>u = s_topic s\<close> by (simp add: defs)
    next
      case False
      then have "d \<in> set cs \<longleftrightarrow> d \<in> set (t_callbacks ts)" using cs(2) by auto
      also have "\<dots> \<longleftrightarrow> (\<exists>x. b_subs b d = Some x \<and> s_registered x \<and> s_topic x = u)"
        using old True by (simp add: topic_ok_def)
      finally show ?thesis using False by (simp add: defs)
    qed
    ultimately show ?thesis using old cs(1) True by (simp add: topic_ok_def) (simp add: defs)
  next
    case False
    then have us': "b_topics b u = Some us" using us by (simp add: defs)
    have eq: "(\<exists>x. b_subs ?b d = Some x \<and> s_registered x \<and> s_topic x = u) \<longleftrightarrow>
        (\<exists>x. b_subs b d = Some x \<and> s_registered x \<and> s_topic x = u)" for d
      using s False by (cases "d = c") (auto simp: defs)
    from broker_okD(2) [OF ok us'] show ?thesis unfolding topic_ok_def eq by (simp add: defs)
  qed
  moreover have "sub_ok ?b d x" if "b_subs ?b d = Some x" for d x
    using that broker_okD(3) [OF ok s] broker_okD(3) [OF ok, of d x] ts
    by (cases "d = c") (auto simp: defs sub_ok_def)
  moreover have "b_topics ?b u \<noteq> None" if "b_names ?b n = Some u" for n u
    using that broker_okD(1) [OF ok, of n u] by (auto simp: defs)
  ultimately show ?thesis by (simp add: broker_ok_def)
qed

section \<open>Every operation keeps the invariant\<close>

lemma orb_advertise_ok:
  "broker_ok b \<Longrightarrow> orb_advertise meta initial b = Ok (t, b') \<Longrightarrow> broker_ok b'"
proof -
  assume ok: "broker_ok b" and run: "orb_advertise meta initial b = Ok (t, b')"
  obtain u b1 where tf: "topic_for meta b = (u, b1)" by (cases "topic_for meta b")
  with run have w: "write_sample u initial b1 = Ok b'" by (auto simp: orb_advertise_def)
  from topic_for_ok [OF ok tf] have "broker_ok b1" by simp
  from write_sample_spec [OF this w] show ?thesis by simp
qed

lemma orb_publish_ok: "broker_ok b \<Longrightarrow> orb_publish meta h sample b = Ok (rc, b') \<Longrightarrow> broker_ok b'"
proof -
  assume ok: "broker_ok b" and "orb_publish meta h sample b = Ok (rc, b')"
  then have "write_sample h sample b = Ok b'" by (auto simp: orb_publish_def)
  from write_sample_spec [OF ok this] show ?thesis by simp
qed

lemma sub_cb_new_ok:
  assumes ok: "broker_ok b" and run: "sub_cb_new meta i k ctx b = (c, b')"
  shows "broker_ok b'"
proof -
  obtain t b1 where tf: "topic_for meta b = (t, b1)" by (cases "topic_for meta b")
  from topic_for_ok [OF ok tf] obtain ts where ok1: "broker_ok b1" and ts: "b_topics b1 t = Some ts" by blast
  let ?cb = "\<lparr>s_topic = t, s_last_seen = 0, s_ctx = ctx, s_registered = False, s_size = t_size ts, s_lost = 0\<rparr>"
  have b': "b' = set_sub (b_next b1) ?cb (b1\<lparr>b_next := b_next b1 + 1, b_live := b_live b1 @ [b_next b1]\<rparr>)"
    using run tf ts by (auto simp: sub_cb_new_def Let_def)
  note fresh = fresh_sub [OF ok1]
  have "topic_ok b' u us" if us: "b_topics b' u = Some us" for u us
  proof -
    have eq: "(\<exists>x. b_subs b' d = Some x \<and> s_registered x \<and> s_topic x = u) \<longleftrightarrow>
        (\<exists>x. b_subs b1 d = Some x \<and> s_registered x \<and> s_topic x = u)" for d
      using fresh by (cases "d = b_next b1") (auto simp: b' set_sub_def)
    have "b_topics b1 u = Some us" using us by (simp add: b' set_sub_def)
    from broker_okD(2) [OF ok1 this] show ?thesis unfolding topic_ok_def eq by (simp add: b' set_sub_def)
  qed
  moreover have "sub_ok b' d x" if "b_subs b' d = Some x" for d x
    using that broker_okD(3) [OF ok1, of d x] ts
    by (cases "d = b_next b1") (auto simp: b' set_sub_def sub_ok_def)
  moreover have "b_topics b' u \<noteq> None" if "b_names b' n = Some u" for n u
    using that broker_okD(1) [OF ok1, of n u] by (auto simp: b' set_sub_def)
  ultimately show ?thesis by (simp add: broker_ok_def)
qed

lemma sub_cb_topic:
  assumes "broker_ok b" and "b_subs b c = Some s"
  obtains ts where "b_topics b (s_topic s) = Some ts" and "s_size s = t_size ts"
    and "s_last_seen s \<le> t_seq ts" and "length (t_data ts) = t_size ts"
    and "c \<in> set (t_callbacks ts) \<longleftrightarrow> s_registered s" and "distinct (t_callbacks ts)"
proof -
  from broker_okD(3) [OF assms] obtain ts where ts: "b_topics b (s_topic s) = Some ts"
    "s_size s = t_size ts" "s_last_seen s \<le> t_seq ts" by (auto simp: sub_ok_def)
  from broker_okD(2) [OF assms(1) ts(1)] assms(2)
  have "length (t_data ts) = t_size ts" "c \<in> set (t_callbacks ts) \<longleftrightarrow> s_registered s" "distinct (t_callbacks ts)"
    by (auto simp: topic_ok_def)
  with ts that show thesis by blast
qed

lemma sub_cb_register_ok:
  assumes ok: "broker_ok b" and run: "sub_cb_register c b = Ok (r, b')"
  shows "broker_ok b'"
proof -
  from run obtain s where s: "b_subs b c = Some s" by (auto simp: sub_cb_register_def split: option.splits)
  from sub_cb_topic [OF ok s] obtain ts where ts: "b_topics b (s_topic s) = Some ts"
    "c \<in> set (t_callbacks ts) \<longleftrightarrow> s_registered s" "distinct (t_callbacks ts)" by metis
  show ?thesis
  proof (cases "s_registered s")
    case False
    with run s ts have "b' = set_reg True c s ts (t_callbacks ts @ [c]) b"
      by (auto simp: sub_cb_register_def set_reg_def)
    with set_reg_ok [OF ok s ts(1), of "t_callbacks ts @ [c]" True] ts False show ?thesis by auto
  qed (use run s ok in \<open>simp add: sub_cb_register_def\<close>)
qed

lemma sub_cb_unregister_spec:
  assumes ok: "broker_ok b" and run: "sub_cb_unregister c b = Ok b'"
  shows "broker_ok b' \<and> b_live b' = b_live b \<and> b_names b' = b_names b \<and> b_next b' = b_next b \<and>
    (\<exists>s. b_subs b c = Some s \<and> b_subs b' = (b_subs b)(c \<mapsto> s\<lparr>s_registered := False\<rparr>))"
proof -
  from run obtain s where s: "b_subs b c = Some s" by (auto simp: sub_cb_unregister_def split: option.splits)
  from sub_cb_topic [OF ok s] obtain ts where ts: "b_topics b (s_topic s) = Some ts"
    "distinct (t_callbacks ts)" by metis
  show ?thesis
  proof (cases "s_registered s")
    case True
    with run s ts have "b' = set_reg False c s ts (filter (\<lambda>d. d \<noteq> c) (t_callbacks ts)) b"
      by (auto simp: sub_cb_unregister_def set_reg_def)
    with set_reg_ok [OF ok s ts(1), of "filter (\<lambda>d. d \<noteq> c) (t_callbacks ts)" False] ts s show ?thesis
      by (auto simp: set_reg_def set_sub_def set_topic_def)
  qed (use run s ok in \<open>auto simp: sub_cb_unregister_def\<close>)
qed

lemma sub_cb_delete_ok:
  assumes ok: "broker_ok b" and run: "sub_cb_delete c b = Ok b'"
  shows "broker_ok b'"
proof -
  from run obtain b1 where un: "sub_cb_unregister c b = Ok b1"
    and b': "b' = b1\<lparr>b_live := filter (\<lambda>p. p \<noteq> c) (b_live b1), b_subs := (b_subs b1)(c := None)\<rparr>"
    by (auto simp: sub_cb_delete_def)
  from sub_cb_unregister_spec [OF ok un] obtain s where ok1: "broker_ok b1"
    and s: "b_subs b1 c = Some (s\<lparr>s_registered := False\<rparr>)" by auto
  have "topic_ok b' u us" if us: "b_topics b' u = Some us" for u us
  proof -
    have eq: "(\<exists>x. b_subs b' d = Some x \<and> s_registered x \<and> s_topic x = u) \<longleftrightarrow>
        (\<exists>x. b_subs b1 d = Some x \<and> s_registered x \<and> s_topic x = u)" for d
      using s by (cases "d = c") (auto simp: b')
    have "b_topics b1 u = Some us" using us by (simp add: b')
    from broker_okD(2) [OF ok1 this] show ?thesis unfolding topic_ok_def eq by (simp add: b')
  qed
  moreover have "sub_ok b' d x" if "b_subs b' d = Some x" for d x
    using that broker_okD(3) [OF ok1, of d x] by (auto simp: b' sub_ok_def split: if_splits)
  moreover have "b_topics b' u \<noteq> None" if "b_names b' n = Some u" for n u
    using that broker_okD(1) [OF ok1, of n u] by (auto simp: b')
  ultimately show ?thesis by (simp add: broker_ok_def)
qed

lemma sub_cb_update_eq:
  assumes ok: "broker_ok b" and s: "b_subs b c = Some s" and ts: "b_topics b (s_topic s) = Some ts"
  shows "sub_cb_update c dst b =
    (if s_last_seen s < t_seq ts
     then if length dst < t_size ts then Err OverWrite
          else Ok (Some (t_data ts @ drop (t_size ts) dst),
            set_sub c (s\<lparr>s_lost := s_lost s + skipped_u32 (t_seq ts - s_last_seen s - 1), s_last_seen := t_seq ts\<rparr>) b)
     else Ok (None, b))"
proof -
  from sub_cb_topic [OF ok s] ts have "s_size s = t_size ts" "length (t_data ts) = t_size ts" by auto
  then show ?thesis using s ts
    by (cases "t_seq ts - s_last_seen s - 1 > 0")
       (simp_all add: sub_cb_update_def Let_def copy_bytes_def skipped_u32_def)
qed

lemma sub_cb_update_ok:
  assumes ok: "broker_ok b" and run: "sub_cb_update c dst b = Ok (r, b')"
  shows "broker_ok b'"
proof -
  from run obtain s where s: "b_subs b c = Some s" by (auto simp: sub_cb_update_def split: option.splits)
  from sub_cb_topic [OF ok s] obtain ts where ts: "b_topics b (s_topic s) = Some ts" by metis
  from run have "b' = b \<or> b' = set_sub c (s\<lparr>s_lost := s_lost s + skipped_u32 (t_seq ts - s_last_seen s - 1),
      s_last_seen := t_seq ts\<rparr>) b"
    unfolding sub_cb_update_eq [OF ok s ts] by (auto split: if_splits)
  moreover have "broker_ok (set_sub c (s\<lparr>s_lost := s_lost s + skipped_u32 (t_seq ts - s_last_seen s - 1),
      s_last_seen := t_seq ts\<rparr>) b)"
    by (rule set_sub_ok [OF ok s]) (use ts in simp_all)
  ultimately show ?thesis using ok by auto
qed

lemma sub_cb_lost_take_ok:
  assumes ok: "broker_ok b" and run: "sub_cb_lost_take c b = Ok (r, b')"
  shows "broker_ok b'"
proof -
  from run obtain s where s: "b_subs b c = Some s" and b': "b' = set_sub c (s\<lparr>s_lost := 0\<rparr>) b"
    by (auto simp: sub_cb_lost_take_def split: option.splits)
  show ?thesis unfolding b' by (rule set_sub_ok [OF ok s]) (use sub_cb_topic [OF ok s] in fastforce)+
qed

lemma reset_broker_ok: "broker_ok b \<Longrightarrow> broker_ok (reset_broker b)"
  by (auto simp: broker_ok_def topic_ok_def sub_ok_def reset_broker_def)

section \<open>Reachable brokers\<close>

inductive broker_reach :: "broker \<Rightarrow> bool" where
  reach_new: "broker_reach broker_new"
| reach_advertise: "broker_reach b \<Longrightarrow> orb_advertise meta initial b = Ok (h, b') \<Longrightarrow> broker_reach b'"
| reach_publish: "broker_reach b \<Longrightarrow> orb_publish meta h sample b = Ok (rc, b') \<Longrightarrow> broker_reach b'"
| reach_unadvertise: "broker_reach b \<Longrightarrow> orb_unadvertise h b = Ok b' \<Longrightarrow> broker_reach b'"
| reach_new_cb: "broker_reach b \<Longrightarrow> sub_cb_new meta interval_us instance' ctx b = (c, b') \<Longrightarrow> broker_reach b'"
| reach_register: "broker_reach b \<Longrightarrow> sub_cb_register c b = Ok (r, b') \<Longrightarrow> broker_reach b'"
| reach_update: "broker_reach b \<Longrightarrow> sub_cb_update c dst b = Ok (d, b') \<Longrightarrow> broker_reach b'"
| reach_lost_take: "broker_reach b \<Longrightarrow> sub_cb_lost_take c b = Ok (n, b') \<Longrightarrow> broker_reach b'"
| reach_unregister: "broker_reach b \<Longrightarrow> sub_cb_unregister c b = Ok b' \<Longrightarrow> broker_reach b'"
| reach_delete: "broker_reach b \<Longrightarrow> sub_cb_delete c b = Ok b' \<Longrightarrow> broker_reach b'"
| reach_reset: "broker_reach b \<Longrightarrow> broker_reach (reset_broker b)"

lemmas broker_ok_ops = broker_ok_new orb_advertise_ok orb_publish_ok sub_cb_new_ok sub_cb_register_ok
  sub_cb_update_ok sub_cb_lost_take_ok sub_cb_delete_ok reset_broker_ok

lemma broker_reach_ok: "broker_reach b \<Longrightarrow> broker_ok b"
proof (induction rule: broker_reach.induct)
  case (reach_unadvertise b h b')
  then show ?case by (simp add: orb_unadvertise_def split: if_splits)
next
  case (reach_unregister b c b')
  then show ?case using sub_cb_unregister_spec by blast
next
  case reach_new
  show ?case by (rule broker_ok_new)
next
  case (reach_advertise b meta initial h b')
  from this(3,2) show ?case by (rule orb_advertise_ok)
next
  case (reach_publish b meta h sample rc b')
  from this(3,2) show ?case by (rule orb_publish_ok)
next
  case (reach_new_cb b meta interval_us instance' ctx c b')
  from this(3,2) show ?case by (rule sub_cb_new_ok)
next
  case (reach_register b c r b')
  from this(3,2) show ?case by (rule sub_cb_register_ok)
next
  case (reach_update b c dst d b')
  from this(3,2) show ?case by (rule sub_cb_update_ok)
next
  case (reach_lost_take b c n b')
  from this(3,2) show ?case by (rule sub_cb_lost_take_ok)
next
  case (reach_delete b c b')
  from this(3,2) show ?case by (rule sub_cb_delete_ok)
next
  case (reach_reset b)
  from this(2) show ?case by (rule reset_broker_ok)
qed

text \<open>A run of publications through one handle.\<close>

fun publish_all :: "orb_metadata \<Rightarrow> addr \<Rightarrow> bytes list \<Rightarrow> broker \<Rightarrow> orb_fault + broker" where
  "publish_all meta h [] b = Ok b"
| "publish_all meta h (x # xs) b = res_bind (orb_publish meta h x b) (\<lambda>(rc, b). publish_all meta h xs b)"

lemma publish_all_spec:
  assumes "broker_ok b" and "b_topics b h = Some ts" and "samples \<noteq> []"
    and "\<And>x. x \<in> set samples \<Longrightarrow> t_size ts \<le> length x" and "t_seq ts + length samples < 2 ^ 64"
  shows "\<exists>b'. publish_all meta h samples b = Ok b' \<and> broker_ok b' \<and> b_subs b' = b_subs b \<and>
    b_topics b' h = Some (ts\<lparr>t_data := take (t_size ts) (last samples), t_seq := t_seq ts + length samples\<rparr>)"
  using assms
proof (induction samples arbitrary: b ts)
  case (Cons x xs)
  from write_sample_Ok [OF Cons.prems(1,2), of x] Cons.prems(4,5) obtain b1
    where w: "write_sample h x b = Ok b1" by auto
  from write_sample_spec [OF Cons.prems(1) this] Cons.prems(2)
  have b1: "broker_ok b1" "b_subs b1 = b_subs b"
    "b_topics b1 h = Some (ts\<lparr>t_data := take (t_size ts) x, t_seq := t_seq ts + 1\<rparr>)" by auto
  show ?case
  proof (cases "xs = []")
    case False
    from Cons.IH [OF b1(1,3) False] Cons.prems(4,5) b1(2) w False show ?thesis
      by (auto simp: orb_publish_def)
  qed (use w b1 in \<open>simp add: orb_publish_def\<close>)
qed simp

section \<open>Properties\<close>

text \<open>
  C12: in every state the broker can reach, each topic's buffer has the topic's size, its callback list
  holds exactly the registered subscribers of the topic, each once, and every subscriber handle is
  alive, refers to a topic of the same size, and has not seen a sequence number the topic has not
  reached: so an update through a live handle reads and writes within bounds, and only a destination
  that is too short is a fault.
\<close>

theorem broker_invariant:
  assumes "broker_reach b"
  shows "broker_ok b \<and>
    (\<forall>c dst. c \<in> dom (b_subs b) \<longrightarrow> t_size (the (b_topics b (s_topic (the (b_subs b c))))) \<le> length dst \<longrightarrow>
       (\<exists>r b'. sub_cb_update c dst b = Ok (r, b') \<and> broker_reach b'))"
proof (intro conjI allI impI)
  show ok: "broker_ok b" by (rule broker_reach_ok [OF assms])
  fix c and dst :: bytes
  assume "c \<in> dom (b_subs b)" and len: "t_size (the (b_topics b (s_topic (the (b_subs b c))))) \<le> length dst"
  then obtain s where s: "b_subs b c = Some s" by auto
  from sub_cb_topic [OF ok s] obtain ts where ts: "b_topics b (s_topic s) = Some ts" by metis
  from len s ts have "\<exists>r b'. sub_cb_update c dst b = Ok (r, b')"
    by (simp add: sub_cb_update_eq [OF ok s ts])
  then show "\<exists>r b'. sub_cb_update c dst b = Ok (r, b') \<and> broker_reach b'"
    using reach_update [OF assms] by blast
qed

text \<open>
  C24: a subscriber that reads after any positive number of publications gets the bytes of the last
  one, once: the second read finds nothing. Its lost counter grows by one less than the sequence
  numbers it stepped over.
\<close>

theorem publish_then_update:
  fixes samples :: "bytes list" and dst :: bytes
  assumes "broker_reach b" and "b_subs b c = Some s" and "b_topics b (s_topic s) = Some ts"
    and "samples \<noteq> []" and "\<And>x. x \<in> set samples \<Longrightarrow> length x = t_size ts"
    and "t_seq ts + length samples < 2 ^ 64" and "length dst = t_size ts"
  shows "\<exists>b1 b2. publish_all meta (s_topic s) samples b = Ok b1 \<and>
    sub_cb_update c dst b1 = Ok (Some (last samples), b2) \<and>
    sub_cb_update c dst b2 = Ok (None, b2) \<and>
    (\<exists>b3. sub_cb_lost_take c b2 =
       Ok (s_lost s + skipped_u32 (t_seq ts + length samples - s_last_seen s - 1), b3))"
proof -
  note ok = broker_reach_ok [OF assms(1)]
  from publish_all_spec [OF ok assms(3,4) _ assms(6), where meta = meta] assms(5) obtain b1
    where p: "publish_all meta (s_topic s) samples b = Ok b1" and ok1: "broker_ok b1"
      and s1: "b_subs b1 c = Some s"
      and ts1: "b_topics b1 (s_topic s) = Some (ts\<lparr>t_data := take (t_size ts) (last samples), t_seq := t_seq ts + length samples\<rparr>)"
    using assms(2) by auto
  have len: "length (last samples) = t_size ts" using assms(4,5) by simp
  have "s_last_seen s \<le> t_seq ts" using sub_cb_topic [OF ok assms(2)] assms(3) by fastforce
  then have seen: "s_last_seen s < t_seq ts + length samples" using assms(4) by (simp add: le_less_trans)
  obtain b2 where u: "sub_cb_update c dst b1 = Ok (Some (last samples), b2)"
    and b2: "b2 = set_sub c (s\<lparr>s_lost := s_lost s + skipped_u32 (t_seq ts + length samples - s_last_seen s - 1),
        s_last_seen := t_seq ts + length samples\<rparr>) b1"
    using seen len assms(7) by (simp add: sub_cb_update_eq [OF ok1 s1 ts1])
  have "sub_cb_update c dst b2 = Ok (None, b2)"
    using ts1 by (simp add: b2 sub_cb_update_def set_sub_def Let_def)
  moreover have "\<exists>b3. sub_cb_lost_take c b2 =
      Ok (s_lost s + skipped_u32 (t_seq ts + length samples - s_last_seen s - 1), b3)"
    by (simp add: b2 sub_cb_lost_take_def set_sub_def)
  ultimately show ?thesis using p u by blast
qed

text \<open>A topic of two bytes with one registered subscriber.\<close>

definition gyro_meta :: orb_metadata where
  "gyro_meta = \<lparr>o_name = ''gyro'', o_size = 2, o_size_no_padding = 2, o_message_hash = 0, o_id = 0, o_queue = 1\<rparr>"

definition gyro_sub :: "addr \<times> broker" where
  "gyro_sub = sub_cb_new gyro_meta 0 0 7 broker_new"

lemma gyro_sub_eq:
  "gyro_sub = (1, \<lparr>b_names = [''gyro'' \<mapsto> 0], b_topics = [0 \<mapsto> new_topic gyro_meta],
     b_subs = [1 \<mapsto> \<lparr>s_topic = 0, s_last_seen = 0, s_ctx = 7, s_registered = False, s_size = 2, s_lost = 0\<rparr>],
     b_next = 2, b_live = [1], b_woken = []\<rparr>)"
  by (simp add: gyro_sub_def sub_cb_new_def topic_for_def broker_new_def set_topic_def set_sub_def
      new_topic_def gyro_meta_def Let_def)

lemma gyro_sub_reach: "broker_reach (snd gyro_sub)"
  by (rule reach_new_cb [OF reach_new, of gyro_meta 0 0 7 1])
     (simp add: gyro_sub_eq [unfolded gyro_sub_def] gyro_sub_eq)

theorem broker_invariant_witness:
  "\<exists>r b'. sub_cb_update 1 [0, 0] (snd gyro_sub) = Ok (r, b') \<and> broker_reach b'"
proof -
  have "\<exists>r b'. sub_cb_update 1 dst (snd gyro_sub) = Ok (r, b') \<and> broker_reach b'" if "length dst = 2" for dst
    using broker_invariant [OF gyro_sub_reach] that by (simp add: gyro_sub_eq new_topic_def gyro_meta_def)
  then show ?thesis by simp
qed

theorem publish_then_update_witness:
  "\<exists>b1 b2. publish_all gyro_meta 0 [[1, 2], [3, 4], [5, 6]] (snd gyro_sub) = Ok b1 \<and>
     sub_cb_update 1 [0, 0] b1 = Ok (Some [5, 6], b2) \<and> sub_cb_update 1 [0, 0] b2 = Ok (None, b2) \<and>
     (\<exists>b3. sub_cb_lost_take 1 b2 = Ok (2, b3))"
proof -
  let ?s = "\<lparr>s_topic = 0, s_last_seen = 0, s_ctx = 7, s_registered = False, s_size = 2, s_lost = 0\<rparr>"
  have s: "b_subs (snd gyro_sub) 1 = Some ?s" and ts: "b_topics (snd gyro_sub) (s_topic ?s) = Some (new_topic gyro_meta)"
    by (simp_all add: gyro_sub_eq)
  have "length x = t_size (new_topic gyro_meta)" if "x \<in> set [[1, 2], [3, 4], [5, 6]]" for x :: bytes
    using that by (auto simp: new_topic_def gyro_meta_def)
  from publish_then_update [OF gyro_sub_reach s ts _ this, where samples = "[[1, 2], [3, 4], [5, 6]]" and dst = "[0, 0]" and meta = gyro_meta]
  show ?thesis by (simp del: publish_all.simps add: new_topic_def gyro_meta_def skipped_u32_def)
qed

text \<open>
  A publication fires the callbacks of exactly the subscribers that are registered on the topic
  at that moment, each once and each still alive, and a deleted subscriber is in no callback list:
  no callback reaches a subscription that has been dropped.
\<close>

theorem publish_wakes_registered:
  assumes "broker_reach b" and "orb_publish meta h sample b = Ok (rc, b')"
  shows "\<exists>cs. b_woken b' = b_woken b @ map (\<lambda>c. s_ctx (the (b_subs b c))) cs \<and> distinct cs \<and>
    set cs = {c. \<exists>s. b_subs b c = Some s \<and> s_registered s \<and> s_topic s = h} \<and> set cs \<subseteq> set (b_live b) \<and>
    (\<forall>c b''. sub_cb_delete c b = Ok b'' \<longrightarrow> (\<forall>t ts. b_topics b'' t = Some ts \<longrightarrow> c \<notin> set (t_callbacks ts)))"
proof -
  note ok = broker_reach_ok [OF assms(1)]
  from assms(2) have w: "write_sample h sample b = Ok b'" by (auto simp: orb_publish_def)
  from write_sample_spec [OF ok this] obtain ts where ts: "b_topics b h = Some ts"
    and woken: "b_woken b' = b_woken b @ topic_ctxs b h" by auto
  from broker_okD(2) [OF ok ts] have cbs: "distinct (t_callbacks ts)"
    "set (t_callbacks ts) = {c. \<exists>s. b_subs b c = Some s \<and> s_registered s \<and> s_topic s = h}"
    by (auto simp: topic_ok_def)
  moreover have "set (t_callbacks ts) \<subseteq> set (b_live b)"
    using broker_okD(3) [OF ok] by (auto simp: cbs(2) sub_ok_def)
  moreover have "c \<notin> set (t_callbacks us)" if "sub_cb_delete c b = Ok b''" "b_topics b'' t = Some us" for c b'' t us
  proof -
    have "b_subs b'' c = None" using that(1) by (auto simp: sub_cb_delete_def)
    moreover have "broker_ok b''" by (rule sub_cb_delete_ok [OF ok that(1)])
    ultimately show ?thesis using broker_okD(2) [of b'' t us] that(2) by (auto simp: topic_ok_def)
  qed
  ultimately show ?thesis using woken ts by (auto simp: topic_ctxs_def)
qed

definition gyro_registered :: "broker" where
  "gyro_registered = (case sub_cb_register 1 (snd gyro_sub) of Inr (r, b) \<Rightarrow> b | Inl e \<Rightarrow> broker_new)"

lemma gyro_registered_Ok: "sub_cb_register 1 (snd gyro_sub) = Ok (True, gyro_registered)"
  by (simp add: gyro_registered_def gyro_sub_eq sub_cb_register_def new_topic_def)

lemma gyro_publish:
  "\<exists>b. orb_publish gyro_meta 0 [1, 2] gyro_registered = Ok (0, b) \<and> b_woken b = [7]"
  by (simp add: gyro_registered_def gyro_sub_eq sub_cb_register_def new_topic_def orb_publish_def
      write_sample_def copy_bytes_def seq_bump_def notify_topic_def set_topic_def set_sub_def gyro_meta_def)

theorem publish_wakes_registered_witness:
  "\<exists>b cs. orb_publish gyro_meta 0 [1, 2] gyro_registered = Ok (0, b) \<and>
     b_woken b = map (\<lambda>c. s_ctx (the (b_subs gyro_registered c))) cs \<and> distinct cs \<and>
     set cs \<subseteq> set (b_live gyro_registered)"
proof -
  obtain b where p: "orb_publish gyro_meta 0 [1, 2] gyro_registered = Ok (0, b)" using gyro_publish by blast
  have "b_woken gyro_registered = []"
    by (simp add: gyro_registered_def gyro_sub_eq sub_cb_register_def new_topic_def set_topic_def set_sub_def)
  with publish_wakes_registered [OF reach_register [OF gyro_sub_reach gyro_registered_Ok] p] p show ?thesis by auto
qed

end
