(* ===== verification/Uorb_Api.thy ===== *)
theory Uorb_Api
  imports Uorb_Broker Notify
begin

text \<open>
  The wrappers of \<open>crates/px4-uorb\<close> over the broker: \<open>Publication<T>\<close> (\<open>src/pub_.rs\<close>),
  \<open>Subscription<T>\<close> with \<open>recv\<close> (\<open>src/sub.rs\<close>), the type-erased \<open>RawPublication\<close> and
  \<open>RawSubscription\<close> (\<open>src/raw.rs\<close>). A typed wrapper takes \<open>T::metadata()\<close> as an argument and a
  \<open>T::Msg\<close> as its bytes. A null pointer is \<open>None\<close>; passing it where the broker follows a pointer is
  the fault \<open>BadHandle\<close>. These operations run alone here; \<open>Uorb_Race\<close> interleaves them.
\<close>

section \<open>Publication\<close>

datatype pub_error = PubFailed

record publication =
  pb_handle :: "addr option"

definition publication_new :: publication where
  "publication_new = \<lparr>pb_handle = None\<rparr>"

text \<open>\<open>compare_exchange(null, h)\<close> and \<open>swap(null)\<close> on the handle.\<close>

definition handle_cas :: "addr \<Rightarrow> addr option \<Rightarrow> bool \<times> addr option" where
  "handle_cas h p = (if p = None then (True, Some h) else (False, p))"

definition null_unadvertise :: "addr option \<Rightarrow> broker \<Rightarrow> orb_fault + broker" where
  "null_unadvertise h b = (case h of None \<Rightarrow> Ok b | Some h \<Rightarrow> orb_unadvertise h b)"

definition null_publish :: "orb_metadata \<Rightarrow> addr option \<Rightarrow> bytes \<Rightarrow> int orb" where
  "null_publish meta h sample b = (case h of None \<Rightarrow> Err BadHandle | Some h \<Rightarrow> orb_publish meta h sample b)"

definition ensure_advertised :: "orb_metadata \<Rightarrow> bytes \<Rightarrow> publication \<times> broker \<Rightarrow> orb_fault + publication \<times> broker" where
  "ensure_advertised meta initial = (\<lambda>(p, b).
     if pb_handle p = None
     then res_bind (orb_advertise meta initial b) (\<lambda>(h, b).
            case handle_cas h (pb_handle p) of
              (True, v) \<Rightarrow> Ok (p\<lparr>pb_handle := v\<rparr>, b)
            | (False, v) \<Rightarrow> res_bind (orb_unadvertise h b) (\<lambda>b. Ok (p, b)))
     else Ok (p, b))"

definition pub_advertise :: "orb_metadata \<Rightarrow> bytes \<Rightarrow> publication \<times> broker \<Rightarrow> orb_fault + publication \<times> broker" where
  "pub_advertise meta initial pb = ensure_advertised meta initial pb"

definition pub_advertise_multi ::
  "orb_metadata \<Rightarrow> bytes \<Rightarrow> int \<Rightarrow> publication \<times> broker \<Rightarrow> orb_fault + int \<times> publication \<times> broker" where
  "pub_advertise_multi meta initial requested_instance = (\<lambda>(p, b).
     if pb_handle p = None
     then res_bind (orb_advertise_multi meta initial requested_instance b) (\<lambda>((h, instance'), b).
            case handle_cas h (pb_handle p) of
              (True, v) \<Rightarrow> Ok (instance', p\<lparr>pb_handle := v\<rparr>, b)
            | (False, v) \<Rightarrow> res_bind (orb_unadvertise h b) (\<lambda>b. Ok (instance', p, b)))
     else Ok (requested_instance, p, b))"

definition pub_unadvertise :: "publication \<times> broker \<Rightarrow> orb_fault + publication \<times> broker" where
  "pub_unadvertise = (\<lambda>(p, b).
     let h = pb_handle p; p = p\<lparr>pb_handle := None\<rparr>
     in res_bind (null_unadvertise h b) (\<lambda>b. Ok (p, b)))"

definition pub_publish ::
  "orb_metadata \<Rightarrow> bytes \<Rightarrow> publication \<times> broker \<Rightarrow> orb_fault + (pub_error + unit) \<times> publication \<times> broker" where
  "pub_publish meta msg pb =
     res_bind (ensure_advertised meta msg pb) (\<lambda>(p, b).
       res_bind (null_publish meta (pb_handle p) msg b) (\<lambda>(rc, b).
         if rc = 0 then Ok (Ok (), p, b) else Ok (Err PubFailed, p, b)))"

text \<open>\<open>size_of::<T::Msg>()\<close> is an argument.\<close>

definition pub_publish_zeroed ::
  "nat \<Rightarrow> orb_metadata \<Rightarrow> publication \<times> broker \<Rightarrow> orb_fault + (pub_error + unit) \<times> publication \<times> broker" where
  "pub_publish_zeroed msg_size meta pb = pub_publish meta (replicate msg_size 0) pb"

definition pub_drop :: "publication \<times> broker \<Rightarrow> orb_fault + publication \<times> broker" where
  "pub_drop = (\<lambda>(p, b).
     let h = pb_handle p; p = p\<lparr>pb_handle := None\<rparr>
     in res_bind (null_unadvertise h b) (\<lambda>b. Ok (p, b)))"

section \<open>Subscription\<close>

text \<open>\<open>sb_addr\<close> is the address of the embedded \<open>AtomicWaker\<close>, the context of the callback.\<close>

record subscription =
  sb_cb :: "addr option"
  sb_addr :: addr
  sb_waker :: aw
  sb_interval_us :: nat
  sb_instance :: nat

definition sub_new_with :: "nat \<Rightarrow> nat \<Rightarrow> addr \<Rightarrow> subscription" where
  "sub_new_with interval_us instance' ad =
     \<lparr>sb_cb = None, sb_addr = ad, sb_waker = aw_new, sb_interval_us = interval_us, sb_instance = instance'\<rparr>"

definition sub_new :: "addr \<Rightarrow> subscription" where
  "sub_new = sub_new_with 0 0"

definition sub_with_interval_us :: "nat \<Rightarrow> addr \<Rightarrow> subscription" where
  "sub_with_interval_us interval_us = sub_new_with interval_us 0"

definition sub_with_instance :: "nat \<Rightarrow> addr \<Rightarrow> subscription" where
  "sub_with_instance instance' = sub_new_with 0 instance'"

definition ensure_registered :: "orb_metadata \<Rightarrow> subscription \<times> broker \<Rightarrow> orb_fault + subscription \<times> broker" where
  "ensure_registered meta = (\<lambda>(s, b).
     if sb_cb s \<noteq> None then Ok (s, b)
     else case sub_cb_new meta (sb_interval_us s) (sb_instance s) (sb_addr s) b of
            (cb, b) \<Rightarrow> res_bind (sub_cb_register cb b) (\<lambda>(_, b). Ok (s\<lparr>sb_cb := Some cb\<rparr>, b)))"

text \<open>\<open>buf\<close> is the uninitialised buffer of \<open>size_of::<T::Msg>()\<close> bytes.\<close>

definition sub_try_recv ::
  "orb_metadata \<Rightarrow> bytes \<Rightarrow> subscription \<times> broker \<Rightarrow> orb_fault + bytes option \<times> subscription \<times> broker" where
  "sub_try_recv meta buf sb =
     res_bind (ensure_registered meta sb) (\<lambda>(s, b).
       case sb_cb s of
         None \<Rightarrow> Ok (None, s, b)
       | Some cb \<Rightarrow> res_bind (sub_cb_update cb buf b) (\<lambda>(updated, b). Ok (updated, s, b)))"

definition sub_register_waker ::
  "orb_metadata \<Rightarrow> nat \<Rightarrow> waker \<Rightarrow> subscription \<times> broker \<Rightarrow> orb_fault + subscription \<times> broker" where
  "sub_register_waker meta t w sb =
     res_bind (ensure_registered meta sb)
       (\<lambda>(s, b). Ok (s\<lparr>sb_waker := aw_run t (aw_register t w (sb_waker s))\<rparr>, b))"

definition sub_recv_poll ::
  "orb_metadata \<Rightarrow> nat \<Rightarrow> waker \<Rightarrow> bytes \<Rightarrow> subscription \<times> broker \<Rightarrow> orb_fault + bytes poll \<times> subscription \<times> broker" where
  "sub_recv_poll meta t w buf sb =
     res_bind (sub_try_recv meta buf sb) (\<lambda>(r, s, b).
       case r of
         Some m \<Rightarrow> Ok (Ready m, s, b)
       | None \<Rightarrow>
           let s = s\<lparr>sb_waker := aw_run t (aw_register t w (sb_waker s))\<rparr>
           in res_bind (sub_try_recv meta buf (s, b)) (\<lambda>(r, s, b).
                case r of
                  Some m \<Rightarrow> Ok (Ready m, s, b)
                | None \<Rightarrow> Ok (Pending, s, b)))"

definition wake_trampoline :: "nat \<Rightarrow> subscription \<Rightarrow> subscription" where
  "wake_trampoline t s = s\<lparr>sb_waker := aw_run t (aw_wake t (sb_waker s))\<rparr>"

definition sub_drop :: "subscription \<times> broker \<Rightarrow> orb_fault + subscription \<times> broker" where
  "sub_drop = (\<lambda>(s, b).
     let cb = sb_cb s; s = s\<lparr>sb_cb := None\<rparr>
     in case cb of
          None \<Rightarrow> Ok (s, b)
        | Some cb \<Rightarrow> res_bind (sub_cb_delete cb b) (\<lambda>b. Ok (s, b)))"

section \<open>The type-erased wrappers\<close>

datatype raw_pub_error = RawFailed | RawSizeMismatch

record raw_publication = publication +
  rp_metadata :: orb_metadata

definition raw_publication_new :: "orb_metadata \<Rightarrow> raw_publication" where
  "raw_publication_new meta = \<lparr>pb_handle = None, rp_metadata = meta\<rparr>"

definition raw_advertise_multi ::
  "bytes \<Rightarrow> int \<Rightarrow> raw_publication \<times> broker \<Rightarrow> orb_fault + (raw_pub_error + int) \<times> raw_publication \<times> broker" where
  "raw_advertise_multi initial requested_instance = (\<lambda>(p, b).
     if length initial \<noteq> unat (o_size (rp_metadata p)) then Ok (Err RawSizeMismatch, p, b)
     else if pb_handle p = None
     then res_bind (orb_advertise_multi (rp_metadata p) initial requested_instance b) (\<lambda>((h, instance'), b).
            case handle_cas h (pb_handle p) of
              (True, v) \<Rightarrow> Ok (Ok instance', p\<lparr>pb_handle := v\<rparr>, b)
            | (False, v) \<Rightarrow> res_bind (orb_unadvertise h b) (\<lambda>b. Ok (Ok instance', p, b)))
     else Ok (Ok requested_instance, p, b))"

definition raw_unadvertise :: "raw_publication \<times> broker \<Rightarrow> orb_fault + raw_publication \<times> broker" where
  "raw_unadvertise = (\<lambda>(p, b).
     let h = pb_handle p; p = p\<lparr>pb_handle := None\<rparr>
     in res_bind (null_unadvertise h b) (\<lambda>b. Ok (p, b)))"

definition raw_ensure_advertised ::
  "bytes \<Rightarrow> raw_publication \<times> broker \<Rightarrow> orb_fault + raw_publication \<times> broker" where
  "raw_ensure_advertised initial = (\<lambda>(p, b).
     if pb_handle p = None
     then res_bind (orb_advertise (rp_metadata p) initial b) (\<lambda>(h, b).
            case handle_cas h (pb_handle p) of
              (True, v) \<Rightarrow> Ok (p\<lparr>pb_handle := v\<rparr>, b)
            | (False, v) \<Rightarrow> res_bind (orb_unadvertise h b) (\<lambda>b. Ok (p, b)))
     else Ok (p, b))"

definition raw_publish ::
  "bytes \<Rightarrow> raw_publication \<times> broker \<Rightarrow> orb_fault + (raw_pub_error + unit) \<times> raw_publication \<times> broker" where
  "raw_publish data = (\<lambda>(p, b).
     if length data \<noteq> unat (o_size (rp_metadata p)) then Ok (Err RawSizeMismatch, p, b)
     else res_bind (raw_ensure_advertised data (p, b)) (\<lambda>(p, b).
       res_bind (null_publish (rp_metadata p) (pb_handle p) data b) (\<lambda>(rc, b).
         if rc = 0 then Ok (Ok (), p, b) else Ok (Err RawFailed, p, b))))"

definition raw_pub_drop :: "raw_publication \<times> broker \<Rightarrow> orb_fault + raw_publication \<times> broker" where
  "raw_pub_drop = (\<lambda>(p, b).
     let h = pb_handle p; p = p\<lparr>pb_handle := None\<rparr>
     in res_bind (null_unadvertise h b) (\<lambda>b. Ok (p, b)))"

record raw_subscription = subscription +
  rs_metadata :: orb_metadata

definition raw_sub_new_with :: "orb_metadata \<Rightarrow> nat \<Rightarrow> nat \<Rightarrow> addr \<Rightarrow> raw_subscription" where
  "raw_sub_new_with meta interval_us instance' ad =
     \<lparr>sb_cb = None, sb_addr = ad, sb_waker = aw_new, sb_interval_us = interval_us, sb_instance = instance',
      rs_metadata = meta\<rparr>"

definition raw_sub_new :: "orb_metadata \<Rightarrow> addr \<Rightarrow> raw_subscription" where
  "raw_sub_new meta = raw_sub_new_with meta 0 0"

definition raw_sub_with_instance :: "orb_metadata \<Rightarrow> nat \<Rightarrow> addr \<Rightarrow> raw_subscription" where
  "raw_sub_with_instance meta instance' = raw_sub_new_with meta 0 instance'"

definition raw_ensure_registered :: "raw_subscription \<times> broker \<Rightarrow> orb_fault + raw_subscription \<times> broker" where
  "raw_ensure_registered = (\<lambda>(s, b).
     if sb_cb s \<noteq> None then Ok (s, b)
     else case sub_cb_new (rs_metadata s) (sb_interval_us s) (sb_instance s) (sb_addr s) b of
            (cb, b) \<Rightarrow> res_bind (sub_cb_register cb b) (\<lambda>(_, b). Ok (s\<lparr>sb_cb := Some cb\<rparr>, b)))"

text \<open>The result is \<open>Some size\<close> or \<open>None\<close>, and the buffer as it is left.\<close>

definition raw_try_recv ::
  "bytes \<Rightarrow> raw_subscription \<times> broker \<Rightarrow> orb_fault + (nat option \<times> bytes) \<times> raw_subscription \<times> broker" where
  "raw_try_recv buf = (\<lambda>(s, b).
     let size' = unat (o_size (rs_metadata s))
     in if length buf < size' then Ok ((None, buf), s, b)
        else res_bind (raw_ensure_registered (s, b)) (\<lambda>(s, b).
          case sb_cb s of
            None \<Rightarrow> Ok ((None, buf), s, b)
          | Some cb \<Rightarrow> res_bind (sub_cb_update cb buf b) (\<lambda>(updated, b).
              case updated of
                Some d \<Rightarrow> Ok ((Some size', d), s, b)
              | None \<Rightarrow> Ok ((None, buf), s, b))))"

definition raw_register_waker ::
  "nat \<Rightarrow> waker \<Rightarrow> raw_subscription \<times> broker \<Rightarrow> orb_fault + raw_subscription \<times> broker" where
  "raw_register_waker t w sb =
     res_bind (raw_ensure_registered sb)
       (\<lambda>(s, b). Ok (s\<lparr>sb_waker := aw_run t (aw_register t w (sb_waker s))\<rparr>, b))"

definition raw_missed_count :: "raw_subscription \<times> broker \<Rightarrow> orb_fault + 32 word \<times> broker" where
  "raw_missed_count = (\<lambda>(s, b).
     case sb_cb s of
       None \<Rightarrow> Ok (0, b)
     | Some cb \<Rightarrow> sub_cb_lost_take cb b)"

definition raw_sub_drop :: "raw_subscription \<times> broker \<Rightarrow> orb_fault + raw_subscription \<times> broker" where
  "raw_sub_drop = (\<lambda>(s, b).
     let cb = sb_cb s; s = s\<lparr>sb_cb := None\<rparr>
     in case cb of
          None \<Rightarrow> Ok (s, b)
        | Some cb \<Rightarrow> res_bind (sub_cb_delete cb b) (\<lambda>b. Ok (s, b)))"

section \<open>Running alone on a consistent broker\<close>

text \<open>The metadata agrees with the topic of its name, and the sequence number has room for \<open>k\<close> more.\<close>

definition meta_fits :: "nat \<Rightarrow> orb_metadata \<Rightarrow> broker \<Rightarrow> bool" where
  "meta_fits k meta b \<longleftrightarrow> k < 2 ^ 64 \<and> (\<forall>t ts. b_names b (o_name meta) = Some t \<longrightarrow> b_topics b t = Some ts \<longrightarrow>
     t_size ts = unat (o_size meta) \<and> t_seq ts + k < 2 ^ 64)"

definition on_topic :: "orb_metadata \<Rightarrow> addr option \<Rightarrow> broker \<Rightarrow> bool" where
  "on_topic meta h b \<longleftrightarrow> (h = None \<or> b_names b (o_name meta) = h)"

definition subscribed :: "orb_metadata \<Rightarrow> subscription \<Rightarrow> broker \<Rightarrow> bool" where
  "subscribed meta s b \<longleftrightarrow> (\<exists>cb x. sb_cb s = Some cb \<and> b_subs b cb = Some x \<and> s_registered x \<and>
     s_ctx x = sb_addr s \<and> b_names b (o_name meta) = Some (s_topic x))"

lemma topic_for_fits:
  assumes ok: "broker_ok b" and fits: "meta_fits k meta b" and run: "topic_for meta b = (t, b')"
  shows "meta_fits k meta b' \<and>
    (\<exists>ts. b_topics b' t = Some ts \<and> t_size ts = unat (o_size meta) \<and> t_seq ts + k < 2 ^ 64)"
proof -
  from topic_for_ok [OF ok run] obtain ts where ts: "b_topics b' t = Some ts" and n: "b_names b' (o_name meta) = Some t"
    by blast
  have "t_size ts = unat (o_size meta) \<and> t_seq ts + k < 2 ^ 64"
  proof (cases "b_names b (o_name meta)")
    case None
    with run ts have "ts = new_topic meta" by (auto simp: topic_for_def set_topic_def)
    with fits show ?thesis by (simp add: new_topic_def meta_fits_def)
  next
    case (Some u)
    with run ts fits show ?thesis by (auto simp: topic_for_def meta_fits_def)
  qed
  with ts n fits show ?thesis by (simp add: meta_fits_def)
qed

text \<open>A sample written to the topic of the metadata.\<close>

lemma write_sample_fits:
  assumes ok: "broker_ok b" and fits: "meta_fits (Suc k) meta b" and n: "b_names b (o_name meta) = Some t"
    and len: "length msg = unat (o_size meta)"
  shows "\<exists>b' ts. write_sample t msg b = Ok b' \<and> broker_ok b' \<and> meta_fits k meta b' \<and>
    b_names b' = b_names b \<and> b_subs b' = b_subs b \<and> b_woken b' = b_woken b @ topic_ctxs b t \<and>
    b_topics b t = Some ts \<and> b_topics b' t = Some (ts\<lparr>t_data := msg, t_seq := t_seq ts + 1\<rparr>)"
proof -
  from broker_okD(1) [OF ok n] obtain ts where ts: "b_topics b t = Some ts" by blast
  with fits n have sz: "t_size ts = unat (o_size meta)" "t_seq ts + Suc k < 2 ^ 64" by (simp_all add: meta_fits_def)
  obtain b' where w: "write_sample t msg b = Ok b'"
    using write_sample_Ok [OF ok ts, of msg] sz len by auto
  from write_sample_spec [OF ok this] ts sz len n show ?thesis
    by (auto simp: w meta_fits_def)
qed

lemma advertise_fits:
  assumes ok: "broker_ok b" and fits: "meta_fits (Suc k) meta b" and len: "length msg = unat (o_size meta)"
  shows "\<exists>b' t. orb_advertise meta msg b = Ok (t, b') \<and> broker_ok b' \<and> meta_fits k meta b' \<and>
    b_names b' (o_name meta) = Some t \<and> b_subs b' = b_subs b \<and>
    (\<forall>n u. b_names b n = Some u \<longrightarrow> b_names b' n = Some u) \<and> (\<exists>cs. b_woken b' = b_woken b @ cs)"
proof -
  obtain t b1 where tf: "topic_for meta b = (t, b1)" by (cases "topic_for meta b")
  note t1 = topic_for_ok [OF ok tf] topic_for_fits [OF ok fits tf]
  from write_sample_fits [of b1 k meta t msg] t1 len obtain b'
    where "write_sample t msg b1 = Ok b'" "broker_ok b'" "meta_fits k meta b'" "b_names b' = b_names b1"
      "b_subs b' = b_subs b1" "b_woken b' = b_woken b1 @ topic_ctxs b1 t" by blast
  with t1 tf show ?thesis by (simp add: orb_advertise_def)
qed

lemma ensure_advertised_fits:
  assumes ok: "broker_ok b" and fits: "meta_fits (Suc k) meta b" and len: "length msg = unat (o_size meta)"
    and on: "on_topic meta (pb_handle p) b"
  shows "\<exists>b' t. ensure_advertised meta msg (p, b) = Ok (p\<lparr>pb_handle := Some t\<rparr>, b') \<and> broker_ok b' \<and>
    meta_fits k meta b' \<and> b_names b' (o_name meta) = Some t \<and> b_subs b' = b_subs b \<and>
    (\<forall>n u. b_names b n = Some u \<longrightarrow> b_names b' n = Some u) \<and> (\<exists>cs. b_woken b' = b_woken b @ cs)"
proof (cases "pb_handle p")
  case None
  with advertise_fits [OF ok fits len] show ?thesis by (auto simp: ensure_advertised_def handle_cas_def)
next
  case (Some t)
  then have "b_names b (o_name meta) = Some t" using on by (simp add: on_topic_def)
  moreover have "p = p\<lparr>pb_handle := Some t\<rparr>" using Some by simp
  moreover have "meta_fits k meta b" using fits by (auto simp: meta_fits_def)
  ultimately show ?thesis using Some ok by (auto simp: ensure_advertised_def)
qed

lemma pub_publish_fits:
  assumes ok: "broker_ok b" and fits: "meta_fits 2 meta b" and len: "length msg = unat (o_size meta)"
    and on: "on_topic meta (pb_handle p) b"
  shows "\<exists>b' t ts. pub_publish meta msg (p, b) = Ok (Ok (), p\<lparr>pb_handle := Some t\<rparr>, b') \<and> broker_ok b' \<and>
    b_names b' (o_name meta) = Some t \<and> b_subs b' = b_subs b \<and> b_topics b' t = Some ts \<and>
    t_data ts = msg \<and> t_size ts = unat (o_size meta) \<and> 
    (\<forall>n u. b_names b n = Some u \<longrightarrow> b_names b' n = Some u) \<and>
    (\<forall>c x. b_subs b c = Some x \<longrightarrow> s_registered x \<longrightarrow> s_topic x = t \<longrightarrow>
       s_last_seen x < t_seq ts \<and> (\<exists>cs. b_woken b' = b_woken b @ cs \<and> s_ctx x \<in> set cs))"
proof -
  have "meta_fits (Suc (Suc 0)) meta b" using fits by (simp add: numeral_2_eq_2)
  from ensure_advertised_fits [OF ok this len on] obtain b1 t
    where e: "ensure_advertised meta msg (p, b) = Ok (p\<lparr>pb_handle := Some t\<rparr>, b1)" and ok1: "broker_ok b1"
      and fits1: "meta_fits (Suc 0) meta b1" and n1: "b_names b1 (o_name meta) = Some t"
      and s1: "b_subs b1 = b_subs b" "\<forall>n u. b_names b n = Some u \<longrightarrow> b_names b1 n = Some u"
      and "\<exists>cs. b_woken b1 = b_woken b @ cs"
    by blast
  from \<open>\<exists>cs. b_woken b1 = b_woken b @ cs\<close> obtain cs where cs: "b_woken b1 = b_woken b @ cs" by blast
  from write_sample_fits [OF ok1 fits1 n1 len] obtain b' ts
    where w: "write_sample t msg b1 = Ok b'" "broker_ok b'" "b_names b' = b_names b1" "b_subs b' = b_subs b1"
      "b_woken b' = b_woken b1 @ topic_ctxs b1 t" "b_topics b1 t = Some ts"
      "b_topics b' t = Some (ts\<lparr>t_data := msg, t_seq := t_seq ts + 1\<rparr>)" by blast
  have reg: "s_last_seen x < t_seq ts + 1 \<and> s_ctx x \<in> set (cs @ topic_ctxs b1 t)"
    if x: "b_subs b c = Some x" "s_registered x" "s_topic x = t" for c x
  proof -
    have x1: "b_subs b1 c = Some x" using x(1) s1 by simp
    have "s_last_seen x \<le> t_seq ts \<and> c \<in> set (t_callbacks ts)"
      using sub_cb_topic [OF ok1 x1] w(6) x(2,3) by fastforce
    then show ?thesis using w(6) x1 by (force simp: topic_ctxs_def)
  qed
  have sz: "t_size ts = unat (o_size meta)" using fits1 n1 w(6) by (simp add: meta_fits_def)
  have "pub_publish meta msg (p, b) = Ok (Ok (), p\<lparr>pb_handle := Some t\<rparr>, b')"
    using e w by (simp add: pub_publish_def null_publish_def orb_publish_def)
  then show ?thesis using w s1 n1 reg sz cs
    by (intro exI [of _ b'] exI [of _ t] exI [of _ "ts\<lparr>t_data := msg, t_seq := t_seq ts + 1\<rparr>"])
       (auto intro!: exI [of _ "cs @ topic_ctxs b1 t"])
qed

lemma sub_cb_register_new:
  assumes ok: "broker_ok b" and new: "sub_cb_new meta i k ctx b = (c, b1)"
  shows "\<exists>b' x. sub_cb_register c b1 = Ok (True, b') \<and> broker_ok b' \<and> b_subs b' c = Some x \<and>
    s_registered x \<and> s_ctx x = ctx \<and> b_names b' (o_name meta) = Some (s_topic x) \<and>
    (\<forall>n u. b_names b n = Some u \<longrightarrow> b_names b' n = Some u) \<and> (\<forall>k. meta_fits k meta b \<longrightarrow> meta_fits k meta b')"
proof -
  obtain t b0 where tf: "topic_for meta b = (t, b0)" by (cases "topic_for meta b")
  from topic_for_ok [OF ok tf] obtain ts where ts: "b_topics b0 t = Some ts" and n: "b_names b0 (o_name meta) = Some t"
    and keep: "\<forall>n u. b_names b n = Some u \<longrightarrow> b_names b0 n = Some u"
    by blast
  let ?x = "\<lparr>s_topic = t, s_last_seen = 0, s_ctx = ctx, s_registered = False, s_size = t_size ts, s_lost = 0\<rparr>"
  have c: "c = b_next b0"
    and b1: "b1 = set_sub (b_next b0) ?x (b0\<lparr>b_next := b_next b0 + 1, b_live := b_live b0 @ [b_next b0]\<rparr>)"
    using new tf ts by (auto simp: sub_cb_new_def Let_def)
  let ?b' = "set_sub c (?x\<lparr>s_registered := True\<rparr>) (set_topic t (ts\<lparr>t_callbacks := t_callbacks ts @ [c]\<rparr>) b1)"
  have run: "sub_cb_register c b1 = Ok (True, ?b')"
    using ts by (simp add: sub_cb_register_def b1 c set_sub_def)
  have "broker_ok ?b'" by (rule sub_cb_register_ok [OF sub_cb_new_ok [OF ok new] run])
  moreover have "meta_fits k meta ?b'" if "meta_fits k meta b" for k
    using topic_for_fits [OF ok that tf] n ts by (auto simp: meta_fits_def b1 set_sub_def set_topic_def)
  ultimately show ?thesis using run n keep by (auto simp: b1 set_sub_def set_topic_def)
qed

lemma ensure_registered_fresh:
  assumes ok: "broker_ok b" and "sb_cb s = None"
  shows "\<exists>c b'. ensure_registered meta (s, b) = Ok (s\<lparr>sb_cb := Some c\<rparr>, b') \<and> broker_ok b' \<and>
    subscribed meta (s\<lparr>sb_cb := Some c\<rparr>) b' \<and>
    (\<forall>n u. b_names b n = Some u \<longrightarrow> b_names b' n = Some u) \<and> (\<forall>k. meta_fits k meta b \<longrightarrow> meta_fits k meta b')"
proof -
  obtain c b1 where new: "sub_cb_new meta (sb_interval_us s) (sb_instance s) (sb_addr s) b = (c, b1)"
    by (cases "sub_cb_new meta (sb_interval_us s) (sb_instance s) (sb_addr s) b")
  from sub_cb_register_new [OF ok new] obtain b' x where r: "sub_cb_register c b1 = Ok (True, b')" "broker_ok b'"
    "b_subs b' c = Some x" "s_registered x" "s_ctx x = sb_addr s" "b_names b' (o_name meta) = Some (s_topic x)"
    "\<forall>n u. b_names b n = Some u \<longrightarrow> b_names b' n = Some u" "\<forall>k. meta_fits k meta b \<longrightarrow> meta_fits k meta b'"
    by blast
  have "ensure_registered meta (s, b) = Ok (s\<lparr>sb_cb := Some c\<rparr>, b')"
    using new r(1) assms(2) by (simp add: ensure_registered_def)
  with r show ?thesis by (auto simp: subscribed_def)
qed

lemma ensure_registered_subscribed: "subscribed meta s b \<Longrightarrow> ensure_registered meta (s, b) = Ok (s, b)"
  by (auto simp: ensure_registered_def subscribed_def)

definition caught_up :: "sub_cb \<Rightarrow> topic_state \<Rightarrow> sub_cb" where
  "caught_up x ts =
     x\<lparr>s_lost := s_lost x + skipped_u32 (t_seq ts - s_last_seen x - 1), s_last_seen := t_seq ts\<rparr>"

lemma sub_try_recv_eq:
  assumes ok: "broker_ok b" and c: "sb_cb s = Some c" and x: "b_subs b c = Some x"
    and ts: "b_topics b (s_topic x) = Some ts" and len: "length buf = t_size ts"
  shows "sub_try_recv meta buf (s, b) =
    (if s_last_seen x < t_seq ts then Ok (Some (t_data ts), s, set_sub c (caught_up x ts) b) else Ok (None, s, b))"
  using c len by (simp add: sub_try_recv_def ensure_registered_def sub_cb_update_eq [OF ok x ts] caught_up_def)

text \<open>Either way the subscription has then seen all there is.\<close>

lemma sub_try_recv_settles:
  assumes ok: "broker_ok b" and sub: "subscribed meta s b" and fits: "meta_fits k meta b"
    and len: "length buf = unat (o_size meta)"
  shows "\<exists>r b'. sub_try_recv meta buf (s, b) = Ok (r, s, b') \<and> broker_ok b' \<and> subscribed meta s b' \<and>
    b_names b' = b_names b \<and> b_topics b' = b_topics b \<and> b_woken b' = b_woken b \<and>
    sub_try_recv meta buf (s, b') = Ok (None, s, b')"
proof -
  from sub obtain c x where c: "sb_cb s = Some c" and x: "b_subs b c = Some x" and n: "b_names b (o_name meta) = Some (s_topic x)"
    and reg: "s_registered x" "s_ctx x = sb_addr s" by (auto simp: subscribed_def)
  from broker_okD(1) [OF ok n] obtain ts where ts: "b_topics b (s_topic x) = Some ts" by blast
  have sz: "length buf = t_size ts" using fits n ts len by (simp add: meta_fits_def)
  let ?b = "set_sub c (caught_up x ts) b"
  have ok': "broker_ok ?b" by (rule set_sub_ok [OF ok x]) (use ts in \<open>simp_all add: caught_up_def\<close>)
  have x': "b_subs ?b c = Some (caught_up x ts)" "b_topics ?b (s_topic (caught_up x ts)) = Some ts"
    using ts by (simp_all add: set_sub_def caught_up_def)
  have "subscribed meta s ?b" using c reg n by (auto simp: subscribed_def set_sub_def caught_up_def)
  moreover have "sub_try_recv meta buf (s, ?b) = Ok (None, s, ?b)"
    using sub_try_recv_eq [OF ok' c x' sz] by (simp add: caught_up_def)
  moreover have "b_names ?b = b_names b \<and> b_topics ?b = b_topics b \<and> b_woken ?b = b_woken b"
    by (simp add: set_sub_def)
  ultimately show ?thesis
    using sub_try_recv_eq [OF ok c x ts sz, of meta] ok ok' sub by (cases "s_last_seen x < t_seq ts") auto
qed

section \<open>Recv::poll is a client of the wake protocol\<close>

text \<open>
  The resource of \<open>Recv\<close> is the topic: the attempt of subscriber \<open>c\<close> is \<open>try_recv\<close> into \<open>buf\<close>, and
  the other side publishes through the handle \<open>h\<close> and wakes. A fault of either side is none here:
  \<open>recv_ready\<close> brokers have the subscriber registered and \<open>buf\<close> of the topic's size.
\<close>

definition recv_try :: "addr \<Rightarrow> bytes \<Rightarrow> broker \<Rightarrow> bytes option \<times> broker" where
  "recv_try c buf b = (case sub_cb_update c buf b of Inl e \<Rightarrow> (None, b) | Inr r \<Rightarrow> r)"

definition sample_put :: "orb_metadata \<Rightarrow> addr \<Rightarrow> bytes \<Rightarrow> broker \<Rightarrow> broker option" where
  "sample_put meta h sample b = (case orb_publish meta h sample b of Inl e \<Rightarrow> None | Inr (rc, b) \<Rightarrow> Some b)"

definition recv_sub_ok :: "addr \<Rightarrow> addr \<Rightarrow> bytes \<Rightarrow> broker \<Rightarrow> bool" where
  "recv_sub_ok c h buf b \<longleftrightarrow> broker_ok b \<and> (\<exists>x ts. b_subs b c = Some x \<and> s_registered x \<and> s_topic x = h \<and>
     b_topics b h = Some ts \<and> length buf = t_size ts)"

definition sample_new :: "addr \<Rightarrow> broker \<Rightarrow> bool" where
  "sample_new c b \<longleftrightarrow> (\<exists>x ts. b_subs b c = Some x \<and> b_topics b (s_topic x) = Some ts \<and> s_last_seen x < t_seq ts)"

lemma recv_try_eq:
  assumes "recv_sub_ok c h buf b"
  obtains x ts where "b_subs b c = Some x" and "s_registered x" and "s_topic x = h" and "b_topics b h = Some ts"
    and "length buf = t_size ts" and "broker_ok b"
    and "recv_try c buf b = (if s_last_seen x < t_seq ts
     then (Some (t_data ts),
       set_sub c (x\<lparr>s_lost := s_lost x + skipped_u32 (t_seq ts - s_last_seen x - 1), s_last_seen := t_seq ts\<rparr>) b)
     else (None, b))"
proof -
  from assms obtain x ts where x: "b_subs b c = Some x" "s_registered x" "s_topic x = h" and ts: "b_topics b h = Some ts"
    and len: "length buf = t_size ts" and ok: "broker_ok b" by (auto simp: recv_sub_ok_def)
  show thesis
    by (rule that [OF x ts len ok]) (use x ts len in \<open>simp add: recv_try_def sub_cb_update_eq [OF ok x(1)]\<close>)
qed

lemma recv_try_ok:
  assumes "recv_sub_ok c h buf b"
  shows "recv_sub_ok c h buf (snd (recv_try c buf b))"
proof -
  obtain x ts where x: "b_subs b c = Some x" "s_registered x" "s_topic x = h" and ts: "b_topics b h = Some ts"
    and len: "length buf = t_size ts" and ok: "broker_ok b"
    and r: "recv_try c buf b = (if s_last_seen x < t_seq ts
     then (Some (t_data ts),
       set_sub c (x\<lparr>s_lost := s_lost x + skipped_u32 (t_seq ts - s_last_seen x - 1), s_last_seen := t_seq ts\<rparr>) b)
     else (None, b))"
    using recv_try_eq [OF assms] by metis
  have "broker_ok (set_sub c (x\<lparr>s_lost := l, s_last_seen := t_seq ts\<rparr>) b)" for l
    by (rule set_sub_ok [OF ok x(1)]) (use x ts in simp_all)
  with assms x ts len show ?thesis by (auto simp: r recv_sub_ok_def) (auto simp: set_sub_def)
qed

lemma sample_put_Some:
  assumes ok: "recv_sub_ok c h buf b" and put: "sample_put meta h sample b = Some b'"
  shows "recv_sub_ok c h buf b' \<and> sample_new c b'"
proof -
  from put have w: "write_sample h sample b = Ok b'"
    by (auto simp: sample_put_def orb_publish_def res_bind_def split: sum.splits prod.splits)
  from ok obtain x ts where x: "b_subs b c = Some x" "s_registered x" "s_topic x = h" and ts: "b_topics b h = Some ts"
    and len: "length buf = t_size ts" and bok: "broker_ok b" by (auto simp: recv_sub_ok_def)
  from sub_cb_topic [OF bok x(1)] x(3) ts have "s_last_seen x \<le> t_seq ts" by fastforce
  with write_sample_spec [OF bok w] x ts len show ?thesis by (auto simp: recv_sub_ok_def sample_new_def)
qed

lemma recv_sub_source:
  "wake_pair (recv_try c buf) (sample_put meta h) (recv_sub_ok c h buf) (sample_new c)"
proof unfold_locales
  fix a b b'
  assume ok: "recv_sub_ok c h buf b"
  show "recv_sub_ok c h buf (snd (recv_try c buf b))" by (rule recv_try_ok [OF ok])
  show "fst (recv_try c buf b) = None \<longleftrightarrow> \<not> sample_new c b"
    by (rule recv_try_eq [OF ok]) (auto simp: sample_new_def)
  assume put: "sample_put meta h a b = Some b'"
  from sample_put_Some [OF ok put] show "recv_sub_ok c h buf b'" "sample_new c b'" by auto
next
  fix b
  assume ok: "recv_sub_ok c h buf b" and "\<not> sample_new c b"
  then have "recv_try c buf b = (None, b)"
    using recv_try_eq [OF ok] by (metis sample_new_def)
  with \<open>\<not> sample_new c b\<close> show "\<not> sample_new c (snd (recv_try c buf b))" by simp
qed

interpretation uorb_recv: wake_pair "recv_try c buf" "sample_put meta h" "recv_sub_ok c h buf" "sample_new c"
  for c h :: addr and buf :: bytes and meta :: orb_metadata
  by (rule recv_sub_source)

section \<open>Properties\<close>

text \<open>
  A message published through a publication arrives: on a broker in any reachable state whose
  topic agrees with the metadata, a new subscription registers itself with its first \<open>try_recv\<close>; after
  a \<open>publish\<close>, through a publication that is new or advertised on the topic, \<open>publish\<close> is \<open>Ok\<close>, the
  subscription's waker has been called, the next \<open>try_recv\<close> returns exactly the published bytes, and the
  one after it nothing.
\<close>

theorem pub_sub_delivers:
  assumes reach: "broker_reach b" and fits: "meta_fits 2 meta b"
    and len: "length msg = unat (o_size meta)" "length buf = unat (o_size meta)"
    and new: "sb_cb s = None" and on: "on_topic meta (pb_handle p) b"
  shows "\<exists>r s' b1 p' b2 b3 woken.
    sub_try_recv meta buf (s, b) = Ok (r, s', b1) \<and>
    pub_publish meta msg (p, b1) = Ok (Ok (), p', b2) \<and>
    b_woken b2 = b_woken b1 @ woken \<and> sb_addr s \<in> set woken \<and>
    sub_try_recv meta buf (s', b2) = Ok (Some msg, s', b3) \<and>
    sub_try_recv meta buf (s', b3) = Ok (None, s', b3)"
proof -
  from ensure_registered_fresh [of b s meta] broker_reach_ok [OF reach] new obtain c b0
    where e: "ensure_registered meta (s, b) = Ok (s\<lparr>sb_cb := Some c\<rparr>, b0)" and ok0: "broker_ok b0"
      and sub0: "subscribed meta (s\<lparr>sb_cb := Some c\<rparr>) b0" and fits0: "meta_fits 2 meta b0"
      and keep: "\<forall>n u. b_names b n = Some u \<longrightarrow> b_names b0 n = Some u"
    using fits by blast
  let ?s = "s\<lparr>sb_cb := Some c\<rparr>"
  have "sub_try_recv meta buf (s, b) = sub_try_recv meta buf (?s, b0)"
    using e ensure_registered_subscribed [OF sub0] by (simp add: sub_try_recv_def)
  with sub_try_recv_settles [OF ok0 sub0 fits0 len(2)] obtain r b1
    where r: "sub_try_recv meta buf (s, b) = Ok (r, ?s, b1)" and ok1: "broker_ok b1"
      and sub1: "subscribed meta ?s b1" and same: "b_names b1 = b_names b0" "b_topics b1 = b_topics b0"
    by metis
  have fits1: "meta_fits 2 meta b1" using fits0 same by (simp add: meta_fits_def)
  have "on_topic meta (pb_handle p) b1" using on keep same by (cases "pb_handle p") (auto simp: on_topic_def)
  from pub_publish_fits [OF ok1 fits1 len(1) this] obtain b2 t ts
    where pub: "pub_publish meta msg (p, b1) = Ok (Ok (), p\<lparr>pb_handle := Some t\<rparr>, b2)" and ok2: "broker_ok b2"
      and n2: "b_names b2 (o_name meta) = Some t" and s2: "b_subs b2 = b_subs b1" and ts: "b_topics b2 t = Some ts"
      and data: "t_data ts = msg" "t_size ts = unat (o_size meta)"
      and keep2: "\<forall>n u. b_names b1 n = Some u \<longrightarrow> b_names b2 n = Some u"
      and wake: "\<forall>c x. b_subs b1 c = Some x \<longrightarrow> s_registered x \<longrightarrow> s_topic x = t \<longrightarrow>
        s_last_seen x < t_seq ts \<and> (\<exists>cs. b_woken b2 = b_woken b1 @ cs \<and> s_ctx x \<in> set cs)"
    by blast
  from sub1 obtain x where x: "b_subs b1 c = Some x" "s_registered x" "s_ctx x = sb_addr s"
    and nx: "b_names b1 (o_name meta) = Some (s_topic x)" by (auto simp: subscribed_def)
  have t: "s_topic x = t" using keep2 nx n2 by fastforce
  from wake x t have seen: "s_last_seen x < t_seq ts"
    and woken: "\<exists>cs. b_woken b2 = b_woken b1 @ cs \<and> sb_addr s \<in> set cs" by metis+
  let ?b3 = "set_sub c (caught_up x ts) b2"
  have ok3: "broker_ok ?b3" by (rule set_sub_ok [OF ok2]) (use x s2 t ts in \<open>auto simp: caught_up_def\<close>)
  have "sub_try_recv meta buf (?s, b2) = Ok (Some msg, ?s, ?b3)"
    using sub_try_recv_eq [OF ok2, of ?s c x ts buf meta] x s2 t ts len data seen by simp
  moreover have "sub_try_recv meta buf (?s, ?b3) = Ok (None, ?s, ?b3)"
    using sub_try_recv_eq [OF ok3, of ?s c "caught_up x ts" ts buf meta] t ts len data
    by (simp add: caught_up_def set_sub_def)
  ultimately show ?thesis using r pub woken by blast
qed

lemma gyro_fits: "meta_fits 2 gyro_meta broker_new"
  by (simp add: meta_fits_def broker_new_def)

theorem pub_sub_delivers_witness:
  "\<exists>r s' b1 p' b2 b3. sub_try_recv gyro_meta [9, 9] (sub_new 7, broker_new) = Ok (r, s', b1) \<and>
    pub_publish gyro_meta [1, 2] (publication_new, b1) = Ok (Ok (), p', b2) \<and> 7 \<in> set (drop (length (b_woken b1)) (b_woken b2)) \<and>
    sub_try_recv gyro_meta [9, 9] (s', b2) = Ok (Some [1, 2], s', b3)"
proof -
  have new: "sb_cb (sub_new 7) = None" "sb_addr (sub_new 7) = 7" by (simp_all add: sub_new_def sub_new_with_def)
  have len: "length [1, 2 :: 8 word] = unat (o_size gyro_meta)" "length [9, 9 :: 8 word] = unat (o_size gyro_meta)"
    by (simp_all add: gyro_meta_def)
  have "on_topic gyro_meta (pb_handle publication_new) broker_new" by (simp add: on_topic_def publication_new_def)
  from pub_sub_delivers [OF broker_reach.reach_new gyro_fits len new(1) this] show ?thesis
    unfolding new(2) by (elim exE conjE) (intro exI conjI, assumption+, simp, assumption)
qed

lemmas truncates = publication.truncate_def subscription.truncate_def

lemma raw_ensure_advertised_typed:
  "raw_ensure_advertised data (p, b) = res_bind (ensure_advertised (rp_metadata p) data (publication.truncate p, b))
     (\<lambda>(q, b). Ok (p\<lparr>pb_handle := pb_handle q\<rparr>, b))"
  by (cases "orb_advertise (rp_metadata p) data b")
     (auto simp: raw_ensure_advertised_def ensure_advertised_def handle_cas_def truncates)

lemma raw_publish_typed:
  assumes "length data = unat (o_size (rp_metadata p))"
  shows "raw_publish data (p, b) = res_bind (pub_publish (rp_metadata p) data (publication.truncate p, b))
     (\<lambda>(r, q, b). Ok (map_sum (\<lambda>e. RawFailed) id r, p\<lparr>pb_handle := pb_handle q\<rparr>, b))"
proof (cases "ensure_advertised (rp_metadata p) data (publication.truncate p, b)")
  case (Inr r)
  obtain q b' where r: "r = (q, b')" by (cases r)
  show ?thesis
    by (cases "null_publish (rp_metadata p) (pb_handle q) data b'")
       (use assms Inr r in \<open>auto simp: raw_publish_def raw_ensure_advertised_typed pub_publish_def\<close>)
qed (use assms in \<open>simp add: raw_publish_def raw_ensure_advertised_typed pub_publish_def\<close>)

lemma raw_advertise_multi_typed:
  assumes "length data = unat (o_size (rp_metadata p))"
  shows "raw_advertise_multi data k (p, b) = res_bind (pub_advertise_multi (rp_metadata p) data k (publication.truncate p, b))
        (\<lambda>(i, q, b). Ok (Ok i, p\<lparr>pb_handle := pb_handle q\<rparr>, b))"
  using assms by (cases "orb_advertise_multi (rp_metadata p) data k b")
     (auto simp: raw_advertise_multi_def pub_advertise_multi_def handle_cas_def truncates split: prod.split)

lemma raw_ensure_registered_typed:
  "raw_ensure_registered (s, b) = res_bind (ensure_registered (rs_metadata s) (subscription.truncate s, b))
     (\<lambda>(q, b). Ok (s\<lparr>sb_cb := sb_cb q\<rparr>, b))"
proof (cases "sb_cb s")
  case None
  obtain c b1 where "sub_cb_new (rs_metadata s) (sb_interval_us s) (sb_instance s) (sb_addr s) b = (c, b1)"
    by (cases "sub_cb_new (rs_metadata s) (sb_interval_us s) (sb_instance s) (sb_addr s) b")
  with None show ?thesis
    by (cases "sub_cb_register c b1") (auto simp: raw_ensure_registered_def ensure_registered_def truncates)
qed (simp add: raw_ensure_registered_def ensure_registered_def truncates)

lemma raw_try_recv_typed:
  assumes "\<not> length buf < unat (o_size (rs_metadata s))"
  shows "raw_try_recv buf (s, b) = res_bind (sub_try_recv (rs_metadata s) buf (subscription.truncate s, b))
        (\<lambda>(r, q, b). Ok (case r of Some d \<Rightarrow> (Some (unat (o_size (rs_metadata s))), d) | None \<Rightarrow> (None, buf),
           s\<lparr>sb_cb := sb_cb q\<rparr>, b))"
proof (cases "ensure_registered (rs_metadata s) (subscription.truncate s, b)")
  case (Inr r)
  obtain q b' where r: "r = (q, b')" by (cases r)
  show ?thesis
  proof (cases "sb_cb q")
    case (Some c)
    show ?thesis
      by (cases "sub_cb_update c buf b'")
         (use assms Inr r Some in \<open>auto simp: raw_try_recv_def raw_ensure_registered_typed sub_try_recv_def split: option.split\<close>)
  qed (use assms Inr r in \<open>simp add: raw_try_recv_def raw_ensure_registered_typed sub_try_recv_def\<close>)
qed (use assms in \<open>simp add: raw_try_recv_def raw_ensure_registered_typed sub_try_recv_def\<close>)

text \<open>
  C25: the type-erased wrappers are the typed ones behind a length check: with a wrong length,
  \<open>RawPublication::publish\<close> and \<open>advertise_multi\<close> return \<open>SizeMismatch\<close> and do nothing, and with a
  buffer that is too short \<open>RawSubscription::try_recv\<close> returns \<open>None\<close> and does nothing; otherwise they
  do what \<open>Publication\<close> and \<open>Subscription\<close> do for the same metadata.
\<close>

theorem raw_is_checked_typed:
  "raw_publish data (p, b) =
     (if length data \<noteq> unat (o_size (rp_metadata p)) then Ok (Err RawSizeMismatch, p, b)
      else res_bind (pub_publish (rp_metadata p) data (publication.truncate p, b))
        (\<lambda>(r, q, b). Ok (map_sum (\<lambda>e. RawFailed) id r, p\<lparr>pb_handle := pb_handle q\<rparr>, b))) \<and>
   raw_advertise_multi data k (p, b) =
     (if length data \<noteq> unat (o_size (rp_metadata p)) then Ok (Err RawSizeMismatch, p, b)
      else res_bind (pub_advertise_multi (rp_metadata p) data k (publication.truncate p, b))
        (\<lambda>(i, q, b). Ok (Ok i, p\<lparr>pb_handle := pb_handle q\<rparr>, b))) \<and>
   raw_try_recv buf (s, b) =
     (if length buf < unat (o_size (rs_metadata s)) then Ok ((None, buf), s, b)
      else res_bind (sub_try_recv (rs_metadata s) buf (subscription.truncate s, b))
        (\<lambda>(r, q, b). Ok (case r of Some d \<Rightarrow> (Some (unat (o_size (rs_metadata s))), d) | None \<Rightarrow> (None, buf),
           s\<lparr>sb_cb := sb_cb q\<rparr>, b)))"
  by (simp add: raw_publish_typed raw_advertise_multi_typed raw_try_recv_typed)
     (simp add: raw_publish_def raw_advertise_multi_def raw_try_recv_def)

text \<open>
  C17: no sample is lost on a sleeping \<open>recv\<close>: when a poll of \<open>Recv\<close> has returned \<open>Pending\<close>, a sample
  newer than the last one seen is in the topic and every publisher has returned from the callback, the
  task has been woken since that poll began. Publishers interleave with the poll between its first
  attempt, the atomic steps of its registration, and its second attempt.
\<close>

theorem uorb_recv_no_lost_wakeup:
  assumes "recv_sub_ok c h buf b" and "w = ws_run (recv_try c buf) (sample_put meta h) acts (ws_new b)"
    and "ws_poll w = PPending" and "sample_new c (ws_shared w)" and "\<And>i. aw_pcs (ws_aw w) (Suc i) = Idle"
  shows "ws_mark w < length (aw_woken (ws_aw w))"
  using uorb_recv.no_lost_wakeup [OF assms(2,1,3,4)] assms(5) by blast

definition recv_race :: "bytes ws_act list" where
  "recv_race = [Poll, PollStep, PollStep, Notify 0 [1, 2], NotifyStep 0, PollStep, PollStep, PollStep,
     PollStep, NotifyStep 0, PollStep, PollStep, Poll, PollStep, PollStep, PollStep, PollStep, PollStep,
     Notify 1 [3, 4], NotifyStep 1, NotifyStep 1, NotifyStep 1, NotifyStep 1]"

definition recv_race_end :: "(broker, bytes) wake_sys" where
  "recv_race_end = ws_run (recv_try 1 [0, 0]) (sample_put gyro_meta 0) recv_race (ws_new gyro_registered)"

lemma gyro_registered_eq:
  "gyro_registered = \<lparr>b_names = [''gyro'' \<mapsto> 0], b_topics = [0 \<mapsto> (new_topic gyro_meta)\<lparr>t_callbacks := [1]\<rparr>],
     b_subs = [1 \<mapsto> \<lparr>s_topic = 0, s_last_seen = 0, s_ctx = 7, s_registered = True, s_size = 2, s_lost = 0\<rparr>],
     b_next = 2, b_live = [1], b_woken = []\<rparr>"
  by (simp add: gyro_registered_def gyro_sub_eq sub_cb_register_def new_topic_def set_topic_def set_sub_def)

lemmas broker_eval = recv_try_def sub_cb_update_def sample_put_def orb_publish_def write_sample_def copy_bytes_def
  seq_bump_def notify_topic_def set_topic_def set_sub_def new_topic_def gyro_meta_def skipped_u32_def

lemma recv_race_result:
  "ws_poll recv_race_end = PPending \<and> sample_new 1 (ws_shared recv_race_end) \<and> ws_mark recv_race_end = 1 \<and>
   (\<forall>i. aw_pcs (ws_aw recv_race_end) i = Idle)"
  unfolding recv_race_end_def recv_race_def gyro_registered_eq
  by (simp add: ws_eval broker_eval sample_new_def)

theorem uorb_recv_no_lost_wakeup_witness:
  "1 < length (aw_woken (ws_aw recv_race_end))"
proof -
  have "broker_ok gyro_registered"
    by (rule broker_reach_ok [OF reach_register [OF gyro_sub_reach gyro_registered_Ok]])
  then have "recv_sub_ok 1 0 [0, 0] gyro_registered"
    by (simp add: recv_sub_ok_def) (simp add: gyro_registered_eq new_topic_def gyro_meta_def)
  from uorb_recv_no_lost_wakeup [OF this recv_race_end_def] recv_race_result show ?thesis by simp
qed

section \<open>What the wrappers do on corner cases\<close>

lemmas raw_eval = broker_eval broker_new_def topic_for_def orb_advertise_def sub_cb_new_def sub_cb_register_def
  sub_cb_lost_take_def raw_try_recv_def raw_ensure_registered_def raw_sub_new_def raw_sub_new_with_def raw_publish_def
  raw_ensure_advertised_def raw_publication_new_def null_publish_def handle_cas_def raw_missed_count_def Let_def

text \<open>A subscriber that polls before and after one message of a new publication, and again after another.\<close>

definition count_misses :: "orb_fault + 32 word \<times> 32 word" where
  "count_misses =
     res_bind (raw_try_recv [0, 0] (raw_sub_new gyro_meta 7, broker_new)) (\<lambda>(_, s, b).
     res_bind (raw_publish [1, 2] (raw_publication_new gyro_meta, b)) (\<lambda>(_, p, b).
     res_bind (raw_try_recv [0, 0] (s, b)) (\<lambda>(_, s, b).
     res_bind (raw_missed_count (s, b)) (\<lambda>(m1, b).
     res_bind (raw_publish [3, 4] (p, b)) (\<lambda>(_, p, b).
     res_bind (raw_try_recv [0, 0] (s, b)) (\<lambda>(_, s, b).
     res_bind (raw_missed_count (s, b)) (\<lambda>(m2, b). Ok (m1, m2))))))))"

text \<open>
  The first \<open>publish\<close> of a new publication delivers its message twice to the broker, as the initial
  sample of the advertisement and as the publication: a subscriber that has missed nothing is told that
  it missed one message. After the second \<open>publish\<close> its count is right.
\<close>

theorem first_publish_counts_a_miss: "count_misses = Ok (1, 0)"
  by (simp add: count_misses_def raw_eval)

definition wide_meta :: orb_metadata where
  "wide_meta = gyro_meta\<lparr>o_size := 4\<rparr>"

text \<open>
  The length check of \<open>RawPublication::publish\<close> is against its own metadata, while the mock copies
  as many bytes as the first metadata of the same topic name had: with a second metadata of the same name
  and a smaller size, a publication of the right length reads past the end of the caller's slice.
\<close>

theorem raw_size_conflict_overreads:
  "res_bind (raw_publish [1, 2, 3, 4] (raw_publication_new wide_meta, broker_new))
     (\<lambda>(_, p, b). raw_publish [1, 2] (raw_publication_new gyro_meta, b)) = Err OverRead"
  by (simp add: raw_eval wide_meta_def)

text \<open>
  \<open>advertise_multi\<close> on an advertised publication returns the instance it is asked for, not the one it
  was assigned first.
\<close>

lemma readvertise_returns_request:
  "pb_handle p \<noteq> None \<Longrightarrow> pub_advertise_multi meta initial k (p, b) = Ok (k, p, b)"
  by (auto simp: pub_advertise_multi_def)

end
