(* ===== verification/Uorb_Race.thy ===== *)
theory Uorb_Race
  imports Uorb_Api
begin

text \<open>
  The uORB wrappers and the mock interleaved: threads that call \<open>publish\<close> and \<open>unadvertise\<close> of one
  shared \<open>Publication\<close> (\<open>src/pub_.rs\<close>) at the granularity of the accesses to its atomic handle and of the
  broker's calls, and a publisher beside a \<open>sub_cb_update\<close> (\<open>src/ffi.rs\<close>) at the granularity of the locks.
\<close>

section \<open>One publication, many threads\<close>

text \<open>
  \<open>PubLoad\<close>, \<open>PubAdvertise\<close>, \<open>PubCas\<close> and \<open>PubDropOwn\<close> are \<open>ensure_advertised\<close>; the second load
  and the call of the broker follow. \<open>ps_shares\<close> counts the \<open>Arc\<close> shares the handles own.
\<close>

datatype pub_pc =
    PubLoad bytes
  | PubAdvertise bytes
  | PubCas bytes addr
  | PubDropOwn bytes addr
  | PubReload bytes
  | PubCall bytes "addr option"
  | PubReturned "pub_error + unit"
  | UnadvSwap
  | UnadvDrop "addr option"
  | UnadvReturned

record pub_sys =
  ps_handle :: "addr option"
  ps_broker :: broker
  ps_pcs :: "pub_pc list"
  ps_shares :: nat
  ps_fault :: "orb_fault option"

definition pub_sys_new :: "broker \<Rightarrow> pub_pc list \<Rightarrow> pub_sys" where
  "pub_sys_new b pcs = \<lparr>ps_handle = None, ps_broker = b, ps_pcs = pcs, ps_shares = 0, ps_fault = None\<rparr>"

definition pub_goto :: "nat \<Rightarrow> pub_pc \<Rightarrow> pub_sys \<Rightarrow> pub_sys" where
  "pub_goto i pc s = s\<lparr>ps_pcs := (ps_pcs s)[i := pc]\<rparr>"

fun pub_act :: "orb_metadata \<Rightarrow> nat \<Rightarrow> pub_pc \<Rightarrow> pub_sys \<Rightarrow> pub_sys" where
  "pub_act meta i (PubLoad m) s = pub_goto i (if ps_handle s = None then PubAdvertise m else PubReload m) s"
| "pub_act meta i (PubAdvertise m) s =
     (case orb_advertise meta m (ps_broker s) of
        Inl e \<Rightarrow> s\<lparr>ps_fault := Some e\<rparr>
      | Inr (h, b) \<Rightarrow> pub_goto i (PubCas m h) (s\<lparr>ps_broker := b, ps_shares := ps_shares s + 1\<rparr>))"
| "pub_act meta i (PubCas m h) s =
     (case handle_cas h (ps_handle s) of
        (True, v) \<Rightarrow> pub_goto i (PubReload m) (s\<lparr>ps_handle := v\<rparr>)
      | (False, v) \<Rightarrow> pub_goto i (PubDropOwn m h) s)"
| "pub_act meta i (PubDropOwn m h) s =
     (case orb_unadvertise h (ps_broker s) of
        Inl e \<Rightarrow> s\<lparr>ps_fault := Some e\<rparr>
      | Inr b \<Rightarrow> pub_goto i (PubReload m) (s\<lparr>ps_broker := b, ps_shares := ps_shares s - 1\<rparr>))"
| "pub_act meta i (PubReload m) s = pub_goto i (PubCall m (ps_handle s)) s"
| "pub_act meta i (PubCall m h) s =
     (case null_publish meta h m (ps_broker s) of
        Inl e \<Rightarrow> s\<lparr>ps_fault := Some e\<rparr>
      | Inr (rc, b) \<Rightarrow>
          pub_goto i (PubReturned (if rc = 0 then Ok () else Err PubFailed)) (s\<lparr>ps_broker := b\<rparr>))"
| "pub_act meta i UnadvSwap s = pub_goto i (UnadvDrop (ps_handle s)) (s\<lparr>ps_handle := None\<rparr>)"
| "pub_act meta i (UnadvDrop h) s =
     (case null_unadvertise h (ps_broker s) of
        Inl e \<Rightarrow> s\<lparr>ps_fault := Some e\<rparr>
      | Inr b \<Rightarrow> pub_goto i UnadvReturned
          (s\<lparr>ps_broker := b, ps_shares := (if h = None then ps_shares s else ps_shares s - 1)\<rparr>))"
| "pub_act meta i pc s = s"

definition pub_step :: "orb_metadata \<Rightarrow> nat \<Rightarrow> pub_sys \<Rightarrow> pub_sys" where
  "pub_step meta i s =
     (if i < length (ps_pcs s) \<and> ps_fault s = None then pub_act meta i (ps_pcs s ! i) s else s)"

definition pub_run :: "orb_metadata \<Rightarrow> nat list \<Rightarrow> pub_sys \<Rightarrow> pub_sys" where
  "pub_run meta sched s = fold (pub_step meta) sched s"

text \<open>A thread that has called neither yet.\<close>

fun pub_start :: "pub_pc \<Rightarrow> bool" where
  "pub_start (PubLoad m) = True"
| "pub_start UnadvSwap = True"
| "pub_start pc = False"

section \<open>Who owns a share\<close>

fun owned :: "pub_pc \<Rightarrow> nat" where
  "owned (PubCas m h) = 1"
| "owned (PubDropOwn m h) = 1"
| "owned (UnadvDrop h) = (if h = None then 0 else 1)"
| "owned pc = 0"

definition shares_ok :: "pub_sys \<Rightarrow> bool" where
  "shares_ok s \<longleftrightarrow> ps_shares s = (if ps_handle s = None then 0 else 1) + sum_list (map owned (ps_pcs s))"

lemma sum_owned_goto:
  "i < length pcs \<Longrightarrow> sum_list (map f (pcs[i := pc])) + f (pcs ! i) = sum_list (map f pcs) + (f pc :: nat)"
proof (induction pcs arbitrary: i)
  case (Cons p pcs)
  then show ?case by (cases i) (auto simp: algebra_simps)
qed simp

lemma shares_ok_goto:
  assumes "i < length (ps_pcs s)"
  shows "shares_ok (pub_goto i pc s) \<longleftrightarrow> ps_shares s + owned (ps_pcs s ! i) =
     (if ps_handle s = None then 0 else 1) + sum_list (map owned (ps_pcs s)) + owned pc"
  using sum_owned_goto [OF assms, of owned pc] by (auto simp: shares_ok_def pub_goto_def)

lemma shares_step:
  assumes ok: "shares_ok s"
  shows "shares_ok (pub_step meta i s)"
proof (cases "i < length (ps_pcs s) \<and> ps_fault s = None")
  case True
  then have i: "i < length (ps_pcs s)" by simp
  have le: "owned (ps_pcs s ! i) \<le> sum_list (map owned (ps_pcs s))"
    using i by (simp add: member_le_sum_list)
  show ?thesis
    using ok i True le
    by (cases "ps_pcs s ! i")
       (auto simp: shares_ok_goto pub_step_def handle_cas_def split: sum.split prod.split,
         auto simp: shares_ok_def)
qed (use ok in \<open>auto simp: pub_step_def\<close>)

lemma shares_run: "shares_ok s \<Longrightarrow> shares_ok (pub_run meta sched s)"
  unfolding pub_run_def by (induction sched arbitrary: s) (auto intro: shares_step)

section \<open>Publishers alone\<close>

text \<open>The sequence numbers a thread may still take.\<close>

fun bumps :: "pub_pc \<Rightarrow> nat" where
  "bumps (PubLoad m) = 2"
| "bumps (PubAdvertise m) = 2"
| "bumps (PubCas m h) = 1"
| "bumps (PubDropOwn m h) = 1"
| "bumps (PubReload m) = 1"
| "bumps (PubCall m h) = 1"
| "bumps pc = 0"

fun pub_pc_ok :: "orb_metadata \<Rightarrow> broker \<Rightarrow> addr option \<Rightarrow> pub_pc \<Rightarrow> bool" where
  "pub_pc_ok meta b h (PubLoad m) = (length m = unat (o_size meta))"
| "pub_pc_ok meta b h (PubAdvertise m) = (length m = unat (o_size meta))"
| "pub_pc_ok meta b h (PubCas m k) = (length m = unat (o_size meta) \<and> b_names b (o_name meta) = Some k)"
| "pub_pc_ok meta b h (PubDropOwn m k) =
     (length m = unat (o_size meta) \<and> b_names b (o_name meta) = Some k \<and> h \<noteq> None)"
| "pub_pc_ok meta b h (PubReload m) = (length m = unat (o_size meta) \<and> h \<noteq> None)"
| "pub_pc_ok meta b h (PubCall m k) = (length m = unat (o_size meta) \<and> k \<noteq> None \<and> b_names b (o_name meta) = k)"
| "pub_pc_ok meta b h (PubReturned r) = (r = Ok ())"
| "pub_pc_ok meta b h pc = False"

definition pubs_ok :: "orb_metadata \<Rightarrow> pub_sys \<Rightarrow> bool" where
  "pubs_ok meta s \<longleftrightarrow> ps_fault s = None \<and> broker_ok (ps_broker s) \<and> on_topic meta (ps_handle s) (ps_broker s) \<and>
     meta_fits (sum_list (map bumps (ps_pcs s))) meta (ps_broker s) \<and>
     (\<forall>pc \<in> set (ps_pcs s). pub_pc_ok meta (ps_broker s) (ps_handle s) pc)"

text \<open>What the other threads rely on: names stay, and the handle, once set, stays set.\<close>

lemma pub_pc_ok_mono:
  assumes "pub_pc_ok meta b h pc" and "\<And>n u. b_names b n = Some u \<Longrightarrow> b_names b' n = Some u"
    and "h \<noteq> None \<Longrightarrow> h' \<noteq> None"
  shows "pub_pc_ok meta b' h' pc"
  using assms by (cases pc) auto

lemma pubs_ok_goto:
  assumes ok: "pubs_ok meta s" and i: "i < length (ps_pcs s)"
    and s': "ps_pcs s' = ps_pcs s" "ps_fault s' = None" "broker_ok (ps_broker s')" "on_topic meta (ps_handle s') (ps_broker s')"
    and keep: "\<And>n u. b_names (ps_broker s) n = Some u \<Longrightarrow> b_names (ps_broker s') n = Some u"
      "ps_handle s \<noteq> None \<Longrightarrow> ps_handle s' \<noteq> None"
    and pc: "pub_pc_ok meta (ps_broker s') (ps_handle s') pc"
    and fits: "\<And>k. k + bumps (ps_pcs s ! i) = sum_list (map bumps (ps_pcs s)) + bumps pc \<Longrightarrow> meta_fits k meta (ps_broker s')"
  shows "pubs_ok meta (pub_goto i pc s')"
proof -
  have "pub_pc_ok meta (ps_broker s') (ps_handle s') q" if "q \<in> set ((ps_pcs s)[i := pc])" for q
  proof (cases "q = pc")
    case False
    then have "q \<in> set (ps_pcs s)" using that set_update_subset_insert [of "ps_pcs s" i pc] by auto
    then have "pub_pc_ok meta (ps_broker s) (ps_handle s) q" using ok by (simp add: pubs_ok_def)
    then show ?thesis by (rule pub_pc_ok_mono) (use keep in auto)
  qed (use pc in simp)
  moreover have "meta_fits (sum_list (map bumps ((ps_pcs s)[i := pc]))) meta (ps_broker s')"
    by (rule fits [OF sum_owned_goto [OF i]])
  ultimately show ?thesis using s' by (simp add: pubs_ok_def pub_goto_def)
qed

lemma meta_fits_le: "meta_fits k meta b \<Longrightarrow> j \<le> k \<Longrightarrow> meta_fits j meta b"
  by (auto simp: meta_fits_def)

lemma pubs_act:
  assumes ok: "pubs_ok meta s" and i: "i < length (ps_pcs s)"
  shows "pubs_ok meta (pub_act meta i (ps_pcs s ! i) s)"
proof -
  let ?n = "sum_list (map bumps (ps_pcs s))"
  from ok have b: "broker_ok (ps_broker s)" and on: "on_topic meta (ps_handle s) (ps_broker s)"
    and fits: "meta_fits ?n meta (ps_broker s)" and nf: "ps_fault s = None" by (simp_all add: pubs_ok_def)
  have pc: "pub_pc_ok meta (ps_broker s) (ps_handle s) (ps_pcs s ! i)" using ok i by (simp add: pubs_ok_def)
  have le: "bumps (ps_pcs s ! i) \<le> ?n" using i by (simp add: member_le_sum_list)
  show ?thesis
  proof (cases "ps_pcs s ! i")
    case (PubLoad m)
    show ?thesis unfolding PubLoad pub_act.simps
      by (rule pubs_ok_goto [OF ok i refl nf b on])
         (use PubLoad pc fits in \<open>auto intro: meta_fits_le split: if_splits\<close>)
  next
    case (PubAdvertise m)
    then obtain n where n: "?n = Suc n" using le by (cases ?n) auto
    from advertise_fits [OF b, of n meta m] fits n pc PubAdvertise obtain b' t
      where a: "orb_advertise meta m (ps_broker s) = Ok (t, b')" "broker_ok b'" "meta_fits n meta b'"
        "b_names b' (o_name meta) = Some t" "\<forall>k u. b_names (ps_broker s) k = Some u \<longrightarrow> b_names b' k = Some u"
      by auto
    have "on_topic meta (ps_handle s) b'" using on a(5) by (cases "ps_handle s") (auto simp: on_topic_def)
    then show ?thesis unfolding PubAdvertise pub_act.simps a(1) sum.case prod.case
      by (intro pubs_ok_goto [OF ok i]) (use PubAdvertise pc a n nf in auto)
  next
    case (PubCas m h)
    show ?thesis
    proof (cases "ps_handle s")
      case None
      then have "pub_act meta i (ps_pcs s ! i) s = pub_goto i (PubReload m) (s\<lparr>ps_handle := Some h\<rparr>)"
        using PubCas by (simp add: handle_cas_def)
      then show ?thesis
        by (simp only:) (intro pubs_ok_goto [OF ok i]; use PubCas pc nf b fits in \<open>simp add: on_topic_def\<close>)
    next
      case (Some t)
      then have "pub_act meta i (ps_pcs s ! i) s = pub_goto i (PubDropOwn m h) s"
        using PubCas by (simp add: handle_cas_def)
      then show ?thesis
        by (simp only:) (intro pubs_ok_goto [OF ok i]; use PubCas Some pc nf b on fits in simp)
    qed
  next
    case (PubDropOwn m h)
    from pc PubDropOwn broker_okD(1) [OF b, of "o_name meta" h] have "orb_unadvertise h (ps_broker s) = Ok (ps_broker s)"
      by (auto simp: orb_unadvertise_def)
    then show ?thesis
      by (simp add: PubDropOwn) (intro pubs_ok_goto [OF ok i]; use PubDropOwn pc nf b on fits in simp)
  next
    case (PubReload m)
    show ?thesis unfolding PubReload pub_act.simps
      by (rule pubs_ok_goto [OF ok i refl nf b on]) (use PubReload pc fits on in \<open>auto simp: on_topic_def\<close>)
  next
    case (PubCall m h)
    then obtain t where t: "h = Some t" "b_names (ps_broker s) (o_name meta) = Some t" using pc by auto
    obtain n where n: "?n = Suc n" using PubCall le by (cases ?n) auto
    from write_sample_fits [OF b _ t(2), of n m] fits n pc PubCall obtain b'
      where w: "write_sample t m (ps_broker s) = Ok b'" "broker_ok b'" "meta_fits n meta b'"
        "b_names b' = b_names (ps_broker s)" by auto
    have "on_topic meta (ps_handle s) b'" using on w(4) by (simp add: on_topic_def)
    then show ?thesis
      by (simp add: PubCall t null_publish_def orb_publish_def w(1))
         (intro pubs_ok_goto [OF ok i]; use PubCall w n nf in simp)
  next
    case (PubReturned r)
    then show ?thesis using ok by simp
  qed (use pc in simp_all)
qed

lemma pubs_run: "pubs_ok meta s \<Longrightarrow> pubs_ok meta (pub_run meta sched s)"
  unfolding pub_run_def by (induction sched arbitrary: s) (auto simp: pub_step_def pubs_act)

section \<open>Properties of the shared handle\<close>

text \<open>
  Whatever threads publish and unadvertise, in any interleaving, the shares of the topic that the
  handles own are the one in the atomic handle and those a thread is about to install or to drop: no
  share is dropped twice, and when all threads have returned none is leaked.
\<close>

theorem publication_shares:
  assumes start: "list_all pub_start pcs" and s: "s = pub_run meta sched (pub_sys_new b pcs)"
  shows "ps_shares s = (if ps_handle s = None then 0 else 1) + sum_list (map owned (ps_pcs s)) \<and>
    (\<forall>i < length (ps_pcs s). owned (ps_pcs s ! i) \<le> ps_shares s)"
proof -
  have zero: "owned pc = 0" if "pub_start pc" for pc using that by (cases pc) auto
  have "sum_list (map owned pcs) = 0"
    using start zero by (induction pcs) auto
  then have "shares_ok (pub_sys_new b pcs)" by (simp add: shares_ok_def pub_sys_new_def)
  then have sum: "shares_ok s" unfolding s by (rule shares_run)
  have "owned (ps_pcs s ! i) \<le> ps_shares s" if "i < length (ps_pcs s)" for i
    using that sum by (simp add: shares_ok_def trans_le_add2 member_le_sum_list)
  with sum show ?thesis by (simp add: shares_ok_def)
qed

text \<open>
  Threads that only publish never meet a fault, in any interleaving, and every \<open>publish\<close> that
  returns returns \<open>Ok\<close>, when the metadata agrees with the topic and the sequence number has room for
  two more per thread.
\<close>

theorem publishers_never_fail:
  assumes "broker_reach b" and "meta_fits (2 * length msgs) meta b"
    and "\<And>m. m \<in> set msgs \<Longrightarrow> length m = unat (o_size meta)"
    and "s = pub_run meta sched (pub_sys_new b (map PubLoad msgs))"
  shows "ps_fault s = None \<and> (\<forall>r. PubReturned r \<in> set (ps_pcs s) \<longrightarrow> r = Ok ()) \<and> broker_ok (ps_broker s)"
proof -
  have sum: "sum_list (map bumps (map PubLoad msgs)) = 2 * length msgs" by (induction msgs) auto
  have "pubs_ok meta (pub_sys_new b (map PubLoad msgs))"
    unfolding pubs_ok_def pub_sys_new_def pub_sys.select_convs sum
    using assms(1-3) broker_reach_ok by (auto simp: on_topic_def)
  then have "pubs_ok meta s" unfolding assms(4) by (rule pubs_run)
  moreover have "r = Ok ()" if "pub_pc_ok meta b' h (PubReturned r)" for r b' h using that by simp
  ultimately show ?thesis unfolding pubs_ok_def by blast
qed

text \<open>Two publishers that both find the handle empty and both advertise.\<close>

definition two_publishers :: pub_sys where
  "two_publishers = pub_run gyro_meta [0, 1, 0, 1, 0, 1, 1, 0, 0, 1, 1] (pub_sys_new broker_new (map PubLoad [[1, 2], [3, 4]]))"

lemmas pub_eval = pub_run_def pub_step_def pub_sys_new_def pub_goto_def raw_eval

lemma two_publishers_result:
  "ps_pcs two_publishers = [PubReturned (Ok ()), PubReturned (Ok ())] \<and> ps_handle two_publishers = Some 0 \<and>
   ps_shares two_publishers = 1"
  by (simp add: two_publishers_def pub_eval orb_unadvertise_def)

theorem publication_shares_witness:
  "ps_shares two_publishers = 1 + sum_list (map owned [PubReturned (Ok ()), PubReturned (Ok ())])"
  using publication_shares [OF _ two_publishers_def] two_publishers_result by simp

theorem publishers_never_fail_witness:
  "ps_fault two_publishers = None \<and> broker_ok (ps_broker two_publishers)"
proof -
  have "meta_fits (2 * length [[1, 2], [3, 4 :: 8 word]]) gyro_meta broker_new"
    by (simp add: meta_fits_def broker_new_def)
  moreover have "length m = unat (o_size gyro_meta)" if "m \<in> set [[1, 2], [3, 4]]" for m :: bytes
    using that by (auto simp: gyro_meta_def)
  ultimately show ?thesis using publishers_never_fail [OF broker_reach.reach_new _ _ two_publishers_def] by blast
qed

text \<open>
  \<open>publish\<close> is not safe beside \<open>unadvertise\<close> of the same publication: when the handle is cleared
  between \<open>ensure_advertised\<close> and the second load, the broker is called with a null handle; when it is
  cleared after that load, the handle is used although the publication owns no share any more.
\<close>

theorem publish_unadvertise_race:
  "ps_fault (pub_run gyro_meta [0, 0, 0, 1, 0, 0] (pub_sys_new broker_new [PubLoad [1, 2], UnadvSwap])) = Some BadHandle \<and>
   (let s = pub_run gyro_meta [0, 0, 0, 0, 1, 1] (pub_sys_new broker_new [PubLoad [1, 2], UnadvSwap])
    in ps_pcs s = [PubCall [1, 2] (Some 0), UnadvReturned] \<and> ps_shares s = 0)"
  by (simp add: pub_eval orb_unadvertise_def null_unadvertise_def)

section \<open>An update beside a publication\<close>

text \<open>
  One publisher writes the samples in order; each publication writes the buffer under one lock and the
  sequence number under another. The update of one subscriber reads the sequence number under one lock
  and copies the buffer under another. \<open>ur_written\<close> counts the samples that reached the buffer, and
  \<open>ur_got\<close> are the deliveries, each with the number of the sample that was copied.
\<close>

record upd_sys =
  ur_topic :: topic_state
  ur_sub :: sub_cb
  ur_written :: nat
  ur_read :: "nat option"
  ur_got :: "(nat \<times> bytes) list"

datatype upd_act = WriteSample | BumpSeq | ReadSeq | CopySample

definition upd_new :: "nat \<Rightarrow> upd_sys" where
  "upd_new sz = \<lparr>ur_topic = \<lparr>t_size = sz, t_seq = 0, t_data = replicate sz 0, t_callbacks = []\<rparr>,
     ur_sub = \<lparr>s_topic = 0, s_last_seen = 0, s_ctx = 0, s_registered = True, s_size = sz, s_lost = 0\<rparr>,
     ur_written = 0, ur_read = None, ur_got = []\<rparr>"

fun upd_do :: "(nat \<Rightarrow> bytes) \<Rightarrow> upd_act \<Rightarrow> upd_sys \<Rightarrow> upd_sys" where
  "upd_do sample WriteSample s =
     (if ur_written s = t_seq (ur_topic s)
      then s\<lparr>ur_topic := (ur_topic s)\<lparr>t_data := sample (ur_written s)\<rparr>, ur_written := ur_written s + 1\<rparr> else s)"
| "upd_do sample BumpSeq s =
     (if ur_written s = t_seq (ur_topic s) + 1
      then s\<lparr>ur_topic := (ur_topic s)\<lparr>t_seq := t_seq (ur_topic s) + 1\<rparr>\<rparr> else s)"
| "upd_do sample ReadSeq s = (if ur_read s = None then s\<lparr>ur_read := Some (t_seq (ur_topic s))\<rparr> else s)"
| "upd_do sample CopySample s =
     (case ur_read s of
        None \<Rightarrow> s
      | Some cur \<Rightarrow>
          if cur > s_last_seen (ur_sub s)
          then s\<lparr>ur_sub := (ur_sub s)\<lparr>s_lost := s_lost (ur_sub s) + skipped_u32 (cur - s_last_seen (ur_sub s) - 1),
                   s_last_seen := cur\<rparr>, ur_read := None,
                 ur_got := ur_got s @ [(ur_written s - 1, t_data (ur_topic s))]\<rparr>
          else s\<lparr>ur_read := None\<rparr>)"

definition upd_run :: "(nat \<Rightarrow> bytes) \<Rightarrow> upd_act list \<Rightarrow> upd_sys \<Rightarrow> upd_sys" where
  "upd_run sample acts s = fold (upd_do sample) acts s"

definition upd_inv :: "(nat \<Rightarrow> bytes) \<Rightarrow> upd_sys \<Rightarrow> bool" where
  "upd_inv sample s \<longleftrightarrow>
     (ur_written s = t_seq (ur_topic s) \<or> ur_written s = t_seq (ur_topic s) + 1) \<and>
     (0 < ur_written s \<longrightarrow> t_data (ur_topic s) = sample (ur_written s - 1)) \<and>
     s_last_seen (ur_sub s) \<le> t_seq (ur_topic s) \<and>
     (\<forall>cur. ur_read s = Some cur \<longrightarrow> cur \<le> t_seq (ur_topic s)) \<and>
     sorted (map fst (ur_got s)) \<and>
     (\<forall>(i, d) \<in> set (ur_got s). d = sample i \<and> i < ur_written s) \<and>
     (s_last_seen (ur_sub s) \<noteq> 0 \<longrightarrow> ur_got s \<noteq> [] \<and> s_last_seen (ur_sub s) \<le> fst (last (ur_got s)) + 1) \<and>
     s_lost (ur_sub s) + of_nat (length (ur_got s)) = of_nat (s_last_seen (ur_sub s))"

lemma upd_inv_init: "upd_inv sample (upd_new sz)"
  by (simp add: upd_inv_def upd_new_def)

text \<open>The lost counter and the deliveries add up to the sequence number seen.\<close>

lemma lost_account:
  assumes "l < cur" and "cur < 2 ^ 32" and "lost + of_nat n = (of_nat l :: 32 word)"
  shows "lost + skipped_u32 (cur - l - 1) + of_nat (Suc n) = of_nat cur"
proof -
  have "skipped_u32 (cur - l - 1) = of_nat (cur - l - 1)" using assms(2) by (simp add: skipped_u32_def)
  then have "lost + skipped_u32 (cur - l - 1) + of_nat (Suc n) = of_nat (cur - l - 1) + 1 + (lost + of_nat n)" by simp
  also have "\<dots> = of_nat ((cur - l - 1) + 1 + l)" unfolding assms(3) by simp
  also have "(cur - l - 1) + 1 + l = cur" using assms(1) by simp
  finally show ?thesis .
qed

lemma upd_inv_copy:
  assumes inv: "upd_inv sample s" and small: "ur_written s < 2 ^ 32"
    and cur: "ur_read s = Some cur" and new: "s_last_seen (ur_sub s) < cur"
  shows "upd_inv sample (upd_do sample CopySample s)"
proof -
  let ?l = "s_last_seen (ur_sub s)" and ?w = "ur_written s"
  have w: "?w = t_seq (ur_topic s) \<or> ?w = t_seq (ur_topic s) + 1" "cur \<le> t_seq (ur_topic s)"
    and data: "0 < ?w \<longrightarrow> t_data (ur_topic s) = sample (?w - 1)"
    and srt: "sorted (map fst (ur_got s))" and got: "\<forall>(i, d) \<in> set (ur_got s). d = sample i \<and> i < ?w"
    and acc: "s_lost (ur_sub s) + of_nat (length (ur_got s)) = of_nat ?l"
    using inv cur by (simp_all add: upd_inv_def)
  have pos: "0 < ?w" "cur \<le> ?w" "cur < 2 ^ 32" using w new small by auto
  have s': "upd_do sample CopySample s = s\<lparr>ur_sub := (ur_sub s)\<lparr>s_lost := s_lost (ur_sub s) + skipped_u32 (cur - ?l - 1),
       s_last_seen := cur\<rparr>, ur_read := None, ur_got := ur_got s @ [(?w - 1, t_data (ur_topic s))]\<rparr>"
    using cur new by simp
  have "sorted (map fst (ur_got s @ [(?w - 1, t_data (ur_topic s))]))"
    using srt got pos(1) by (fastforce simp: sorted_append)
  moreover have "\<forall>(i, d) \<in> set (ur_got s @ [(?w - 1, t_data (ur_topic s))]). d = sample i \<and> i < ?w"
    using got data pos(1) by auto
  moreover note lost_account [OF new pos(3) acc]
  ultimately show ?thesis unfolding s' upd_inv_def using w data pos by simp
qed

lemma upd_inv_do:
  assumes inv: "upd_inv sample s" and small: "ur_written s < 2 ^ 32"
  shows "upd_inv sample (upd_do sample a s)"
proof (cases a)
  case WriteSample
  have "\<forall>(i, d) \<in> set (ur_got s). d = sample i \<and> i < ur_written s + 1" using inv by (fastforce simp: upd_inv_def)
  then show ?thesis using inv WriteSample
    by (cases "ur_written s = t_seq (ur_topic s)"; simp) (simp add: upd_inv_def)
next
  case CopySample
  show ?thesis
  proof (cases "ur_read s")
    case (Some cur)
    show ?thesis
    proof (cases "cur > s_last_seen (ur_sub s)")
      case True
      then show ?thesis using upd_inv_copy [OF inv small Some] CopySample by simp
    qed (use inv Some CopySample in \<open>simp add: upd_inv_def\<close>)
  qed (use inv CopySample in simp)
next
  case BumpSeq
  then show ?thesis using inv by (force simp: upd_inv_def)
next
  case ReadSeq
  then show ?thesis using inv by (simp add: upd_inv_def)
qed

lemma upd_written_do: "ur_written (upd_do sample a s) \<le> Suc (ur_written s)"
  by (cases a) (auto split: option.split)

lemma upd_inv_run:
  "upd_inv sample s \<Longrightarrow> ur_written s + length acts \<le> 2 ^ 32 \<Longrightarrow> upd_inv sample (upd_run sample acts s)"
proof (induction acts arbitrary: s)
  case (Cons a acts)
  have "upd_inv sample (upd_do sample a s)" by (rule upd_inv_do) (use Cons.prems in simp_all)
  moreover have "ur_written (upd_do sample a s) + length acts \<le> 2 ^ 32"
    using upd_written_do [of sample a s] Cons.prems(2) by simp
  ultimately show ?case using Cons.IH by (simp add: upd_run_def)
qed (simp add: upd_run_def)

lemma upd_settles:
  assumes inv: "upd_inv sample s" and pos: "0 < ur_written s" and idle: "ur_read s = None"
    and w: "ur_written s = t_seq (ur_topic s)"
  shows "fst (last (ur_got (upd_run sample [ReadSeq, CopySample] s))) = ur_written s - 1"
proof (cases "t_seq (ur_topic s) > s_last_seen (ur_sub s)")
  case True
  then show ?thesis using idle by (simp add: upd_run_def)
next
  case False
  have "s_last_seen (ur_sub s) \<le> t_seq (ur_topic s)" using inv by (simp add: upd_inv_def)
  with False w have l: "s_last_seen (ur_sub s) = ur_written s" by simp
  with pos inv have ne: "ur_got s \<noteq> []" and "ur_written s \<le> fst (last (ur_got s)) + 1" by (simp_all add: upd_inv_def)
  moreover have "\<forall>x \<in> set (ur_got s). fst x < ur_written s" using inv by (auto simp: upd_inv_def)
  with ne have "fst (last (ur_got s)) < ur_written s" by simp
  ultimately have "fst (last (ur_got s)) = ur_written s - 1" by simp
  then show ?thesis using idle l w by (simp add: upd_run_def)
qed

text \<open>
  An update that interleaves with publications delivers only published samples, whole and never an
  older one after a newer one; the number of deliveries and the lost count together always make up the
  sequence number the subscriber has seen; and once the publisher and the update rest, the update after
  it delivers the latest sample or has delivered it already.
\<close>

theorem update_beside_publish:
  assumes s: "s = upd_run sample acts (upd_new sz)" and "length acts \<le> 2 ^ 32"
  shows "sorted (map fst (ur_got s)) \<and> (\<forall>(i, d) \<in> set (ur_got s). d = sample i \<and> i < ur_written s) \<and>
    s_lost (ur_sub s) + of_nat (length (ur_got s)) = of_nat (s_last_seen (ur_sub s)) \<and>
    (0 < ur_written s \<longrightarrow> ur_read s = None \<longrightarrow> ur_written s = t_seq (ur_topic s) \<longrightarrow>
       fst (last (ur_got (upd_run sample [ReadSeq, CopySample] s))) = ur_written s - 1)"
proof (intro conjI impI)
  have inv: "upd_inv sample s" unfolding s by (rule upd_inv_run [OF upd_inv_init]) (use assms(2) in \<open>simp add: upd_new_def\<close>)
  then show "sorted (map fst (ur_got s))" and "\<forall>(i, d) \<in> set (ur_got s). d = sample i \<and> i < ur_written s"
    and "s_lost (ur_sub s) + of_nat (length (ur_got s)) = of_nat (s_last_seen (ur_sub s))"
    by (simp_all add: upd_inv_def)
  show "fst (last (ur_got (upd_run sample [ReadSeq, CopySample] s))) = ur_written s - 1"
    if "0 < ur_written s" "ur_read s = None" "ur_written s = t_seq (ur_topic s)"
    by (rule upd_settles [OF inv that])
qed

text \<open>The samples \<open>[0]\<close>, \<open>[1]\<close> and so on.\<close>

definition numbered :: "nat \<Rightarrow> bytes" where
  "numbered i = [of_nat i]"

definition torn_acts :: "upd_act list" where
  "torn_acts = [WriteSample, BumpSeq, ReadSeq, WriteSample, CopySample, BumpSeq, ReadSeq, CopySample]"

definition torn_update :: upd_sys where
  "torn_update = upd_run numbered torn_acts (upd_new 1)"

theorem update_beside_publish_witness:
  "s_lost (ur_sub torn_update) + of_nat (length (ur_got torn_update)) = of_nat (s_last_seen (ur_sub torn_update)) \<and>
   sorted (map fst (ur_got torn_update))"
  using update_beside_publish [OF torn_update_def] by (simp add: torn_acts_def)

text \<open>
  The sequence number and the buffer are read under different locks, so an update between the two
  writes of a publication delivers the new sample under the old number: the next update delivers it
  again, and the sample before it is never delivered and not counted as lost.
\<close>

theorem update_delivers_twice:
  "ur_got torn_update = [(1, [1]), (1, [1])] \<and> s_lost (ur_sub torn_update) = 0 \<and> ur_written torn_update = 2"
  by (simp add: torn_update_def torn_acts_def upd_run_def upd_new_def numbered_def skipped_u32_def)

end
