(* ===== verification/Module_Log.thy ===== *)
theory Module_Log
  imports Px4_Prelude
begin

text \<open>
  \<open>crates/px4-log\<close>: the stack buffer of a log line and \<open>__log_impl\<close> in both builds (\<open>src/lib.rs\<close>), the
  backend of the \<open>log\<close> crate (\<open>src/log_backend.rs\<close>), the arguments of a module (\<open>src/args.rs\<close>) and its
  result (\<open>src/result.rs\<close>). A \<open>str\<close> is its UTF-8 bytes; \<open>fmt::Arguments\<close> is the list of the pieces that
  formatting writes, up to the first that fails to format. A C string is the bytes before its NUL.
  A line handed to PX4's logger, or printed on the host, is the result.
\<close>

section \<open>The stack buffer\<close>

type_synonym byte_list = "8 word list"

datatype level = Debug | Info | Warn | Error | Panic

fun level_int :: "level \<Rightarrow> int" where
  "level_int Debug = 0"
| "level_int Info = 1"
| "level_int Warn = 2"
| "level_int Error = 3"
| "level_int Panic = 4"

definition BUF_LEN :: nat where
  "BUF_LEN = 256"

record stack_buf =
  sbuf :: byte_list
  spos :: nat

definition stack_buf_new :: stack_buf where
  "stack_buf_new = \<lparr>sbuf = replicate BUF_LEN 0, spos = 0\<rparr>"

definition write_str :: "byte_list \<Rightarrow> stack_buf \<Rightarrow> stack_buf" where
  "write_str bytes b =
     (let room = (BUF_LEN - 1) - spos b;
          n = min (length bytes) room
      in b\<lparr>sbuf := take (spos b) (sbuf b) @ take n bytes @ drop (spos b + n) (sbuf b), spos := spos b + n\<rparr>)"

definition write_fmt :: "byte_list list \<Rightarrow> stack_buf \<Rightarrow> stack_buf" where
  "write_fmt args b = fold write_str args b"

definition as_c_str :: "stack_buf \<Rightarrow> byte_list" where
  "as_c_str b = (let nul_pos = min (spos b) (BUF_LEN - 1) in (sbuf b)[nul_pos := 0])"

text \<open>What a reader of a C string sees.\<close>

definition c_str :: "byte_list \<Rightarrow> byte_list" where
  "c_str bs = takeWhile (\<lambda>b. b \<noteq> 0) bs"

section \<open>UTF-8\<close>

text \<open>\<open>core::str::from_utf8\<close>: the length of a well-formed first character, if there is one.\<close>

definition cont :: "8 word \<Rightarrow> bool" where
  "cont b \<longleftrightarrow> 0x80 \<le> b \<and> b \<le> 0xBF"

definition second_ok :: "8 word \<Rightarrow> 8 word \<Rightarrow> bool" where
  "second_ok b0 b1 \<longleftrightarrow>
     (if b0 = 0xE0 then 0xA0 \<le> b1 \<and> b1 \<le> 0xBF
      else if b0 = 0xED then 0x80 \<le> b1 \<and> b1 \<le> 0x9F
      else if b0 = 0xF0 then 0x90 \<le> b1 \<and> b1 \<le> 0xBF
      else if b0 = 0xF4 then 0x80 \<le> b1 \<and> b1 \<le> 0x8F
      else cont b1)"

definition char_width :: "8 word \<Rightarrow> nat option" where
  "char_width b =
     (if b < 0x80 then Some 1
      else if 0xC2 \<le> b \<and> b \<le> 0xDF then Some 2
      else if 0xE0 \<le> b \<and> b \<le> 0xEF then Some 3
      else if 0xF0 \<le> b \<and> b \<le> 0xF4 then Some 4
      else None)"

fun char_len :: "byte_list \<Rightarrow> nat option" where
  "char_len [] = None"
| "char_len (b0 # bs) =
     (case char_width b0 of
        None \<Rightarrow> None
      | Some w \<Rightarrow>
          if length bs < w - 1 then None
          else if w = 1 then Some 1
          else if second_ok b0 (hd bs) \<and> list_all cont (take (w - 2) (tl bs)) then Some w
          else None)"

lemma char_width_pos: "char_width b = Some w \<Longrightarrow> 0 < w"
  unfolding char_width_def by (simp only: option.inject split: if_split_asm) simp_all

lemma char_len_Cons:
  "char_len (b # bs) = Some n \<longleftrightarrow> char_width b = Some n \<and> n - 1 \<le> length bs \<and>
     (n = 1 \<or> second_ok b (hd bs) \<and> list_all cont (take (n - 2) (tl bs)))"
  by (auto split: option.split)

declare char_len.simps(2) [simp del]

lemma char_len_Some:
  assumes "char_len s = Some n"
  shows "0 < n" and "n \<le> length s" and "s \<noteq> []"
proof -
  from assms obtain b bs where s: "s = b # bs" by (cases s) auto
  with assms have "char_width b = Some n" "n - 1 \<le> length bs" by (simp_all add: char_len_Cons)
  with s show "0 < n" "n \<le> length s" "s \<noteq> []" by (auto dest: char_width_pos)
qed

function valid_utf8 :: "byte_list \<Rightarrow> bool" where
  "valid_utf8 s =
     (if s = [] then True
      else case char_len s of None \<Rightarrow> False | Some n \<Rightarrow> valid_utf8 (drop n s))"
  by pat_completeness auto
termination
  by (relation "measure length") (auto dest: char_len_Some(1) intro!: diff_less)

declare valid_utf8.simps [simp del]

definition from_utf8 :: "byte_list \<Rightarrow> byte_list option" where
  "from_utf8 s = (if valid_utf8 s then Some s else None)"

section \<open>A log line\<close>

text \<open>On the host: the tag, the module name or \<open>?\<close>, and the message or \<open><non-utf8>\<close>.\<close>

fun level_tag :: "level \<Rightarrow> string" where
  "level_tag Debug = ''DEBUG''"
| "level_tag Info = ''INFO''"
| "level_tag Warn = ''WARN''"
| "level_tag Error = ''ERROR''"
| "level_tag Panic = ''PANIC''"

definition ascii :: "string \<Rightarrow> byte_list" where
  "ascii s = map of_char s"

record host_line =
  hl_tag :: string
  hl_name :: byte_list
  hl_msg :: byte_list

definition log_impl_std :: "level \<Rightarrow> byte_list \<Rightarrow> byte_list list \<Rightarrow> host_line" where
  "log_impl_std level module args =
     (let tag = level_tag level;
          name = (case from_utf8 module of Some m \<Rightarrow> m | None \<Rightarrow> ascii ''?'');
          buf = write_fmt args stack_buf_new;
          msg = (case from_utf8 (take (spos buf) (sbuf buf)) of Some m \<Rightarrow> m | None \<Rightarrow> ascii ''<non-utf8>'')
      in \<lparr>hl_tag = tag, hl_name = name, hl_msg = msg\<rparr>)"

text \<open>On the target: the arguments of \<open>px4_log_modulename\<close>, the last as the C string it points to.\<close>

definition log_impl :: "level \<Rightarrow> byte_list \<Rightarrow> byte_list list \<Rightarrow> int \<times> byte_list \<times> byte_list \<times> byte_list" where
  "log_impl level module args =
     (let buf = write_fmt args stack_buf_new
      in (level_int level, module, ascii ''%s'', c_str (as_c_str buf)))"

text \<open>The macros \<open>info!\<close>, \<open>warn!\<close>, \<open>err!\<close>, \<open>debug!\<close>, and \<open>module!\<close>.\<close>

definition declared_name :: "byte_list \<Rightarrow> byte_list" where
  "declared_name name = c_str (name @ [0])"

definition info :: "byte_list \<Rightarrow> byte_list list \<Rightarrow> int \<times> byte_list \<times> byte_list \<times> byte_list" where
  "info module args = log_impl Info module args"

definition warn :: "byte_list \<Rightarrow> byte_list list \<Rightarrow> int \<times> byte_list \<times> byte_list \<times> byte_list" where
  "warn module args = log_impl Warn module args"

definition err :: "byte_list \<Rightarrow> byte_list list \<Rightarrow> int \<times> byte_list \<times> byte_list \<times> byte_list" where
  "err module args = log_impl Error module args"

definition debug :: "byte_list \<Rightarrow> byte_list list \<Rightarrow> int \<times> byte_list \<times> byte_list \<times> byte_list" where
  "debug module args = log_impl Debug module args"

text \<open>\<open>__px4_rs_on_panic\<close>: the line it logs; then it aborts.\<close>

definition on_panic :: "byte_list list \<Rightarrow> int \<times> byte_list \<times> byte_list \<times> byte_list" where
  "on_panic msg = log_impl Panic (ascii ''panic'') msg"

section \<open>The backend of the log crate\<close>

datatype log_level = LError | LWarn | LInfo | LDebug | LTrace

fun backend_level :: "log_level \<Rightarrow> level" where
  "backend_level LError = Error"
| "backend_level LWarn = Warn"
| "backend_level LInfo = Info"
| "backend_level LDebug = Debug"
| "backend_level LTrace = Debug"

definition backend_name :: "byte_list \<Rightarrow> byte_list" where
  "backend_name target =
     (let name_buf = replicate 32 0;
          n = min (length target) (length name_buf - 1)
      in c_str (take n target @ drop n name_buf))"

definition backend_log :: "log_level \<Rightarrow> byte_list \<Rightarrow> byte_list list \<Rightarrow> int \<times> byte_list \<times> byte_list \<times> byte_list" where
  "backend_log level target args = log_impl (backend_level level) (backend_name target) args"

definition backend_log_std :: "log_level \<Rightarrow> byte_list \<Rightarrow> byte_list list \<Rightarrow> host_line" where
  "backend_log_std level target args = log_impl_std (backend_level level) (backend_name target) args"

text \<open>
  \<open>init\<close>: the functions of the \<open>log\<close> crate are parameters, on its static state.
\<close>

datatype level_filter = FOff | FError | FWarn | FInfo | FDebug | FTrace

definition backend_init :: "('s \<Rightarrow> 's) \<Rightarrow> (level_filter \<Rightarrow> 's \<Rightarrow> 's) \<Rightarrow> 's \<Rightarrow> 's" where
  "backend_init set_logger_racy set_max_level s = set_max_level FInfo (set_logger_racy s)"

section \<open>Arguments\<close>

text \<open>
  \<open>argv\<close> is null, or an array of slots, each null or a C string. \<open>from_raw\<close> is unsafe and does not check that the array has
  \<open>argc\<close> slots; where it has fewer, \<open>get\<close> reads past its end, which is undefined behaviour and the fault \<open>PastArgv\<close>
  here. The other fault of a module's entry is a panic.
\<close>

datatype module_fault = PastArgv | ModulePanic

record args =
  argc :: int
  argv :: "byte_list option list option"

definition from_raw :: "int \<Rightarrow> byte_list option list option \<Rightarrow> args" where
  "from_raw c v = \<lparr>argc = c, argv = v\<rparr>"

definition args_len :: "args \<Rightarrow> nat" where
  "args_len a = (if argc a \<le> 0 \<or> argv a = None then 0 else nat (argc a))"

definition args_is_empty :: "args \<Rightarrow> bool" where
  "args_is_empty a \<longleftrightarrow> args_len a = 0"

definition args_get :: "args \<Rightarrow> nat \<Rightarrow> module_fault + byte_list option" where
  "args_get a n =
     (if n \<ge> args_len a then Ok None
      else case argv a of
             None \<Rightarrow> Ok None
           | Some slots \<Rightarrow> if n < length slots then Ok (slots ! n) else Err PastArgv)"

definition subcommand :: "args \<Rightarrow> module_fault + byte_list option" where
  "subcommand a = args_get a 1"

record args_iter =
  it_args :: args
  it_idx :: nat

definition args_iter_new :: "args \<Rightarrow> args_iter" where
  "args_iter_new a = \<lparr>it_args = a, it_idx = 0\<rparr>"

function iter_next :: "args_iter \<Rightarrow> module_fault + byte_list option \<times> args_iter" where
  "iter_next it =
     (if it_idx it \<ge> args_len (it_args it) then Ok (None, it)
      else let i = it_idx it; it = it\<lparr>it_idx := i + 1\<rparr>
           in case args_get (it_args it) i of
                Inl f \<Rightarrow> Err f
              | Inr (Some s) \<Rightarrow> Ok (Some s, it)
              | Inr None \<Rightarrow> iter_next it)"
  by pat_completeness auto
termination
  by (relation "measure (\<lambda>it. args_len (it_args it) - it_idx it)") auto

declare iter_next.simps [simp del]

lemma iter_next_idx:
  "iter_next it = Ok (Some s, it') \<Longrightarrow> it_args it' = it_args it \<and> it_idx it < it_idx it' \<and> it_idx it' \<le> args_len (it_args it)"
proof (induction it rule: iter_next.induct)
  case (1 it)
  show ?case
  proof (cases "it_idx it \<ge> args_len (it_args it)")
    case False
    consider f where "args_get (it_args it) (it_idx it) = Inl f"
      | t where "args_get (it_args it) (it_idx it) = Inr (Some t)" | "args_get (it_args it) (it_idx it) = Inr None"
      by (metis sum.exhaust option.exhaust)
    then show ?thesis
    proof cases
      case 3
      with False 1(2) have "iter_next (it\<lparr>it_idx := it_idx it + 1\<rparr>) = Ok (Some s, it')"
        by (subst (asm) iter_next.simps) (simp add: Let_def)
      from 1(1) [OF False refl refl _ _ this] 3 show ?thesis by simp
    qed (use False 1(2) in \<open>subst (asm) iter_next.simps, auto simp: Let_def\<close>)+
  qed (use 1(2) in \<open>subst (asm) iter_next.simps, simp\<close>)
qed

text \<open>Collecting the iterator.\<close>

function collect :: "args_iter \<Rightarrow> module_fault + byte_list list" where
  "collect it =
     (case iter_next it of
        Inl f \<Rightarrow> Err f
      | Inr (None, it) \<Rightarrow> Ok []
      | Inr (Some s, it) \<Rightarrow> (case collect it of Inl f \<Rightarrow> Err f | Inr rest \<Rightarrow> Ok (s # rest)))"
  by pat_completeness auto
termination
  by (relation "measure (\<lambda>it. args_len (it_args it) - it_idx it)") (auto dest: iter_next_idx [OF sym] iter_next_idx)

declare collect.simps [simp del]

section \<open>Results\<close>

text \<open>The types with an implementation of \<open>ModuleResult\<close>; an error is the pieces it displays.\<close>

datatype module_result = RUnit | RInt int | ROk module_result | RErr "byte_list list"

fun into_c_int :: "module_result \<Rightarrow> byte_list \<Rightarrow> int \<times> (int \<times> byte_list \<times> byte_list \<times> byte_list) list" where
  "into_c_int RUnit module = (0, [])"
| "into_c_int (RInt n) module = (n, [])"
| "into_c_int (ROk r) module = into_c_int r module"
| "into_c_int (RErr e) module = (1, [log_impl Error module e])"

section \<open>Facts about the buffer\<close>

text \<open>After \<open>bytes\<close> have been written.\<close>

definition buf_holds :: "byte_list \<Rightarrow> stack_buf \<Rightarrow> bool" where
  "buf_holds bytes b \<longleftrightarrow> spos b = min (length bytes) (BUF_LEN - 1) \<and>
     sbuf b = take (BUF_LEN - 1) bytes @ replicate (BUF_LEN - spos b) 0"

lemma buf_holds_new: "buf_holds [] stack_buf_new"
  by (simp add: buf_holds_def stack_buf_new_def)

lemma buf_holds_write_str:
  assumes "buf_holds bytes b"
  shows "buf_holds (bytes @ s) (write_str s b)"
proof (cases "length bytes \<le> BUF_LEN - 1")
  case True
  then have p: "spos b = length bytes" and buf: "sbuf b = bytes @ replicate (BUF_LEN - length bytes) 0"
    using assms by (simp_all add: buf_holds_def)
  let ?n = "min (length s) (BUF_LEN - 1 - length bytes)"
  have n: "take ?n s = take (BUF_LEN - 1 - length bytes) s" by (simp add: min_def)
  have "BUF_LEN - length bytes - ?n = BUF_LEN - (length bytes + ?n)" by simp
  then show ?thesis using True
    by (simp add: buf_holds_def write_str_def Let_def p buf n) (auto simp: min_def BUF_LEN_def)
next
  case False
  then have p: "spos b = BUF_LEN - 1" and buf: "sbuf b = take (BUF_LEN - 1) bytes @ replicate (BUF_LEN - (BUF_LEN - 1)) 0"
    using assms by (simp_all add: buf_holds_def)
  then show ?thesis using False by (simp add: buf_holds_def write_str_def Let_def)
qed

lemma buf_holds_write_fmt: "buf_holds bytes b \<Longrightarrow> buf_holds (bytes @ concat args) (write_fmt args b)"
  unfolding write_fmt_def
proof (induction args arbitrary: bytes b)
  case (Cons a args)
  from Cons.IH [OF buf_holds_write_str [OF Cons.prems, of a]] show ?case by simp
qed simp

lemma write_fmt_new: "buf_holds (concat args) (write_fmt args stack_buf_new)"
  using buf_holds_write_fmt [OF buf_holds_new] by simp

lemma buf_holds_take: "buf_holds bytes b \<Longrightarrow> take (spos b) (sbuf b) = take (BUF_LEN - 1) bytes"
  by (simp add: buf_holds_def min_def)

lemma takeWhile_take_zeros:
  "takeWhile (\<lambda>b. b \<noteq> 0) (xs @ replicate k (0 :: 'a::zero)) = takeWhile (\<lambda>b. b \<noteq> 0) xs"
  by (induction xs) (cases k; simp)+

lemma buf_holds_c_str:
  assumes "buf_holds bytes b"
  shows "c_str (as_c_str b) = c_str (take (BUF_LEN - 1) bytes)"
proof -
  have p: "spos b = min (length bytes) (BUF_LEN - 1)" "spos b < BUF_LEN" using assms by (auto simp: buf_holds_def BUF_LEN_def)
  have "(sbuf b)[min (spos b) (BUF_LEN - 1) := 0] = sbuf b"
    by (rule list_update_same_conv [THEN iffD2]) (use assms p in \<open>auto simp: buf_holds_def BUF_LEN_def nth_append min_def\<close>)
  then show ?thesis using assms by (simp add: as_c_str_def Let_def c_str_def buf_holds_def takeWhile_take_zeros)
qed

section \<open>Facts about UTF-8\<close>

lemma char_len_take: "char_len s = Some n \<Longrightarrow> n \<le> m \<Longrightarrow> char_len (take m s) = Some n"
proof (cases s)
  case (Cons b bs)
  assume n: "char_len s = Some n" "n \<le> m"
  from char_len_Some [OF n(1)] n(2) obtain k where m: "m = Suc k" by (cases m) auto
  have "n = 1 \<or> hd (take k bs) = hd bs \<and> take (n - 2) (tl (take k bs)) = take (n - 2) (tl bs)"
    using n(2) m char_len_Some(1) [OF n(1)] by (cases bs; cases k) (auto simp: min_def)
  with n Cons m show ?thesis by (auto simp: char_len_Cons)
qed simp

lemma char_len_take_short: "char_len s = Some n \<Longrightarrow> m < n \<Longrightarrow> char_len (take m s) = None"
proof (cases "take m s")
  case (Cons b bs)
  assume n: "char_len s = Some n" "m < n"
  from Cons obtain cs where s: "s = b # cs" by (cases s; cases m) auto
  have "length bs < n - 1" using arg_cong [OF Cons, of length] n(2) by simp
  moreover have "char_width b = Some n" using n(1) s by (simp add: char_len_Cons)
  ultimately have "char_len (b # bs) \<noteq> Some k" for k by (auto simp: char_len_Cons)
  then show ?thesis using Cons by (cases "char_len (b # bs)") auto
qed auto

text \<open>A cut between two characters.\<close>

function boundary :: "nat \<Rightarrow> byte_list \<Rightarrow> bool" where
  "boundary m s =
     (if m = 0 then True
      else case char_len s of None \<Rightarrow> False | Some n \<Rightarrow> n \<le> m \<and> boundary (m - n) (drop n s))"
  by pat_completeness auto
termination
  by (relation "measure fst") (auto dest: char_len_Some(1) intro!: diff_less)

declare boundary.simps [simp del]

lemma valid_utf8_take: "valid_utf8 s \<Longrightarrow> m \<le> length s \<Longrightarrow> valid_utf8 (take m s) \<longleftrightarrow> boundary m s"
proof (induction s arbitrary: m rule: valid_utf8.induct)
  case (1 s)
  show ?case
  proof (cases "m = 0")
    case True
    then show ?thesis by (simp add: valid_utf8.simps boundary.simps)
  next
    case False
    then have ne: "s \<noteq> []" "take m s \<noteq> []" using 1(3) by auto
    from 1(2) ne(1) obtain n where n: "char_len s = Some n" and v: "valid_utf8 (drop n s)"
      by (subst (asm) valid_utf8.simps) (auto split: option.splits)
    show ?thesis
    proof (cases "n \<le> m")
      case True
      have "valid_utf8 (take m s) \<longleftrightarrow> valid_utf8 (take (m - n) (drop n s))"
        using ne char_len_take [OF n True] by (subst valid_utf8.simps) (simp add: drop_take)
      also have "\<dots> \<longleftrightarrow> boundary (m - n) (drop n s)" by (rule 1(1) [OF ne(1) n v]) (use 1(3) in simp)
      also have "\<dots> \<longleftrightarrow> boundary m s" using n True False by (subst (2) boundary.simps) simp
      finally show ?thesis .
    next
      case short: False
      then show ?thesis using ne n False char_len_take_short [OF n, of m]
        by (subst valid_utf8.simps, subst boundary.simps) simp
    qed
  qed
qed

section \<open>Facts about the arguments\<close>

text \<open>The contract of \<open>from_raw\<close>: the array has \<open>argc\<close> slots.\<close>

definition args_ok :: "args \<Rightarrow> bool" where
  "args_ok a \<longleftrightarrow> (\<forall>slots. argv a = Some slots \<longrightarrow> argc a \<le> int (length slots))"

definition slots :: "args \<Rightarrow> byte_list option list" where
  "slots a = (case argv a of None \<Rightarrow> [] | Some v \<Rightarrow> take (args_len a) v)"

lemma args_len_slots: "args_ok a \<Longrightarrow> length (slots a) = args_len a"
  by (auto simp: args_ok_def slots_def args_len_def split: option.split)

lemma args_get_slots: "args_ok a \<Longrightarrow> args_get a n = Ok (if n < length (slots a) then slots a ! n else None)"
  using args_len_slots [of a] by (auto simp: args_get_def slots_def args_len_def split: option.splits)

lemma collect_next:
  "collect it =
     (if it_idx it \<ge> args_len (it_args it) then Ok []
      else case args_get (it_args it) (it_idx it) of
             Inl f \<Rightarrow> Err f
           | Inr (Some s) \<Rightarrow> (case collect (it\<lparr>it_idx := it_idx it + 1\<rparr>) of Inl f \<Rightarrow> Err f | Inr rest \<Rightarrow> Ok (s # rest))
           | Inr None \<Rightarrow> collect (it\<lparr>it_idx := it_idx it + 1\<rparr>))"
  by (subst collect.simps, subst iter_next.simps)
     (auto simp: Let_def collect.simps [of "it\<lparr>it_idx := Suc (it_idx it)\<rparr>"] split: option.split sum.split)

lemma collect_slots:
  assumes ok: "args_ok a"
  shows "collect \<lparr>it_args = a, it_idx = i\<rparr> = Ok (List.map_filter id (drop i (slots a)))"
proof (induction "args_len a - i" arbitrary: i)
  case 0
  then show ?case using args_len_slots [OF ok] by (subst collect_next) simp
next
  case (Suc k)
  then have i: "i < length (slots a)" using args_len_slots [OF ok] by simp
  have "collect \<lparr>it_args = a, it_idx = i + 1\<rparr> = Ok (List.map_filter id (drop (i + 1) (slots a)))"
    by (rule Suc(1)) (use Suc(2) in simp)
  with i args_len_slots [OF ok] args_get_slots [OF ok, of i] show ?case
    by (subst collect_next) (auto simp flip: Cons_nth_drop_Suc split: option.split)
qed

section \<open>Properties\<close>

text \<open>
  A later \<open>init\<close> is not a no-op: where \<open>max_level\<close> reads what \<open>set_max_level\<close> wrote, it lowers a filter the
  application has raised since the first, and it does so whatever became of the logger.
\<close>

theorem backend_init_resets:
  assumes "\<And>l s. max_level (set_max_level l s) = l"
  shows "max_level (set_max_level FDebug (backend_init set_logger set_max_level s)) = FDebug \<and>
    max_level (backend_init set_logger set_max_level (set_max_level FDebug (backend_init set_logger set_max_level s))) = FInfo"
  by (simp add: backend_init_def assms)

text \<open>
  C30: however many pieces a log line is formatted from, the buffer is never overrun, and PX4's logger gets
  the concatenation of the pieces cut to 255 bytes, up to its first NUL, under the level's number; the
  backend of the \<open>log\<close> crate passes at most 31 bytes of the target as the module name.
\<close>

theorem log_line_truncates:
  "log_impl level module args =
     (level_int level, module, ascii ''%s'', c_str (take 255 (concat args))) \<and>
   length (sbuf (write_fmt args stack_buf_new)) = 256 \<and> spos (write_fmt args stack_buf_new) \<le> 255 \<and>
   backend_name target = c_str (take 31 target) \<and> length (backend_name target) \<le> 31"
proof -
  note h = write_fmt_new [of args]
  have "backend_name target = c_str (take 31 target)"
    unfolding backend_name_def Let_def c_str_def drop_replicate takeWhile_take_zeros by (simp add: min_def)
  moreover have "length (c_str (take 31 target)) \<le> 31"
    unfolding c_str_def by (rule order_trans [OF length_takeWhile_le]) simp
  ultimately show ?thesis
    using buf_holds_c_str [OF h] h by (auto simp: log_impl_def Let_def buf_holds_def BUF_LEN_def)
qed

text \<open>
  On the host the printed message is the formatted text, when it fits; when it does not, it is the
  first 255 bytes if they end between two characters, and otherwise the whole text is replaced by
  \<open><non-utf8>\<close>.
\<close>

theorem host_line_text:
  assumes "valid_utf8 (concat args)"
  shows "hl_msg (log_impl_std level module args) =
    (if length (concat args) \<le> 255 then concat args
     else if boundary 255 (concat args) then take 255 (concat args)
     else ascii ''<non-utf8>'')"
proof -
  note h = buf_holds_take [OF write_fmt_new [of args]]
  show ?thesis
  proof (cases "length (concat args) \<le> 255")
    case True
    then show ?thesis using h assms by (simp add: log_impl_std_def Let_def from_utf8_def BUF_LEN_def)
  next
    case False
    then show ?thesis using h valid_utf8_take [OF assms, of 255]
      by (simp add: log_impl_std_def Let_def from_utf8_def BUF_LEN_def)
  qed
qed

lemma ascii_run:
  assumes "char_width a = Some 1"
  shows "valid_utf8 (replicate k a @ s) = valid_utf8 s" and "boundary (k + m) (replicate k a @ s) = boundary m s"
proof -
  have one: "char_len (a # t) = Some 1" for t using assms by (simp add: char_len_Cons)
  show "valid_utf8 (replicate k a @ s) = valid_utf8 s"
    by (induction k) (simp, subst valid_utf8.simps, simp add: one)
  show "boundary (k + m) (replicate k a @ s) = boundary m s"
    by (induction k) (simp, subst boundary.simps, simp add: one)
qed

text \<open>254 letters and an e with an acute accent.\<close>

definition long_line :: byte_list where
  "long_line = replicate 254 97 @ [0xC3, 0xA9]"

theorem host_line_text_witness:
  "hl_msg (log_impl_std Info (ascii ''m'') [long_line]) = ascii ''<non-utf8>''"
proof -
  have a: "char_width 97 = Some 1" and e: "char_len [0xC3, 0xA9] = Some 2"
    by (simp_all add: char_width_def char_len_Cons second_ok_def cont_def)
  have "valid_utf8 long_line" unfolding long_line_def ascii_run(1) [OF a]
    by (subst valid_utf8.simps) (simp add: e, simp add: valid_utf8.simps)
  moreover have "\<not> boundary (254 + 1) long_line" unfolding long_line_def ascii_run(2) [OF a]
    by (subst boundary.simps) (simp add: e)
  ultimately show ?thesis
    using host_line_text [of "[long_line]" Info "ascii ''m''"] by (simp add: long_line_def)
qed

text \<open>
  Iterating over the arguments of a module ends and yields exactly the slots of \<open>argv\<close> that are not
  null, in order, for any \<open>argc\<close> that keeps the contract of \<open>from_raw\<close>, negative ones included; the subcommand is the slot 1.
\<close>

theorem args_iterate:
  assumes "args_ok a"
  shows "collect (args_iter_new a) = Ok (List.map_filter id (slots a)) \<and> length (slots a) = args_len a \<and>
    subcommand a = Ok (if 1 < length (slots a) then slots a ! 1 else None)"
  using collect_slots [OF assms, of 0] args_get_slots [OF assms, of 1] args_len_slots [OF assms]
  by (simp add: args_iter_new_def subcommand_def)

definition null_slot_args :: args where
  "null_slot_args = from_raw 3 (Some [Some (ascii ''a''), None, Some (ascii ''c'')])"

theorem args_iterate_witness:
  "collect (args_iter_new null_slot_args) = Ok [ascii ''a'', ascii ''c''] \<and> subcommand null_slot_args = Ok None"
proof -
  have ok: "args_ok null_slot_args" by (simp add: args_ok_def null_slot_args_def from_raw_def)
  have "slots null_slot_args = [Some (ascii ''a''), None, Some (ascii ''c'')]"
    by (simp add: slots_def null_slot_args_def from_raw_def args_len_def)
  with args_iterate [OF ok] show ?thesis by (simp add: List.map_filter_def)
qed

end
