(* ===== verification/Module_Entry.thy ===== *)
theory Module_Entry
  imports Module_Log Task_Cell Notify Msg_Emit
begin

text \<open>
  How a module is put together: the attribute macros \<open>#[px4::main]\<close> (\<open>crates/px4-macros/src/lib.rs\<close>) and
  \<open>#[task]\<close> (\<open>crates/px4-workqueue-macros/src/lib.rs\<close>), the work-queue table
  (\<open>crates/px4-workqueue/src/wq.rs\<close>), and the modules under \<open>examples/\<close>. A macro takes the parts of the
  parsed function it looks at and returns the parts of its template, or the text of a compile error; the
  parser \<open>syn\<close> and \<open>proc_macro2\<close> are outside, the latter through the \<open>lexer\<close> of \<open>Msg_Emit\<close>.
\<close>

section \<open>The parsed function\<close>

datatype fn_arg = Receiver | Typed string

text \<open>A return type is its tokens without spaces, \<open>impl Trait\<close> apart.\<close>

datatype return_type = Default | ImplTrait | Type string

record item_fn =
  fn_ident :: string
  fn_async :: bool
  fn_inputs :: "fn_arg list"
  fn_output :: return_type

text \<open>The compile errors, by what their texts say, and a panic of \<open>format_ident!\<close> or \<open>Ident::new\<close>.\<close>

datatype expand_error =
    UnknownArgument string string
  | MissingWq
  | MainIsAsync
  | TooManyArguments
  | TakesSelf
  | NoModuleName
  | ReturnsImplTrait
  | TaskNotAsync
  | TaskReturnsValue
  | BadIdentifier string

section \<open>The attribute px4::main\<close>

fun main_args :: "(string \<times> string) list \<Rightarrow> string option \<Rightarrow> expand_error + string option" where
  "main_args [] name = Ok name"
| "main_args ((key, value) # pairs) name =
     (if key = ''name'' then main_args pairs (Some value)
      else Err (UnknownArgument key ''name''))"

definition parse_main_args :: "(string \<times> string) list \<Rightarrow> expand_error + string option" where
  "parse_main_args pairs = (if pairs = [] then Ok None else main_args pairs None)"

definition replace_char :: "char \<Rightarrow> char \<Rightarrow> string \<Rightarrow> string" where
  "replace_char a b s = map (\<lambda>c. if c = a then b else c) s"

record main_entry =
  me_user_fn :: string
  me_entry :: string
  me_takes_args :: bool
  me_module_name :: string

definition expand_main :: "lexer \<Rightarrow> string option \<Rightarrow> string option \<Rightarrow> item_fn \<Rightarrow> expand_error + main_entry" where
  "expand_main lx cargo_pkg_name name input =
     (if fn_async input
      then Err MainIsAsync
      else if length (fn_inputs input) > 1
      then Err TooManyArguments
      else if Receiver \<in> set (fn_inputs input)
      then Err TakesSelf
      else
        let takes_args = (fn_inputs input \<noteq> [])
        in res_bind
             (case name of
                Some lit \<Rightarrow> Ok lit
              | None \<Rightarrow>
                  (case cargo_pkg_name of
                     Some s \<Rightarrow> Ok (replace_char (CHR ''-'') (CHR ''_'') s)
                   | None \<Rightarrow> Err NoModuleName))
             (\<lambda>name_str.
                if \<not> ident_ok lx (name_str @ ''_main'') then Err (BadIdentifier (name_str @ ''_main''))
                else if fn_output input = ImplTrait
                then Err ReturnsImplTrait
                else Ok \<lparr>me_user_fn = fn_ident input, me_entry = name_str @ ''_main'',
                         me_takes_args = takes_args, me_module_name = name_str\<rparr>))"

section \<open>The attribute task\<close>

fun task_args :: "(string \<times> string) list \<Rightarrow> string option \<Rightarrow> expand_error + string" where
  "task_args [] wq =
     (case wq of
        None \<Rightarrow> Err MissingWq
      | Some w \<Rightarrow> Ok w)"
| "task_args ((key, value) # pairs) wq =
     (if key = ''wq'' then task_args pairs (Some value)
      else Err (UnknownArgument key ''wq''))"

record task_module =
  tm_mod :: string
  tm_wq :: string
  tm_name :: string
  tm_args :: "string list"
  tm_crate :: string

fun arg_idents :: "fn_arg list \<Rightarrow> expand_error + string list" where
  "arg_idents [] = Ok []"
| "arg_idents (Typed p # as) = res_bind (arg_idents as) (\<lambda>ps. Ok (p # ps))"
| "arg_idents (Receiver # as) = Err TakesSelf"

definition workqueue_path :: "(string \<Rightarrow> found_crate option) \<Rightarrow> string" where
  "workqueue_path crate_name =
     (case crate_name ''px4-workqueue'' of
        Some Itself \<Rightarrow> ''crate''
      | Some (Name n) \<Rightarrow> ''::'' @ n
      | None \<Rightarrow>
          (case crate_name ''px4'' of
             Some Itself \<Rightarrow> ''crate''
           | Some (Name n) \<Rightarrow> ''::'' @ n
           | None \<Rightarrow> ''::px4_workqueue''))"

definition expand_task ::
  "lexer \<Rightarrow> (string \<Rightarrow> found_crate option) \<Rightarrow> string \<Rightarrow> item_fn \<Rightarrow> expand_error + task_module" where
  "expand_task lx crate_name wq f =
     (if \<not> fn_async f then Err TaskNotAsync
      else if (case fn_output f of Default \<Rightarrow> False | ImplTrait \<Rightarrow> True | Type ty \<Rightarrow> ty \<noteq> ''()'' \<and> ty \<noteq> ''!'')
      then Err TaskReturnsValue
      else if \<not> ident_ok lx wq then Err (BadIdentifier wq)
      else res_bind (arg_idents (fn_inputs f)) (\<lambda>idents.
             Ok \<lparr>tm_mod = fn_ident f, tm_wq = wq, tm_name = fn_ident f, tm_args = idents,
                 tm_crate = workqueue_path crate_name\<rparr>))"

section \<open>The work-queue table\<close>

record wq_config =
  wq_name :: string
  wq_stacksize :: "16 word"
  wq_relative_priority :: "8 word"

definition wq_config_new :: "string \<Rightarrow> 16 word \<Rightarrow> 8 word \<Rightarrow> wq_config" where
  "wq_config_new name stacksize relative_priority =
     \<lparr>wq_name = name, wq_stacksize = stacksize, wq_relative_priority = relative_priority\<rparr>"

text \<open>The constants of \<open>wq_configurations\<close>, by their Rust names; \<open>i8\<close> priorities are two's complement.\<close>

definition wq_configurations :: "(string \<times> wq_config) list" where
  "wq_configurations =
     [(''rate_ctrl'', wq_config_new ''wq:rate_ctrl'' 3150 0),
      (''SPI0'', wq_config_new ''wq:SPI0'' 2392 (- 1)),
      (''SPI1'', wq_config_new ''wq:SPI1'' 2392 (- 2)),
      (''SPI2'', wq_config_new ''wq:SPI2'' 2392 (- 3)),
      (''SPI3'', wq_config_new ''wq:SPI3'' 2392 (- 4)),
      (''SPI4'', wq_config_new ''wq:SPI4'' 2392 (- 5)),
      (''SPI5'', wq_config_new ''wq:SPI5'' 2392 (- 6)),
      (''SPI6'', wq_config_new ''wq:SPI6'' 2392 (- 7)),
      (''I2C0'', wq_config_new ''wq:I2C0'' 2336 (- 8)),
      (''I2C1'', wq_config_new ''wq:I2C1'' 2336 (- 9)),
      (''I2C2'', wq_config_new ''wq:I2C2'' 2336 (- 10)),
      (''I2C3'', wq_config_new ''wq:I2C3'' 2336 (- 11)),
      (''I2C4'', wq_config_new ''wq:I2C4'' 2336 (- 12)),
      (''nav_and_controllers'', wq_config_new ''wq:nav_and_controllers'' 2240 (- 13)),
      (''INS0'', wq_config_new ''wq:INS0'' 6000 (- 14)),
      (''INS1'', wq_config_new ''wq:INS1'' 6000 (- 15)),
      (''INS2'', wq_config_new ''wq:INS2'' 6000 (- 16)),
      (''INS3'', wq_config_new ''wq:INS3'' 6000 (- 17)),
      (''hp_default'', wq_config_new ''wq:hp_default'' 2800 (- 18)),
      (''uavcan'', wq_config_new ''wq:uavcan'' 3624 (- 19)),
      (''lp_default'', wq_config_new ''wq:lp_default'' 3500 (- 50)),
      (''test1'', wq_config_new ''wq:test1'' 2000 0),
      (''test2'', wq_config_new ''wq:test2'' 2000 0)]"

section \<open>Running a module\<close>

type_synonym log_line = "int \<times> byte_list \<times> byte_list \<times> byte_list"

text \<open>
  The body of \<open><name>_main\<close>: \<open>main\<close> is the user's function with what it does to a state \<open>'s\<close>, or the fault that ends it.
\<close>

definition entry ::
  "byte_list \<Rightarrow> (args \<Rightarrow> 's \<Rightarrow> module_fault + module_result \<times> log_line list \<times> 's) \<Rightarrow>
     int \<Rightarrow> byte_list option list option \<Rightarrow> 's \<Rightarrow> module_fault + int \<times> log_line list \<times> 's" where
  "entry name main ac av s =
     res_bind (main (from_raw ac av) s) (\<lambda>(r, logs, s).
       case into_c_int r name of (n, errs) \<Rightarrow> Ok (n, logs @ errs, s))"

text \<open>\<open>try_spawn\<close> of a generated task module, run to its end.\<close>

definition spawn_run :: "bool \<Rightarrow> 'f \<Rightarrow> 'f task_cell \<Rightarrow> (spawn_error + spawn_token) \<times> 'f task_cell" where
  "spawn_run alloc_ok fut c =
     (case try_spawn fut c of
        (Inl e, c) \<Rightarrow> (Err e, c)
      | (Inr u, c) \<Rightarrow>
          let had = tc_handle c; c = (spawn_step alloc_ok ^^ 3) c
          in (if had \<or> alloc_ok then Ok SpawnToken else Err AllocFailed, c))"

text \<open>
  The \<open>main\<close> of the examples: \<open>started\<close> and the like are the lines they log, if any.
\<close>

definition say :: "byte_list \<Rightarrow> string option \<Rightarrow> log_line list" where
  "say name line = (case line of None \<Rightarrow> [] | Some l \<Rightarrow> [info name [ascii l]])"

definition task_main ::
  "byte_list \<Rightarrow> string option \<Rightarrow> string option \<Rightarrow> string option \<Rightarrow> string \<Rightarrow> bool \<Rightarrow> 'f \<Rightarrow>
     args \<Rightarrow> 'f task_cell \<Rightarrow> module_fault + module_result \<times> log_line list \<times> 'f task_cell" where
  "task_main name started running stopped usage alloc_ok fut args c =
     res_bind (subcommand args) (\<lambda>sub.
       if sub = Some (ascii ''start'')
       then (case spawn_run alloc_ok fut c of
               (Inl e, c) \<Rightarrow> Ok (RErr [ascii ''already running''], [], c)
             | (Inr t, c) \<Rightarrow>
                 if token_drop_panics (token_forget t) then Err ModulePanic
                 else Ok (ROk RUnit, say name started, c))
       else if sub = Some (ascii ''status'') then Ok (ROk RUnit, say name running, c)
       else if sub = Some (ascii ''stop'') then Ok (ROk RUnit, say name stopped, c)
       else Ok (RErr [ascii usage], [], c))"

definition hello_main :: "bool \<Rightarrow> 'f \<Rightarrow> args \<Rightarrow> 'f task_cell \<Rightarrow> module_fault + module_result \<times> log_line list \<times> 'f task_cell" where
  "hello_main = task_main (ascii ''hello_module'') (Some ''started'') (Some ''running'')
     (Some ''stop is a no-op in this example'') ''usage: hello_module {start|stop|status}''"

definition gyro_main :: "bool \<Rightarrow> 'f \<Rightarrow> args \<Rightarrow> 'f task_cell \<Rightarrow> module_fault + module_result \<times> log_line list \<times> 'f task_cell" where
  "gyro_main = task_main (ascii ''gyro_watch'') (Some ''started'') (Some ''running'')
     (Some ''stop is a no-op in this example'') ''usage: gyro_watch {start|stop|status}''"

definition heartbeat_main :: "bool \<Rightarrow> 'f \<Rightarrow> args \<Rightarrow> 'f task_cell \<Rightarrow> module_fault + module_result \<times> log_line list \<times> 'f task_cell" where
  "heartbeat_main = task_main (ascii ''heartbeat'') (Some ''started'') (Some ''running'')
     (Some ''stop is not implemented in this example'') ''usage: heartbeat {start|stop|status}''"

definition template_main :: "bool \<Rightarrow> 'f \<Rightarrow> args \<Rightarrow> 'f task_cell \<Rightarrow> module_fault + module_result \<times> log_line list \<times> 'f task_cell" where
  "template_main = task_main (ascii ''px4_rust_template'') None None None
     ''usage: px4_rust_template {start|stop|status}''"

text \<open>The example in the documentation of the crate \<open>px4\<close>: the token of \<open>try_spawn\<close> is dropped.\<close>

definition facade_main ::
  "bool \<Rightarrow> 'f \<Rightarrow> args \<Rightarrow> 'f task_cell \<Rightarrow> module_fault + module_result \<times> log_line list \<times> 'f task_cell" where
  "facade_main alloc_ok fut args c =
     res_bind (subcommand args) (\<lambda>sub.
       if sub = Some (ascii ''start'')
       then (case spawn_run alloc_ok fut c of
               (Inl e, c) \<Rightarrow> Ok (RErr [ascii ''already running''], [], c)
             | (Inr t, c) \<Rightarrow> if token_drop_panics t then Err ModulePanic else Ok (ROk RUnit, [], c))
       else if sub = Some (ascii ''status'') \<or> sub = Some (ascii ''stop'')
       then Ok (ROk RUnit, [], c)
       else Ok (RErr [ascii ''usage: hello {start|status|stop}''], [], c))"

text \<open>\<open>multi_task\<close>: a consumer and a producer, in this order; \<open>wakes\<close> is the counter.\<close>

definition multi_main ::
  "bool \<Rightarrow> bool \<Rightarrow> 'f \<Rightarrow> 'g \<Rightarrow> (32 word \<Rightarrow> byte_list) \<Rightarrow> args \<Rightarrow> 'f task_cell \<times> 'g task_cell \<times> 32 word \<Rightarrow>
     module_fault + module_result \<times> log_line list \<times> 'f task_cell \<times> 'g task_cell \<times> 32 word" where
  "multi_main alloc1 alloc2 cfut pfut show_u32 args = (\<lambda>(c, p, wakes).
     let name = ascii ''multi_task''
     in res_bind (subcommand args) (\<lambda>sub.
        if sub = Some (ascii ''start'')
        then (case spawn_run alloc1 cfut c of
                (Inl e, c) \<Rightarrow> Ok (RErr [ascii ''consumer already running''], [], c, p, wakes)
              | (Inr t, c) \<Rightarrow>
                  if token_drop_panics (token_forget t) then Err ModulePanic
                  else (case spawn_run alloc2 pfut p of
                    (Inl e, p) \<Rightarrow> Ok (RErr [ascii ''producer already running''], [], c, p, wakes)
                  | (Inr t, p) \<Rightarrow>
                      if token_drop_panics (token_forget t) then Err ModulePanic
                      else Ok (ROk RUnit, say name (Some ''started''), c, p, wakes)))
        else if sub = Some (ascii ''status'')
        then Ok (ROk RUnit, [info name [ascii ''running, wake count='', show_u32 wakes]], c, p, wakes)
        else if sub = Some (ascii ''stop'')
        then Ok (ROk RUnit, say name (Some ''stop is a no-op in this example''), c, p, wakes)
        else Ok (RErr [ascii ''usage: multi_task {start|stop|status}''], [], c, p, wakes)))"

section \<open>The bodies of the example tasks\<close>

text \<open>
  \<open>gyro_watch\<close>: one turn of the loop. An \<open>f32\<close> is its bits; its addition and comparison are
  parameters. The state is the spike counter and the alerts published.
\<close>

definition abs_f32 :: "32 word \<Rightarrow> 32 word" where
  "abs_f32 x = x AND 0x7FFFFFFF"

record gyro =
  g_timestamp :: "64 word"
  g_x :: "32 word"
  g_y :: "32 word"
  g_z :: "32 word"

record gyro_alert =
  ga_timestamp :: "64 word"
  ga_magnitude :: "32 word"
  ga_spike_count :: "32 word"

definition u32_saturating_add :: "32 word \<Rightarrow> 32 word \<Rightarrow> 32 word" where
  "u32_saturating_add a b = (if unat a + unat b < 2 ^ 32 then a + b else - 1)"

definition watcher_turn ::
  "(32 word \<Rightarrow> 32 word \<Rightarrow> 32 word) \<Rightarrow> (32 word \<Rightarrow> bool) \<Rightarrow> gyro \<Rightarrow> 32 word \<times> gyro_alert list \<Rightarrow> 32 word \<times> gyro_alert list" where
  "watcher_turn fadd over m = (\<lambda>(spikes, published).
     let mag = fadd (fadd (abs_f32 (g_x m)) (abs_f32 (g_y m))) (abs_f32 (g_z m))
     in if over mag
        then let spikes = u32_saturating_add spikes 1
             in (spikes, published @ [\<lparr>ga_timestamp = g_timestamp m, ga_magnitude = mag, ga_spike_count = spikes\<rparr>])
        else (spikes, published))"

definition watcher ::
  "(32 word \<Rightarrow> 32 word \<Rightarrow> 32 word) \<Rightarrow> (32 word \<Rightarrow> bool) \<Rightarrow> gyro list \<Rightarrow> 32 word \<times> gyro_alert list" where
  "watcher fadd over ms = fold (watcher_turn fadd over) ms (0, [])"

text \<open>\<open>multi_task\<close>: the producer notifies, the consumer polls and counts.\<close>

datatype multi_act = Produce | Consume

definition multi_turn :: "multi_act \<Rightarrow> notify \<times> 32 word \<Rightarrow> notify \<times> 32 word" where
  "multi_turn act = (\<lambda>(signal, wakes).
     case act of
       Produce \<Rightarrow> (notify_notify 1 signal, wakes)
     | Consume \<Rightarrow>
         (case notified_poll 0 0 signal of
            (Ready u, signal) \<Rightarrow> (signal, wakes + 1)
          | (Pending, signal) \<Rightarrow> (signal, wakes)))"

text \<open>\<open>heartbeat\<close>: the sample of a turn, and the line logged when publishing it fails.\<close>

record airspeed =
  as_timestamp :: "64 word"
  as_timestamp_sample :: "64 word"
  as_indicated :: "32 word"
  as_true :: "32 word"
  as_confidence :: "32 word"
  as_padding0 :: byte_list

definition pump_turn ::
  "(64 word \<Rightarrow> byte_list) \<Rightarrow> bool \<Rightarrow> 64 word \<Rightarrow> 64 word \<times> airspeed \<times> log_line list" where
  "pump_turn show_u64 publish_ok counter =
     (let counter = counter + 1;
          sample = \<lparr>as_timestamp = counter, as_timestamp_sample = counter, as_indicated = 0, as_true = 0,
            as_confidence = 0x3F800000, as_padding0 = replicate 4 0\<rparr>
      in (counter, sample,
          if publish_ok then []
          else [err (ascii ''heartbeat'') [ascii ''publish failed at counter '', show_u64 counter]]))"

text \<open>\<open>hello_module\<close>: one turn of the loop, up to the sleep.\<close>

definition ticker_turn :: "(64 word \<Rightarrow> byte_list) \<Rightarrow> 64 word \<Rightarrow> 64 word \<times> log_line" where
  "ticker_turn show_u64 tick =
     (let tick = tick + 1 in (tick, info (ascii ''hello_module'') [ascii ''hello tick='', show_u64 tick]))"

section \<open>Facts\<close>

lemma main_args_Ok: "main_args pairs n = Ok r \<longleftrightarrow> (\<forall>p\<in>set pairs. fst p = ''name'') \<and> r = (if pairs = [] then n else Some (snd (last pairs)))"
  by (induction pairs n rule: main_args.induct) auto

lemma task_args_Ok:
  "task_args pairs w = Ok r \<longleftrightarrow> (\<forall>p\<in>set pairs. fst p = ''wq'') \<and> (if pairs = [] then w = Some r else r = snd (last pairs))"
  by (induction pairs w rule: task_args.induct) (auto split: option.split)

lemma arg_idents_Typed: "arg_idents (map Typed ps) = Ok ps"
  by (induction ps) simp_all

lemma arg_idents_OkD: "arg_idents as = Ok ps \<Longrightarrow> as = map Typed ps"
  by (induction as arbitrary: ps rule: arg_idents.induct) auto

lemma arg_idents_Ok: "arg_idents as = Ok ps \<longleftrightarrow> as = map Typed ps"
  using arg_idents_Typed arg_idents_OkD by auto

lemma spawn_run_eq:
  assumes "tc_spawn c = SpIdle"
  shows "spawn_run alloc_ok fut c =
    (if tc_state c \<noteq> 0 then (Err Busy, c)
     else if tc_handle c \<or> alloc_ok
     then (Ok SpawnToken, c\<lparr>tc_state := SPAWNED OR RUN_QUEUED, tc_handle := True, tc_future := Some fut,
            tc_queue := tc_queue c + 1\<rparr>)
     else (Err AllocFailed, c\<lparr>tc_future := None\<rparr>))"
  using assms by (simp add: spawn_run_def step_defs numeral_3_eq_3 Let_def)

text \<open>Whether a start finds the cell free and gets its work item, and what becomes of the cell.\<close>

definition can_start :: "bool \<Rightarrow> 'f task_cell \<Rightarrow> bool" where
  "can_start alloc_ok c \<longleftrightarrow> tc_state c = 0 \<and> (tc_handle c \<or> alloc_ok)"

definition started :: "'f \<Rightarrow> 'f task_cell \<Rightarrow> 'f task_cell \<Rightarrow> bool" where
  "started fut c c' \<longleftrightarrow>
     tc_state c' = SPAWNED OR RUN_QUEUED \<and> tc_future c' = Some fut \<and> tc_handle c' \<and> tc_queue c' = tc_queue c + 1"

definition not_started :: "'f task_cell \<Rightarrow> 'f task_cell" where
  "not_started c = (if tc_state c = 0 then c\<lparr>tc_future := None\<rparr> else c)"

text \<open>The subcommands: \<open>start\<close>, and the ones that only report.\<close>

definition reports :: "args \<Rightarrow> bool" where
  "reports a \<longleftrightarrow> subcommand a = Ok (Some (ascii ''status'')) \<or> subcommand a = Ok (Some (ascii ''stop''))"

definition starts :: "args \<Rightarrow> bool" where
  "starts a \<longleftrightarrow> subcommand a = Ok (Some (ascii ''start''))"

lemma subcommand_names: "ascii ''start'' \<noteq> ascii ''status''" "ascii ''start'' \<noteq> ascii ''stop''"
  by (simp_all add: ascii_def)

lemma subcommand_ok: "args_ok a \<Longrightarrow> \<exists>sub. subcommand a = Ok sub"
  by (simp add: subcommand_def args_get_slots)

lemma spawn_run_cases:
  assumes "tc_spawn c = SpIdle"
  shows "can_start alloc_ok c \<Longrightarrow> \<exists>c'. spawn_run alloc_ok fut c = (Ok SpawnToken, c') \<and> started fut c c'"
    and "\<not> can_start alloc_ok c \<Longrightarrow> \<exists>e. spawn_run alloc_ok fut c = (Err e, not_started c)"
  by (auto simp: spawn_run_eq [OF assms] can_start_def started_def not_started_def)

lemma task_main_exit:
  assumes ok: "args_ok (from_raw ac av)" and c: "tc_spawn c = SpIdle"
  shows "\<exists>n logs c'. entry nm (task_main name st running stopped usage alloc_ok fut) ac av c = Ok (n, logs, c') \<and>
    n = (if starts (from_raw ac av) \<and> can_start alloc_ok c \<or> reports (from_raw ac av) then 0 else 1) \<and>
    (n = 1 \<longrightarrow> (\<exists>text. logs = [err nm [text]])) \<and>
    (if starts (from_raw ac av) \<and> can_start alloc_ok c then started fut c c'
     else c' = (if starts (from_raw ac av) then not_started c else c))"
proof -
  obtain sub where sub: "subcommand (from_raw ac av) = Ok sub" using subcommand_ok [OF ok] by blast
  show ?thesis
  proof (cases "starts (from_raw ac av)")
    case True
    with sub have s: "sub = Some (ascii ''start'')" "\<not> reports (from_raw ac av)"
      using subcommand_names by (auto simp: starts_def reports_def)
    show ?thesis
    proof (cases "can_start alloc_ok c")
      case start: True
      with spawn_run_cases(1) [OF c] obtain c' where "spawn_run alloc_ok fut c = (Ok SpawnToken, c')" "started fut c c'" by blast
      with True start sub s show ?thesis by (simp add: entry_def task_main_def)
    next
      case busy: False
      with spawn_run_cases(2) [OF c] obtain e where "spawn_run alloc_ok fut c = (Err e, not_started c)" by blast
      with True busy sub s show ?thesis by (auto simp: entry_def task_main_def err_def)
    qed
  next
    case False
    with sub show ?thesis by (auto simp: entry_def task_main_def starts_def reports_def err_def)
  qed
qed

lemma multi_main_exit:
  assumes ok: "args_ok (from_raw ac av)" and c: "tc_spawn c = SpIdle" and p: "tc_spawn p = SpIdle"
  shows "\<exists>n logs c' p'. entry nm (multi_main a1 a2 cf pf show_u32) ac av (c, p, wakes) = Ok (n, logs, c', p', wakes) \<and>
    n = (if starts (from_raw ac av) \<and> can_start a1 c \<and> can_start a2 p \<or> reports (from_raw ac av) then 0 else 1) \<and>
    (n = 1 \<longrightarrow> (\<exists>text. logs = [err nm [text]])) \<and>
    (if starts (from_raw ac av) \<and> can_start a1 c
     then started cf c c' \<and> (if can_start a2 p then started pf p p' else p' = not_started p)
     else c' = (if starts (from_raw ac av) then not_started c else c) \<and> p' = p)"
proof -
  obtain sub where sub: "subcommand (from_raw ac av) = Ok sub" using subcommand_ok [OF ok] by blast
  show ?thesis
  proof (cases "starts (from_raw ac av)")
    case True
    with sub have s: "sub = Some (ascii ''start'')" "\<not> reports (from_raw ac av)"
      using subcommand_names by (auto simp: starts_def reports_def)
    show ?thesis
    proof (cases "can_start a1 c")
      case start: True
      with spawn_run_cases(1) [OF c] obtain c' where c': "spawn_run a1 cf c = (Ok SpawnToken, c')" "started cf c c'" by blast
      show ?thesis
      proof (cases "can_start a2 p")
        case both: True
        with spawn_run_cases(1) [OF p] obtain p' where "spawn_run a2 pf p = (Ok SpawnToken, p')" "started pf p p'" by blast
        with True start both sub s c' show ?thesis by (simp add: entry_def multi_main_def)
      next
        case half: False
        with spawn_run_cases(2) [OF p] obtain e where "spawn_run a2 pf p = (Err e, not_started p)" by blast
        with True start half sub s c' show ?thesis by (auto simp: entry_def multi_main_def err_def)
      qed
    next
      case busy: False
      with spawn_run_cases(2) [OF c] obtain e where "spawn_run a1 cf c = (Err e, not_started c)" by blast
      with True busy sub s show ?thesis by (auto simp: entry_def multi_main_def err_def)
    qed
  next
    case False
    with sub show ?thesis by (auto simp: entry_def multi_main_def starts_def reports_def err_def Let_def)
  qed
qed

lemma parse_main_args_Ok:
  "parse_main_args pairs = Ok n \<longleftrightarrow>
     (\<forall>p\<in>set pairs. fst p = ''name'') \<and> n = (if pairs = [] then None else Some (snd (last pairs)))"
  by (cases "pairs = []") (auto simp: parse_main_args_def main_args_Ok)

lemma one_typed_arg:
  "length xs \<le> 1 \<and> Receiver \<notin> set xs \<longleftrightarrow> xs = [] \<or> (\<exists>p. xs = [Typed p])"
proof (cases xs)
  case (Cons x ys)
  then show ?thesis by (cases x) auto
qed simp

lemma expand_main_Ok:
  "expand_main lx pkg name f = Ok e \<longleftrightarrow>
     \<not> fn_async f \<and> fn_output f \<noteq> ImplTrait \<and> (length (fn_inputs f) \<le> 1 \<and> Receiver \<notin> set (fn_inputs f)) \<and>
     (\<exists>m. (case name of Some lit \<Rightarrow> m = lit
           | None \<Rightarrow> \<exists>s. pkg = Some s \<and> m = replace_char (CHR ''-'') (CHR ''_'') s) \<and>
          ident_ok lx (m @ ''_main'') \<and>
          e = \<lparr>me_user_fn = fn_ident f, me_entry = m @ ''_main'', me_takes_args = (fn_inputs f \<noteq> []), me_module_name = m\<rparr>)"
  unfolding expand_main_def Let_def by (cases name; cases pkg) auto

lemma watcher_snoc: "watcher fadd over (ms @ [m]) = watcher_turn fadd over m (watcher fadd over ms)"
  by (simp add: watcher_def)

lemma u32_saturating_inc: "unat (u32_saturating_add a 1) = min (unat a + 1) (2 ^ 32 - 1)"
proof (cases "unat a + 1 < 2 ^ 32")
  case True
  then have "unat (a + 1) = unat a + 1" by (simp add: unat_word_ariths)
  with True show ?thesis by (simp add: u32_saturating_add_def)
next
  case False
  then have "unat (u32_saturating_add a 1) = unat (- 1 :: 32 word)" by (simp add: u32_saturating_add_def)
  also have "\<dots> = 2 ^ 32 - 1" by (simp add: unsigned_minus_1_eq_mask mask_eq_exp_minus_1)
  finally show ?thesis using False by simp
qed

lemma min_min: "(m :: nat) \<le> n \<Longrightarrow> min (min k n) m = min k m"
  by simp

lemma watcher_spikes: "unat (fst (watcher fadd over ms)) = min (length (snd (watcher fadd over ms))) (2 ^ 32 - 1)"
proof (induction ms rule: rev_induct)
  case Nil
  show ?case by (simp add: watcher_def)
next
  case (snoc m ms)
  then show ?case unfolding watcher_snoc
    by (cases "watcher fadd over ms") (simp add: watcher_turn_def Let_def u32_saturating_inc min_min)
qed

lemma multi_turn_permit:
  assumes "nf_idle n"
  shows "nf_idle (fst (multi_turn act (n, w))) \<and>
    (act = Produce \<longrightarrow> multi_turn act (n, w) = (notify_notify 1 n, w) \<and> nf_permit (notify_notify 1 n)) \<and>
    (act = Consume \<longrightarrow> snd (multi_turn act (n, w)) = (if nf_permit n then w + 1 else w) \<and>
       \<not> nf_permit (fst (multi_turn act (n, w))))"
proof (cases act)
  case Produce
  then show ?thesis using nf_idle_notify [OF assms, of 1] by (simp add: multi_turn_def notify_notify_eq [OF assms])
next
  case Consume
  then show ?thesis using assms
    by (cases "nf_permit n") (simp_all add: multi_turn_def notified_poll_permit notified_poll_empty nf_idle_def)
qed

text \<open>
  In \<open>multi_task\<close> the counter and the pending permit together never exceed the number of notifications,
  and the consumer's turn leaves no permit.
\<close>

lemma multi_wakes:
  "nf_idle (fst (fold multi_turn acts (notify_new, 0))) \<and>
   unat (snd (fold multi_turn acts (notify_new, 0))) + of_bool (nf_permit (fst (fold multi_turn acts (notify_new, 0))))
     \<le> length (filter (\<lambda>a. a = Produce) acts)"
proof (induction acts rule: rev_induct)
  case Nil
  show ?case by (simp add: nf_idle_def notify_new_def aw_new_def)
next
  case (snoc act acts)
  obtain n w where nw: "fold multi_turn acts (notify_new, 0) = (n, w)" by fastforce
  with snoc have n: "nf_idle n" and bound: "unat w + of_bool (nf_permit n) \<le> length (filter (\<lambda>a. a = Produce) acts)"
    by simp_all
  have "unat (w + 1) \<le> unat w + 1" by (simp add: unat_word_ariths)
  with multi_turn_permit [OF n, of act w] bound nw show ?case by (cases act) (auto split: if_splits)
qed

text \<open>The table of work queues: the PX4 names are the Rust names behind \<open>wq:\<close>, and no two are equal.\<close>

lemma wq_table_ok:
  "distinct (map fst wq_configurations) \<and>
   (\<forall>(ident, q)\<in>set wq_configurations. wq_name q = ''wq:'' @ ident \<and> sint (wq_relative_priority q) \<le> 0)"
  by (simp add: wq_configurations_def wq_config_new_def)

lemma expand_task_Ok:
  "expand_task lx crates wq f = Ok t \<longleftrightarrow>
     fn_async f \<and> fn_output f \<in> {Default, Type ''()'', Type ''!''} \<and> ident_ok lx wq \<and>
     (\<exists>ps. fn_inputs f = map Typed ps \<and>
        t = \<lparr>tm_mod = fn_ident f, tm_wq = wq, tm_name = fn_ident f, tm_args = ps, tm_crate = workqueue_path crates\<rparr>)"
proof (cases "\<exists>ps. fn_inputs f = map Typed ps")
  case True
  then obtain ps where ps: "fn_inputs f = map Typed ps" by blast
  have "map Typed ps = map Typed qs \<longleftrightarrow> qs = ps" for qs
    using inj_map_eq_map [of Typed ps qs] by (auto simp: inj_def)
  then show ?thesis
    unfolding expand_task_def ps arg_idents_Typed by (cases "fn_output f") auto
next
  case False
  then obtain e where "arg_idents (fn_inputs f) = Err e" using arg_idents_Ok by (cases "arg_idents (fn_inputs f)") auto
  with False show ?thesis unfolding expand_task_def by auto
qed

section \<open>Properties\<close>

text \<open>
  C31: the entry points of the example modules always return, for every \<open>argc\<close> and \<open>argv\<close> that keep the contract
  of \<open>from_raw\<close> (no fewer than \<open>argc\<close> slots). For the modules with one task: 0 for \<open>status\<close> and \<open>stop\<close>, and for a
  \<open>start\<close> that finds the task's cell free and gets a work item; otherwise 1, after exactly one
  line at the error level. A \<open>start\<close> that succeeds leaves the task queued once more, and any other
  call leaves the cell's state word, queue and handle as they are: a task that runs is never disturbed. For \<open>multi_task\<close>,
  which starts its consumer and then its producer, 0 also needs both cells, and a \<open>start\<close> that fails on the
  producer returns 1 and leaves the consumer started.
\<close>

theorem module_exit_codes:
  assumes "args_ok (from_raw ac av)" and "main \<in> {hello_main, gyro_main, heartbeat_main, template_main}"
    and "tc_spawn c = SpIdle" and "tc_spawn p = SpIdle"
  shows "(\<exists>n logs c'. entry nm (main alloc_ok fut) ac av c = Ok (n, logs, c') \<and>
      n = (if starts (from_raw ac av) \<and> can_start alloc_ok c \<or> reports (from_raw ac av) then 0 else 1) \<and>
      (n = 1 \<longrightarrow> (\<exists>text. logs = [err nm [text]])) \<and>
      (if starts (from_raw ac av) \<and> can_start alloc_ok c then started fut c c'
       else c' = (if starts (from_raw ac av) then not_started c else c))) \<and>
    (\<exists>n logs c' p'. entry nm (multi_main a1 a2 fut pf show_u32) ac av (c, p, wakes) = Ok (n, logs, c', p', wakes) \<and>
      n = (if starts (from_raw ac av) \<and> can_start a1 c \<and> can_start a2 p \<or> reports (from_raw ac av) then 0 else 1) \<and>
      (n = 1 \<longrightarrow> (\<exists>text. logs = [err nm [text]])) \<and>
      (if starts (from_raw ac av) \<and> can_start a1 c
       then started fut c c' \<and> (if can_start a2 p then started pf p p' else p' = not_started p)
       else c' = (if starts (from_raw ac av) then not_started c else c) \<and> p' = p))"
proof -
  from assms(2) obtain name st running stopped usage
    where main: "main alloc_ok fut = task_main name st running stopped usage alloc_ok fut"
    by (auto simp: hello_main_def gyro_main_def heartbeat_main_def template_main_def)
  show ?thesis unfolding main
    by (intro conjI task_main_exit [OF assms(1,3)] multi_main_exit [OF assms(1,3,4)])
qed

definition start_argv :: "byte_list option list option" where
  "start_argv = Some [Some (ascii ''hello_module''), Some (ascii ''start'')]"

lemma start_argv_starts: "args_ok (from_raw 2 start_argv)" "starts (from_raw 2 start_argv)"
  by (simp_all add: args_ok_def starts_def subcommand_def args_get_def args_len_def from_raw_def start_argv_def)

theorem module_exit_codes_witness:
  "\<exists>logs c'. entry (ascii ''hello_module'') (hello_main True (7 :: nat)) 2 start_argv cell_new = Ok (0, logs, c') \<and>
     tc_queue c' = 1"
  using module_exit_codes [OF start_argv_starts(1), of hello_main "cell_new :: nat task_cell" "cell_new :: nat task_cell"
      "ascii ''hello_module''" True 7 True True 8 "\<lambda>w. []" 0] start_argv_starts(2)
  by (auto simp: can_start_def started_def cell_new_def)

text \<open>
  A \<open>start\<close> of \<open>multi_task\<close> is not atomic: when the producer is still running but the consumer is not,
  it reports failure and yet has spawned the consumer.
\<close>

theorem multi_start_half:
  assumes "tc_spawn c = SpIdle" and "can_start a1 c" and "tc_spawn p = SpIdle" and "tc_state p \<noteq> 0"
    and "starts (from_raw ac av)"
  shows "\<exists>c'. entry nm (multi_main a1 a2 cf pf show_u32) ac av (c, p, wakes) =
      Ok (1, [err nm [ascii ''producer already running'']], c', p, wakes) \<and>
    tc_state c' = SPAWNED OR RUN_QUEUED \<and> tc_future c' = Some cf \<and> tc_queue c' = tc_queue c + 1"
  using assms
  by (simp add: entry_def multi_main_def starts_def can_start_def spawn_run_eq err_def)

text \<open>
  The module in the documentation of the crate \<open>px4\<close> panics on every \<open>start\<close> that succeeds: it drops
  the \<open>SpawnToken\<close> of \<open>try_spawn\<close> without \<open>forget\<close>.
\<close>

theorem facade_main_panics:
  "entry nm (facade_main True fut) 2 start_argv cell_new = Err ModulePanic"
  by (simp add: entry_def facade_main_def spawn_run_eq cell_new_def subcommand_def args_get_def args_len_def from_raw_def
      start_argv_def)

text \<open>
  What \<open>#[px4::main]\<close> accepts: a plain function with no argument or one that is not \<open>self\<close>, whose
  return type is not \<open>impl Trait\<close>, with only \<open>name\<close> arguments, of which the last counts; without one the
  package name with \<open>_\<close> for \<open>-\<close>. The entry point is the name followed by \<open>_main\<close>.
\<close>

theorem main_attribute_accepts:
  "res_bind (parse_main_args pairs) (\<lambda>name. expand_main lx pkg name f) = Ok e \<longleftrightarrow>
     (\<forall>p\<in>set pairs. fst p = ''name'') \<and> \<not> fn_async f \<and> fn_output f \<noteq> ImplTrait \<and>
     (fn_inputs f = [] \<or> (\<exists>p. fn_inputs f = [Typed p])) \<and>
     (\<exists>m. (if pairs \<noteq> [] then m = snd (last pairs) else \<exists>s. pkg = Some s \<and> m = replace_char (CHR ''-'') (CHR ''_'') s) \<and>
          ident_ok lx (m @ ''_main'') \<and>
          e = \<lparr>me_user_fn = fn_ident f, me_entry = m @ ''_main'', me_takes_args = (fn_inputs f \<noteq> []), me_module_name = m\<rparr>)"
  (is "?l \<longleftrightarrow> ?r")
proof -
  have "?l \<longleftrightarrow> (\<exists>n. parse_main_args pairs = Ok n \<and> expand_main lx pkg n f = Ok e)"
    by (auto simp: res_bind_def split: sum.splits)
  also have "\<dots> \<longleftrightarrow> ?r"
    unfolding parse_main_args_Ok expand_main_Ok one_typed_arg by (cases "pairs = []") simp_all
  finally show ?thesis .
qed


theorem main_attribute_accepts_witness:
  "res_bind (parse_main_args [(''name'', ''gyro'')])
     (\<lambda>name. expand_main word_lexer None name
        \<lparr>fn_ident = ''main'', fn_async = False, fn_inputs = [Typed ''args''], fn_output = Default\<rparr>) =
   Ok \<lparr>me_user_fn = ''main'', me_entry = ''gyro_main'', me_takes_args = True, me_module_name = ''gyro''\<rparr>"
proof -
  have "ident_ok word_lexer (''gyro'' @ ''_main'')"
    by (simp add: word_lexer_def char_class_defs)
  then show ?thesis unfolding main_attribute_accepts by simp
qed

text \<open>
  What \<open>#[task]\<close> accepts: an \<open>async fn\<close> that returns nothing, \<open>()\<close> or \<open>!\<close> and does not take \<open>self\<close>,
  with at least one argument of the attribute, all of them \<open>wq\<close>, of which the last, an identifier, counts.
  The module and the task are named after the function and take its arguments in order.
\<close>

theorem task_attribute_accepts:
  "res_bind (task_args pairs None) (\<lambda>wq. expand_task lx crates wq f) = Ok t \<longleftrightarrow>
     pairs \<noteq> [] \<and> (\<forall>p\<in>set pairs. fst p = ''wq'') \<and> fn_async f \<and>
     fn_output f \<in> {Default, Type ''()'', Type ''!''} \<and> ident_ok lx (snd (last pairs)) \<and>
     (\<exists>ps. fn_inputs f = map Typed ps \<and>
        t = \<lparr>tm_mod = fn_ident f, tm_wq = snd (last pairs), tm_name = fn_ident f, tm_args = ps,
             tm_crate = workqueue_path crates\<rparr>)"
proof -
  have "res_bind (task_args pairs None) (\<lambda>wq. expand_task lx crates wq f) = Ok t \<longleftrightarrow>
     (\<exists>wq. task_args pairs None = Ok wq \<and> expand_task lx crates wq f = Ok t)"
    by (auto simp: res_bind_def split: sum.splits)
  then show ?thesis by (auto simp: task_args_Ok expand_task_Ok)
qed

text \<open>
  \<open>gyro_watch\<close> raises one alert for each sample over the threshold, in order and with its timestamp,
  and numbers them from 1, saturating at the largest \<open>u32\<close>.
\<close>

theorem watcher_alerts:
  "map ga_timestamp (snd (watcher fadd over ms)) = map g_timestamp (filter (\<lambda>m. over (fadd (fadd (abs_f32 (g_x m)) (abs_f32 (g_y m))) (abs_f32 (g_z m)))) ms) \<and>
   map (\<lambda>a. unat (ga_spike_count a)) (snd (watcher fadd over ms)) =
     map (\<lambda>i. min (i + 1) (2 ^ 32 - 1)) [0..<length (snd (watcher fadd over ms))]"
proof (induction ms rule: rev_induct)
  case Nil
  show ?case by (simp add: watcher_def)
next
  case (snoc m ms)
  then show ?case using watcher_spikes [of fadd over ms] unfolding watcher_snoc
    by (cases "watcher fadd over ms") (simp add: watcher_turn_def Let_def u32_saturating_inc min_min)
qed


end
