(* ===== verification/Build_Scripts.thy ===== *)
theory Build_Scripts
  imports Msg_Emit
begin

text \<open>
  The build-time programs: \<open>xtask/src/main.rs\<close>, whose \<open>gen-msgs\<close> runs the generator over a PX4 tree, and
  \<open>crates/px4-sys/build.rs\<close>. The file system and the environment are records of functions that do not
  change during a run, and what a program does to the outside is its result: the files it writes, the lines
  it prints for Cargo, the settings of the C++ compiler. \<open>bindgen\<close> and \<open>cc\<close> are outside. A panic is a
  value of \<open>halt\<close>. Paths and texts are strings without encoding errors.
\<close>

section \<open>The outside\<close>

record host = files +
  is_dir :: "string \<Rightarrow> bool"
  read_dir :: "string \<Rightarrow> string + (string + string) list"
  create_dir_all :: "string \<Rightarrow> string + unit"
  write_ok :: "string \<Rightarrow> string + unit"
  env_var :: "string \<Rightarrow> string option"

text \<open>How a program ends early: an \<open>Err\<close> that \<open>main\<close> reports, or a panic.\<close>

datatype halt = Failed string | Panicked

text \<open>\<open>str::contains\<close>.\<close>

fun contains :: "string \<Rightarrow> string \<Rightarrow> bool" where
  "contains pat [] = (pat = [])"
| "contains pat (c # cs) = (take (length pat) (c # cs) = pat \<or> contains pat cs)"

text \<open>\<open>Path::extension\<close>.\<close>

definition extension :: "string \<Rightarrow> string option" where
  "extension p =
     (case file_name p of
        None \<Rightarrow> None
      | Some file \<Rightarrow>
          if CHR ''.'' \<notin> set (tl file) then None
          else Some (rev (takeWhile (\<lambda>c. c \<noteq> CHR ''.'') (rev file))))"

section \<open>Arguments of xtask\<close>

fun parse_flag :: "string list \<Rightarrow> string \<Rightarrow> string option" where
  "parse_flag [] key = None"
| "parse_flag (a # rest) key =
     (if a = key then (case rest of [] \<Rightarrow> None | v # vs \<Rightarrow> Some v) else parse_flag rest key)"

fun parse_px4_flag :: "string option \<Rightarrow> string list \<Rightarrow> string option" where
  "parse_px4_flag px4_autopilot_dir [] = px4_autopilot_dir"
| "parse_px4_flag px4_autopilot_dir (a # rest) =
     (if a = ''--px4'' then (case rest of [] \<Rightarrow> None | v # vs \<Rightarrow> Some v)
      else parse_px4_flag px4_autopilot_dir rest)"

section \<open>xtask gen-msgs\<close>

record gen_out =
  go_written :: "(string \<times> emitted) list"
  go_count :: nat
  go_skipped :: "(string \<times> string) list"

definition gen_out_new :: gen_out where
  "gen_out_new = \<lparr>go_written = [], go_count = 0, go_skipped = []\<rparr>"

definition out_file :: "string \<Rightarrow> string \<Rightarrow> string" where
  "out_file out path =
     (let stem = (case file_stem path of Some s \<Rightarrow> s | None \<Rightarrow> ''unknown'')
      in path_join out (camel_to_snake stem @ ''.rs''))"

definition gen_entry ::
  "lexer \<Rightarrow> host \<Rightarrow> nat \<Rightarrow> string list \<Rightarrow> string \<Rightarrow> string \<Rightarrow> gen_out \<Rightarrow> halt + gen_out" where
  "gen_entry lx h k search_path out path st =
     (if extension path \<noteq> Some ''msg'' then Ok st
      else case generate lx (files.truncate h) k path search_path of
             Inr ts \<Rightarrow>
               (case write_ok h (out_file out path) of
                  Inl e \<Rightarrow> Err (Failed (''write '' @ out_file out path @ '': '' @ e))
                | Inr u \<Rightarrow> Ok (st\<lparr>go_written := go_written st @ [(out_file out path, ts)], go_count := go_count st + 1\<rparr>))
           | Inl (GenErr (ParseErr e)) \<Rightarrow>
               (let stem = (case file_stem path of Some s \<Rightarrow> s | None \<Rightarrow> ''?'')
                in Ok (st\<lparr>go_skipped := go_skipped st @ [(stem, display_error e)]\<rparr>))
           | Inl e \<Rightarrow> Err Panicked)"

fun gen_entries ::
  "lexer \<Rightarrow> host \<Rightarrow> nat \<Rightarrow> string list \<Rightarrow> string \<Rightarrow> (string + string) list \<Rightarrow> gen_out \<Rightarrow> halt + gen_out" where
  "gen_entries lx h k search_path out [] st = Ok st"
| "gen_entries lx h k search_path out (entry # entries) st =
     (case entry of
        Inl e \<Rightarrow> Err (Failed (''readdir: '' @ e))
      | Inr path \<Rightarrow>
          res_bind (gen_entry lx h k search_path out path st) (gen_entries lx h k search_path out entries))"

fun gen_dirs ::
  "lexer \<Rightarrow> host \<Rightarrow> nat \<Rightarrow> string list \<Rightarrow> string \<Rightarrow> string list \<Rightarrow> gen_out \<Rightarrow> halt + gen_out" where
  "gen_dirs lx h k search_path out [] st = Ok st"
| "gen_dirs lx h k search_path out (dir # dirs) st =
     (case read_dir h dir of
        Inl e \<Rightarrow> Err (Failed (''readdir '' @ dir @ '': '' @ e))
      | Inr entries \<Rightarrow> res_bind (gen_entries lx h k search_path out entries st) (gen_dirs lx h k search_path out dirs))"

definition workspace_root :: "string \<Rightarrow> halt + string" where
  "workspace_root cargo_manifest_dir = ok_or (path_parent cargo_manifest_dir) Panicked"

definition msg_dirs :: "host \<Rightarrow> string \<Rightarrow> string list" where
  "msg_dirs h msg_dir =
     (let versioned_dir = path_join msg_dir ''versioned''
      in if is_dir h versioned_dir then [msg_dir, versioned_dir] else [msg_dir])"

definition gen_msgs :: "lexer \<Rightarrow> host \<Rightarrow> nat \<Rightarrow> string \<Rightarrow> string list \<Rightarrow> halt + gen_out" where
  "gen_msgs lx h k manifest_dir rest =
     res_bind (ok_or (parse_px4_flag (env_var h ''PX4_AUTOPILOT_DIR'') rest)
        (Failed ''gen-msgs: --px4 <DIR> required (or set PX4_AUTOPILOT_DIR)''))
       (\<lambda>px4.
          let msg_dir = path_join px4 ''msg''
          in if \<not> is_dir h msg_dir then Err (Failed (px4 @ '': no `msg/` subdirectory''))
             else res_bind
               (case parse_flag rest ''--out'' of
                  Some out \<Rightarrow> Ok out
                | None \<Rightarrow> res_bind (workspace_root manifest_dir)
                    (\<lambda>root. Ok (path_join (path_join (path_join root ''crates'') ''px4-msg-codegen'') ''generated'')))
               (\<lambda>out.
                  case create_dir_all h out of
                    Inl e \<Rightarrow> Err (Failed (''mkdir '' @ out @ '': '' @ e))
                  | Inr u \<Rightarrow> gen_dirs lx h k (msg_dirs h msg_dir) out (msg_dirs h msg_dir) gen_out_new))"

section \<open>xtask gen-sys and main\<close>

datatype sys_note = Detected string | CouldNotRead string | Regenerating string string

text \<open>\<open>run_bindgen\<close> is the parameter \<open>bindgen\<close> on the header and the file to write.\<close>

definition run_bindgen :: "(string \<Rightarrow> string + string) \<Rightarrow> host \<Rightarrow> string \<Rightarrow> string \<Rightarrow> halt + string \<times> string" where
  "run_bindgen bindgen h header out =
     (case bindgen header of
        Inl e \<Rightarrow> Err (Failed (''bindgen: '' @ e))
      | Inr bindings \<Rightarrow>
          res_bind
            (case path_parent out of
               None \<Rightarrow> Ok ()
             | Some parent \<Rightarrow>
                 (case create_dir_all h parent of
                    Inl e \<Rightarrow> Err (Failed (''mkdir '' @ parent @ '': '' @ e))
                  | Inr u \<Rightarrow> Ok ()))
            (\<lambda>u. case write_ok h out of
               Inl e \<Rightarrow> Err (Failed (''write '' @ out @ '': '' @ e))
             | Inr u \<Rightarrow> Ok (out, bindings)))"

definition gen_sys ::
  "(string \<Rightarrow> string + string) \<Rightarrow> host \<Rightarrow> string \<Rightarrow> string list \<Rightarrow> halt + sys_note list \<times> (string \<times> string)" where
  "gen_sys bindgen h manifest_dir rest =
     res_bind (workspace_root manifest_dir)
       (\<lambda>root.
          let crate_dir = path_join (path_join root ''crates'') ''px4-sys'';
              wrapper = path_join crate_dir ''wrapper.h'';
              out = path_join (path_join crate_dir ''bindings'') ''bindings.rs''
          in res_bind
               (case parse_px4_flag (env_var h ''PX4_AUTOPILOT_DIR'') rest of
                  None \<Rightarrow> Ok []
                | Some px4 \<Rightarrow>
                    let marker = path_join px4 ''platforms/common/uORB/uORB.h''
                    in case read_to_string h marker of
                         Inr body \<Rightarrow>
                           if contains ''orb_id_size_t'' body then Ok [Detected px4]
                           else Err (Failed (px4 @ '': pre-v1.15 PX4 tree (no orb_id_size_t in uORB.h)''))
                       | Inl e \<Rightarrow> Ok [CouldNotRead marker])
               (\<lambda>notes. res_bind (run_bindgen bindgen h wrapper out)
                  (\<lambda>w. Ok (notes @ [Regenerating wrapper out], w))))"

text \<open>The exit code of \<open>main\<close>, and the error it prints; a panic of Rust's runtime exits with 101.\<close>

definition xtask_main ::
  "(string list \<Rightarrow> halt + 'a) \<Rightarrow> (string list \<Rightarrow> halt + 'b) \<Rightarrow> string list \<Rightarrow> nat \<times> string option" where
  "xtask_main sys msgs args =
     (case tl args of
        [] \<Rightarrow> (2, None)
      | cmd # rest \<Rightarrow>
          let result =
            (if cmd = ''gen-sys'' then res_bind (sys rest) (\<lambda>_. Ok ())
             else if cmd = ''gen-msgs'' then res_bind (msgs rest) (\<lambda>_. Ok ())
             else if cmd \<in> {''help'', ''-h'', ''--help''} then Ok ()
             else Err (Failed (''unknown subcommand: '' @ cmd)))
          in case result of
               Inr u \<Rightarrow> (0, None)
             | Inl (Failed e) \<Rightarrow> (1, Some e)
             | Inl Panicked \<Rightarrow> (101, None))"

section \<open>The build script of px4-sys\<close>

datatype cargo_line =
    RerunIfChanged string
  | RerunIfEnvChanged string
  | CheckCfg string
  | RustcCfg string
  | Warning string

definition MIN_PX4_MARKER_FILE :: string where
  "MIN_PX4_MARKER_FILE = ''platforms/common/uORB/uORB.h''"

definition MIN_PX4_MARKER :: string where
  "MIN_PX4_MARKER = ''orb_id_size_t''"

text \<open>\<open>copy_ok\<close> says whether \<open>fs::copy\<close> works; the result is the contents of \<open>$OUT_DIR/bindings.rs\<close>.\<close>

definition generate_bindings ::
  "(string \<Rightarrow> string + string) \<Rightarrow> host \<Rightarrow> string \<Rightarrow> string \<Rightarrow> halt + cargo_line list \<times> (string \<times> string)" where
  "generate_bindings bindgen h crate_dir out_dir =
     (let out_file = path_join out_dir ''bindings.rs'';
          snapshot = path_join (path_join crate_dir ''bindings'') ''bindings.rs'';
          header = path_join crate_dir ''wrapper.h''
      in case bindgen header of
           Inr bindings \<Rightarrow>
             (case write_ok h out_file of Inl e \<Rightarrow> Err Panicked | Inr u \<Rightarrow> Ok ([], (out_file, bindings)))
         | Inl e \<Rightarrow>
             if \<not> is_file h snapshot \<and> \<not> is_dir h snapshot then Err Panicked
             else (case read_to_string h snapshot of
                     Inl e' \<Rightarrow> Err Panicked
                   | Inr body \<Rightarrow>
                       (case write_ok h out_file of
                          Inl e' \<Rightarrow> Err Panicked
                        | Inr u \<Rightarrow> Ok ([Warning (''bindgen failed ('' @ e @ ''); falling back to vendored snapshot at '' @ snapshot)],
                                      (out_file, body)))))"

definition verify_px4_version :: "host \<Rightarrow> string \<Rightarrow> halt + cargo_line list" where
  "verify_px4_version h px4_dir =
     (let marker = path_join px4_dir MIN_PX4_MARKER_FILE
      in case read_to_string h marker of
           Inl e \<Rightarrow> Err Panicked
         | Inr body \<Rightarrow> if contains MIN_PX4_MARKER body then Ok [RerunIfChanged marker] else Err Panicked)"

datatype cc_setting =
    Cpp
  | Std string
  | SrcFile string
  | Include string
  | Flag string
  | FlagIfSupported string
  | Define string "string option"

definition nuttx_includes :: "host \<Rightarrow> string \<Rightarrow> string option \<Rightarrow> string list" where
  "nuttx_includes h px4_dir build_dir =
     (case env_var h ''PX4_RS_BOARD_DIR'' of None \<Rightarrow> [] | Some board_dir \<Rightarrow> [path_join board_dir ''src'']) @
     [path_join px4_dir ''platforms/nuttx/src/px4/common/include''] @
     (case env_var h ''PX4_RS_CHIP'' of
        None \<Rightarrow> []
      | Some chip \<Rightarrow>
          let vendor = takeWhile (\<lambda>c. \<not> is_ascii_digit c) chip
          in [path_join (path_join (path_join (path_join px4_dir ''platforms/nuttx/src/px4'') vendor) chip) ''include'']) @
     (case env_var h ''PX4_RS_ARCH_FAMILY'' of
        None \<Rightarrow> []
      | Some arch \<Rightarrow> [path_join (path_join px4_dir ''platforms/nuttx/NuttX/nuttx/arch/arm/src'') arch]) @
     [path_join px4_dir ''platforms/nuttx/NuttX/nuttx/arch/arm/src/chip'',
      path_join px4_dir ''platforms/nuttx/NuttX/nuttx/arch/arm/src/common'',
      path_join px4_dir ''platforms/nuttx/NuttX/apps/include''] @
     (case build_dir of None \<Rightarrow> [] | Some bd \<Rightarrow> [path_join bd ''external/Install/include''])"

definition nuttx_system_includes :: "string \<Rightarrow> string list" where
  "nuttx_system_includes px4_dir =
     [path_join px4_dir ''platforms/nuttx/NuttX/include/cxx'',
      path_join px4_dir ''platforms/nuttx/NuttX/nuttx/include/cxx'',
      path_join px4_dir ''platforms/nuttx/NuttX/nuttx/include'']"

definition include_dirs :: "host \<Rightarrow> string list \<Rightarrow> cc_setting list" where
  "include_dirs h ps = map Include (filter (is_dir h) ps)"

definition posix_settings :: "host \<Rightarrow> string \<Rightarrow> cc_setting list" where
  "posix_settings h px4_dir =
     [Define ''__PX4_POSIX'' None, Define ''__PX4_LINUX'' None, Define ''CONFIG_ARCH_BOARD_PX4_SITL'' None,
      Define ''ENABLE_LOCKSTEP_SCHEDULER'' None, Define ''__STDC_FORMAT_MACROS'' None,
      Define ''__CUSTOM_FILE_IO__'' None, Define ''noreturn_function'' (Some ''__attribute__((noreturn))''),
      Define ''MODULE_NAME'' (Some [CHR 0x22, CHR ''p'', CHR ''x'', CHR ''4'', CHR ''_'', CHR ''r'', CHR ''s'', CHR ''_'',
        CHR ''w'', CHR ''r'', CHR ''a'', CHR ''p'', CHR ''p'', CHR ''e'', CHR ''r'', CHR 0x22]),
      Flag ''-includevisibility.h'', Flag ''-fno-exceptions''] @
     include_dirs h (map (path_join px4_dir)
       [''platforms/posix/include'', ''platforms/posix/src/px4/common/include'',
        ''platforms/posix/src/px4/generic/generic/include'', ''boards/px4/sitl/src''])"

definition nuttx_settings :: "host \<Rightarrow> string \<Rightarrow> string option \<Rightarrow> cc_setting list" where
  "nuttx_settings h px4_dir build_dir =
     [Define ''__PX4_NUTTX'' None, Define ''__STDC_FORMAT_MACROS'' None, Define ''__CUSTOM_FILE_IO__'' None,
      Define ''_SYS_CDEFS_H_'' None, Define ''_SYS_REENT_H_'' None, Define ''NDEBUG'' None,
      Define ''MODULE_NAME'' (Some [CHR 0x22, CHR ''p'', CHR ''x'', CHR ''4'', CHR ''_'', CHR ''r'', CHR ''s'', CHR ''_'',
        CHR ''w'', CHR ''r'', CHR ''a'', CHR ''p'', CHR ''p'', CHR ''e'', CHR ''r'', CHR 0x22]),
      Flag ''-includevisibility.h'', Flag ''-nostdinc++'', Flag ''-fno-exceptions'', Flag ''-fno-rtti'',
      Flag ''-fno-sized-deallocation'', Flag ''-fno-threadsafe-statics'', Flag ''-fcheck-new''] @
     (case env_var h ''PX4_RS_BOARD_NAME'' of
        None \<Rightarrow> [] | Some name \<Rightarrow> [Define (''CONFIG_ARCH_BOARD_'' @ name) None]) @
     include_dirs h (nuttx_includes h px4_dir build_dir) @
     concat (map (\<lambda>p. [Flag ''-isystem'', Flag p]) (filter (is_dir h) (nuttx_system_includes px4_dir)))"

definition compile_trampolines :: "host \<Rightarrow> string \<Rightarrow> string \<Rightarrow> cc_setting list \<times> cargo_line list" where
  "compile_trampolines h crate_dir px4_dir =
     (let platform = (case env_var h ''PX4_RS_PLATFORM'' of Some p \<Rightarrow> p | None \<Rightarrow> ''nuttx'');
          build_dir = env_var h ''PX4_RS_BUILD_DIR'';
          posix = (platform = ''posix'')
      in ([Cpp, Std ''gnu++17'', SrcFile (path_join crate_dir ''wrapper.cpp''), Include crate_dir,
           FlagIfSupported ''-Wno-unused-parameter'', FlagIfSupported ''-Wno-address-of-packed-member''] @
          (if posix then posix_settings h px4_dir else nuttx_settings h px4_dir build_dir) @
          include_dirs h (map (path_join px4_dir)
            [''platforms/common/include'', ''platforms/common'', ''src'', ''src/lib'', ''src/lib/matrix'',
             ''src/include'', ''src/modules'', ''msg'']) @
          (case build_dir of
             None \<Rightarrow> []
           | Some bd \<Rightarrow> [Include bd, Include (path_join (path_join bd ''src'') ''lib'')]),
          (if posix then []
           else map RerunIfEnvChanged [''PX4_RS_BOARD_NAME'', ''PX4_RS_BOARD_DIR'', ''PX4_RS_CHIP'', ''PX4_RS_ARCH_FAMILY'']) @
          (case build_dir of
             None \<Rightarrow> [Warning ''PX4_RS_BUILD_DIR unset'']
           | Some bd \<Rightarrow> []) @
          map (\<lambda>rel. RerunIfChanged (path_join px4_dir rel))
            [''platforms/common/uORB/uORB.h'', ''platforms/common/uORB/SubscriptionCallback.hpp'',
             ''platforms/common/include/px4_platform_common/px4_work_queue/WorkItem.hpp'',
             ''platforms/common/include/px4_platform_common/px4_work_queue/ScheduledWorkItem.hpp'',
             ''platforms/common/include/px4_platform_common/px4_work_queue/WorkQueueManager.hpp'',
             ''src/drivers/drv_hrt.h''] @
          [RerunIfEnvChanged ''PX4_RS_PLATFORM'', RerunIfEnvChanged ''PX4_RS_BUILD_DIR'']))"

record built =
  bd_bindings :: "string \<times> string"
  bd_lines :: "cargo_line list"
  bd_trampolines :: "cc_setting list option"

definition build_main :: "(string \<Rightarrow> string + string) \<Rightarrow> host \<Rightarrow> string \<Rightarrow> halt + built" where
  "build_main bindgen h crate_dir =
     (case env_var h ''OUT_DIR'' of
        None \<Rightarrow> Err Panicked
      | Some out_dir \<Rightarrow>
          let start = [RerunIfChanged ''wrapper.h'', RerunIfChanged ''wrapper.cpp'',
                RerunIfEnvChanged ''PX4_AUTOPILOT_DIR'', RerunIfEnvChanged ''PX4_RS_BUILD_TRAMPOLINES'',
                CheckCfg ''cfg(px4_rs_trampolines)'']
          in res_bind (generate_bindings bindgen h crate_dir out_dir)
            (\<lambda>(notes, bindings).
               case env_var h ''PX4_AUTOPILOT_DIR'' of
                 None \<Rightarrow> Ok \<lparr>bd_bindings = bindings, bd_lines = start @ notes, bd_trampolines = None\<rparr>
               | Some px4_dir \<Rightarrow>
                   res_bind (verify_px4_version h px4_dir)
                     (\<lambda>seen.
                        if env_var h ''PX4_RS_BUILD_TRAMPOLINES'' = None
                        then Ok \<lparr>bd_bindings = bindings, bd_lines = start @ notes @ seen, bd_trampolines = None\<rparr>
                        else (case compile_trampolines h crate_dir px4_dir of
                          (settings, printed) \<Rightarrow>
                            Ok \<lparr>bd_bindings = bindings,
                                bd_lines = start @ notes @ seen @ printed @ [RustcCfg ''px4_rs_trampolines''],
                                bd_trampolines = Some settings\<rparr>))))"

section \<open>Facts\<close>

lemma contains_iff: "contains pat s \<longleftrightarrow> (\<exists>a b. s = a @ pat @ b)"
proof (induction s)
  case (Cons c cs)
  have "take (length pat) (c # cs) = pat \<longleftrightarrow> (\<exists>b. c # cs = pat @ b)"
    by (metis append_eq_conv_conj append_take_drop_id)
  moreover have "(\<exists>a b. c # cs = a @ pat @ b) \<longleftrightarrow> (\<exists>b. c # cs = pat @ b) \<or> (\<exists>a b. cs = a @ pat @ b)"
    by (metis append_Cons append_Nil neq_Nil_conv list.inject)
  ultimately show ?case using Cons by simp
qed auto

text \<open>What the entries of a list of directories produce.\<close>

definition is_msg :: "string \<Rightarrow> bool" where
  "is_msg p \<longleftrightarrow> extension p = Some ''msg''"

definition writes ::
  "lexer \<Rightarrow> host \<Rightarrow> nat \<Rightarrow> string list \<Rightarrow> string \<Rightarrow> string list \<Rightarrow> (string \<times> emitted) list" where
  "writes lx h k search_path out ps =
     List.map_filter (\<lambda>p. case generate lx (files.truncate h) k p search_path of
        Inr ts \<Rightarrow> Some (out_file out p, ts) | Inl e \<Rightarrow> None) (filter is_msg ps)"

lemma writes_simps:
  "writes lx h k sp out [] = []"
  "writes lx h k sp out (ps @ qs) = writes lx h k sp out ps @ writes lx h k sp out qs"
  by (simp_all add: writes_def map_filter_def)

lemma gen_entry_writes:
  assumes "gen_entry lx h k sp out p st = Ok st'"
  shows "go_written st' = go_written st @ writes lx h k sp out [p] \<and>
    go_count st' = go_count st + length (writes lx h k sp out [p]) \<and>
    length (go_skipped st') + length (writes lx h k sp out [p]) = length (go_skipped st) + length (filter is_msg [p])"
  using assms
  by (auto simp: gen_entry_def writes_def is_msg_def map_filter_def Let_def
      split: if_splits sum.splits build_error.splits gen_error.splits)

text \<open>\<open>gen_out\<close> grows from one state to the next by what the entries \<open>ps\<close> produce.\<close>

definition grows ::
  "lexer \<Rightarrow> host \<Rightarrow> nat \<Rightarrow> string list \<Rightarrow> string \<Rightarrow> string list \<Rightarrow> gen_out \<Rightarrow> gen_out \<Rightarrow> bool" where
  "grows lx h k sp out ps st st' \<longleftrightarrow>
     go_written st' = go_written st @ writes lx h k sp out ps \<and>
     go_count st' = go_count st + length (writes lx h k sp out ps) \<and>
     length (go_skipped st') + length (writes lx h k sp out ps) = length (go_skipped st) + length (filter is_msg ps)"

lemma grows_Nil: "grows lx h k sp out [] st st"
  by (simp add: grows_def writes_simps)

lemma grows_append:
  "grows lx h k sp out ps st st' \<Longrightarrow> grows lx h k sp out qs st' st'' \<Longrightarrow> grows lx h k sp out (ps @ qs) st st''"
  by (auto simp: grows_def writes_simps)

fun read_paths :: "(string + string) list \<Rightarrow> string list" where
  "read_paths [] = []"
| "read_paths (Inl e # es) = read_paths es"
| "read_paths (Inr p # es) = p # read_paths es"

lemma gen_entries_grows: "gen_entries lx h k sp out es st = Ok st' \<Longrightarrow> grows lx h k sp out (read_paths es) st st'"
proof (induction es arbitrary: st)
  case (Cons entry es)
  then obtain p st1 where p: "entry = Inr p" and "gen_entry lx h k sp out p st = Ok st1"
    and *: "gen_entries lx h k sp out es st1 = Ok st'" by (auto split: sum.splits)
  then have "grows lx h k sp out [p] st st1" using gen_entry_writes unfolding grows_def by blast
  from grows_append [OF this Cons.IH [OF *]] p show ?case by simp
qed (simp add: grows_Nil)

text \<open>The entries of directories, in order.\<close>

definition entries_of :: "host \<Rightarrow> string list \<Rightarrow> string list" where
  "entries_of h dirs = concat (map (\<lambda>d. case read_dir h d of Inr es \<Rightarrow> read_paths es | Inl e \<Rightarrow> []) dirs)"

lemma gen_dirs_grows: "gen_dirs lx h k sp out dirs st = Ok st' \<Longrightarrow> grows lx h k sp out (entries_of h dirs) st st'"
proof (induction dirs arbitrary: st)
  case (Cons d dirs)
  then obtain es st1 where es: "read_dir h d = Inr es" and 1: "gen_entries lx h k sp out es st = Ok st1"
    and 2: "gen_dirs lx h k sp out dirs st1 = Ok st'" by (auto split: sum.splits)
  from grows_append [OF gen_entries_grows [OF 1] Cons.IH [OF 2]] es show ?case by (simp add: entries_of_def)
qed (simp add: entries_of_def grows_Nil)

text \<open>The output directory of a run.\<close>

definition out_dir :: "string \<Rightarrow> string list \<Rightarrow> string" where
  "out_dir manifest_dir rest =
     (case parse_flag rest ''--out'' of
        Some out \<Rightarrow> out
      | None \<Rightarrow> path_join (path_join (path_join (the (path_parent manifest_dir)) ''crates'') ''px4-msg-codegen'') ''generated'')"

lemma gen_msgs_grows:
  assumes "gen_msgs lx h k manifest_dir rest = Ok st"
  obtains px4 where "parse_px4_flag (env_var h ''PX4_AUTOPILOT_DIR'') rest = Some px4"
    and "let dirs = msg_dirs h (path_join px4 ''msg'')
         in grows lx h k dirs (out_dir manifest_dir rest) (entries_of h dirs) gen_out_new st"
  using assms
  by (force simp: gen_msgs_def Let_def workspace_root_def out_dir_def split: if_splits sum.splits option.splits
      dest!: gen_dirs_grows)

text \<open>The contents a list of writes leaves at a path: the last one counts.\<close>

definition left_at :: "(string \<times> emitted) list \<Rightarrow> string \<Rightarrow> emitted option" where
  "left_at ws path = map_of (rev ws) path"

lemma left_at_append: "left_at (xs @ ys) path = (case left_at ys path of Some e \<Rightarrow> Some e | None \<Rightarrow> left_at xs path)"
  by (simp add: left_at_def map_add_def split: option.split)

lemma writes_mem:
  "(f, ts) \<in> set (writes lx h k sp out ps) \<longleftrightarrow>
     (\<exists>p\<in>set ps. is_msg p \<and> f = out_file out p \<and> generate lx (files.truncate h) k p sp = Ok ts)"
  by (force simp: writes_def map_filter_def split: sum.splits)

lemma left_at_unique:
  assumes "(f, ts) \<in> set ws" and "\<And>ts'. (f, ts') \<in> set ws \<Longrightarrow> ts' = ts"
  shows "left_at ws f = Some ts"
proof -
  from assms(1) have "(f, ts) \<in> set (rev ws)" by simp
  then obtain ts' where "map_of (rev ws) f = Some ts'" using weak_map_of_SomeI by metis
  with assms(2) [of ts'] show ?thesis by (auto simp: left_at_def dest: map_of_SomeD)
qed

lemma bindings_no_cfg: "generate_bindings bindgen h crate_dir od = Ok (notes, w) \<Longrightarrow> RustcCfg c \<notin> set notes"
  by (auto simp: generate_bindings_def Let_def split: sum.splits if_splits)

lemma verify_Ok:
  assumes "verify_px4_version h px4 = Ok seen"
  shows "\<exists>body a z. read_to_string h (path_join px4 MIN_PX4_MARKER_FILE) = Ok body \<and> body = a @ MIN_PX4_MARKER @ z"
    and "RustcCfg c \<notin> set seen"
  using assms by (auto simp: verify_px4_version_def Let_def contains_iff split: sum.splits if_splits)

lemma trampolines_no_cfg: "RustcCfg c \<notin> set (snd (compile_trampolines h crate_dir px4))"
  by (auto simp: compile_trampolines_def Let_def split: option.split)

lemma include_dirs_mem: "Include p \<in> set (include_dirs h ps) \<longleftrightarrow> p \<in> set ps \<and> is_dir h p"
  by (auto simp: include_dirs_def)

lemma posix_includes: "Include p \<in> set (posix_settings h px4) \<Longrightarrow> is_dir h p"
  unfolding posix_settings_def set_append Un_iff include_dirs_mem by simp

lemma nuttx_includes_exist: "Include p \<in> set (nuttx_settings h px4 bd) \<Longrightarrow> is_dir h p"
  unfolding nuttx_settings_def set_append Un_iff include_dirs_mem
  by (auto split: option.splits if_splits)

lemma trampoline_includes:
  assumes "Include p \<in> set (fst (compile_trampolines h crate_dir px4))"
  shows "is_dir h p \<or> p = crate_dir \<or>
    (\<exists>bd. env_var h ''PX4_RS_BUILD_DIR'' = Some bd \<and> p \<in> {bd, path_join (path_join bd ''src'') ''lib''})"
  using assms posix_includes nuttx_includes_exist
  unfolding compile_trampolines_def Let_def fst_conv set_append Un_iff include_dirs_mem
  by (cases "env_var h ''PX4_RS_BUILD_DIR''"; cases "env_var h ''PX4_RS_PLATFORM''") (auto split: if_splits)

lemma build_main_cases:
  assumes "build_main bindgen h crate_dir = Ok b"
  obtains (plain) "env_var h ''PX4_AUTOPILOT_DIR'' = None" "bd_trampolines b = None"
      "RustcCfg ''px4_rs_trampolines'' \<notin> set (bd_lines b)"
  | (seen) px4 seen where "env_var h ''PX4_AUTOPILOT_DIR'' = Some px4" "verify_px4_version h px4 = Ok seen"
      "env_var h ''PX4_RS_BUILD_TRAMPOLINES'' = None" "bd_trampolines b = None"
      "RustcCfg ''px4_rs_trampolines'' \<notin> set (bd_lines b)"
  | (full) px4 seen where "env_var h ''PX4_AUTOPILOT_DIR'' = Some px4" "verify_px4_version h px4 = Ok seen"
      "env_var h ''PX4_RS_BUILD_TRAMPOLINES'' \<noteq> None"
      "bd_trampolines b = Some (fst (compile_trampolines h crate_dir px4))"
      "RustcCfg ''px4_rs_trampolines'' \<in> set (bd_lines b)"
proof -
  from assms obtain out printed w where out: "env_var h ''OUT_DIR'' = Some out"
    and g: "generate_bindings bindgen h crate_dir out = Ok (printed, w)"
    by (auto simp: build_main_def Let_def split: option.splits)
  note no_cfg = bindings_no_cfg [OF g]
  show thesis
  proof (cases "env_var h ''PX4_AUTOPILOT_DIR''")
    case None
    with assms out g no_cfg show thesis by (intro plain) (auto simp: build_main_def Let_def)
  next
    case (Some px4)
    with assms out g obtain seen where v: "verify_px4_version h px4 = Ok seen"
      by (auto simp: build_main_def Let_def)
    show thesis
    proof (cases "env_var h ''PX4_RS_BUILD_TRAMPOLINES''")
      case None
      with assms out g no_cfg Some v verify_Ok(2) [OF v] show thesis
        by (intro seen [OF Some v]) (auto simp: build_main_def Let_def)
    next
      case (Some t)
      with assms out g \<open>env_var h ''PX4_AUTOPILOT_DIR'' = Some px4\<close> v show thesis
        by (intro full [OF \<open>env_var h ''PX4_AUTOPILOT_DIR'' = Some px4\<close> v])
           (auto simp: build_main_def Let_def split: prod.splits)
    qed
  qed
qed

section \<open>Properties\<close>

text \<open>
  C32: a \<open>gen-msgs\<close> that succeeds accounts for every \<open>.msg\<close> file of the tree: it counts the files it wrote,
  and each file is either written or listed as skipped; and a versioned message shadows a legacy one of the
  same name: at the end the file of that name holds the code generated from the versioned directory.
\<close>

theorem gen_msgs_accounts:
  assumes "gen_msgs lx h k manifest_dir rest = Ok st"
    and "parse_px4_flag (env_var h ''PX4_AUTOPILOT_DIR'') rest = Some px4"
    and "dirs = msg_dirs h (path_join px4 ''msg'')"
  shows "go_count st = length (go_written st) \<and>
    length (go_written st) + length (go_skipped st) = length (filter is_msg (entries_of h dirs)) \<and>
    (\<forall>v p ts. dirs = [path_join px4 ''msg'', v] \<longrightarrow> p \<in> set (entries_of h [v]) \<longrightarrow> is_msg p \<longrightarrow>
       generate lx (files.truncate h) k p dirs = Ok ts \<longrightarrow>
       (\<forall>q\<in>set (entries_of h [v]). is_msg q \<and> out_file (out_dir manifest_dir rest) q = out_file (out_dir manifest_dir rest) p \<longrightarrow> q = p) \<longrightarrow>
       left_at (go_written st) (out_file (out_dir manifest_dir rest) p) = Some ts)"
proof -
  let ?out = "out_dir manifest_dir rest"
  from gen_msgs_grows [OF assms(1)] assms(2,3) have g: "grows lx h k dirs ?out (entries_of h dirs) gen_out_new st"
    by (auto simp: Let_def)
  have "left_at (go_written st) (out_file ?out p) = Some ts"
    if dirs: "dirs = [path_join px4 ''msg'', v]" and p: "p \<in> set (entries_of h [v])" "is_msg p"
      "generate lx (files.truncate h) k p dirs = Ok ts"
      and only: "\<forall>q\<in>set (entries_of h [v]). is_msg q \<and> out_file ?out q = out_file ?out p \<longrightarrow> q = p" for v p ts
  proof -
    have "left_at (writes lx h k dirs ?out (entries_of h [v])) (out_file ?out p) = Some ts"
    proof (rule left_at_unique)
      show "(out_file ?out p, ts) \<in> set (writes lx h k dirs ?out (entries_of h [v]))" using p by (auto simp: writes_mem)
      show "ts' = ts" if "(out_file ?out p, ts') \<in> set (writes lx h k dirs ?out (entries_of h [v]))" for ts'
        using that p only unfolding writes_mem by fastforce
    qed
    moreover have "entries_of h dirs = entries_of h [path_join px4 ''msg''] @ entries_of h [v]"
      by (simp add: dirs entries_of_def)
    ultimately show ?thesis using g by (simp add: grows_def writes_simps gen_out_new_def left_at_append)
  qed
  with g show ?thesis by (simp add: grows_def gen_out_new_def)
qed

text \<open>A PX4 tree with one message in both directories, of different sizes.\<close>

definition px4_tree :: host where
  "px4_tree = \<lparr>is_file = (\<lambda>p. p \<in> {''px4/msg/A.msg'', ''px4/msg/versioned/A.msg''}),
     read_to_string = (\<lambda>p. if p = ''px4/msg/A.msg'' then Ok ''uint64 a''
        else if p = ''px4/msg/versioned/A.msg'' then Ok (''uint64 a'' @ [CHR 0x0A] @ ''uint64 b'') else Err ''not found''),
     is_dir = (\<lambda>p. p \<in> {''px4/msg'', ''px4/msg/versioned''}),
     read_dir = (\<lambda>p. if p = ''px4/msg'' then Ok [Ok ''px4/msg/A.msg'', Ok ''px4/msg/CMakeLists.txt'']
        else if p = ''px4/msg/versioned'' then Ok [Ok ''px4/msg/versioned/A.msg''] else Err ''not found''),
     create_dir_all = (\<lambda>p. Ok ()), write_ok = (\<lambda>p. Ok ()), env_var = (\<lambda>v. None)\<rparr>"

lemmas path_eval = path_join_def file_stem_def file_name_def stem_of_def extension_def

lemma px4_tree_layouts:
  "parse_at (files.truncate px4_tree) ''px4/msg/A.msg'' = Ok \<lparr>d_name = ''A'', d_snake_name = ''a'',
     d_fields = [\<lparr>f_name = ''a'', f_ty = Scalar TU64\<rparr>], d_constants = [], d_topics = [''a''], d_message_version = None\<rparr>"
  "parse_at (files.truncate px4_tree) ''px4/msg/versioned/A.msg'' = Ok \<lparr>d_name = ''A'', d_snake_name = ''a'',
     d_fields = [\<lparr>f_name = ''a'', f_ty = Scalar TU64\<rparr>, \<lparr>f_name = ''b'', f_ty = Scalar TU64\<rparr>],
     d_constants = [], d_topics = [''a''], d_message_version = None\<rparr>"
  by (simp_all add: px4_tree_def files.truncate_def parse_at_def parse_file_def path_eval parser_eval)

lemma px4_tree_generates:
  "\<exists>em. generate word_lexer (files.truncate px4_tree) k ''px4/msg/A.msg'' sp = Ok em"
  "\<exists>em. generate word_lexer (files.truncate px4_tree) k ''px4/msg/versioned/A.msg'' sp = Ok em \<and> em_assert_size em = 16"
  by (simp_all add: generate_def generate_with_paths_def px4_tree_layouts layout_def layout_body_def place_all_def
      sort_fields_def empty_place_def place_field_def push_padding_def push_real_def align_gap_def ALIGN_TO_def
      usize_add_def usize_mul_def message_hash_def hash_line_def laid_out_def cache_insert_def st_bind_def Let_def
      emit_with_paths_def emit_field_def sanitize_ident_def is_rust_keyword_def rust_keywords_def ident_new_def word_lexer_def
      tokens_def emit_topic_def queue_expr_def char_class_defs)

theorem gen_msgs_accounts_witness:
  "\<exists>st em. gen_msgs word_lexer px4_tree 0 ''r/xtask'' [''--px4'', ''px4'', ''--out'', ''out''] = Ok st \<and> go_count st = 2 \<and>
     go_skipped st = [] \<and> left_at (go_written st) ''out/a.rs'' = Some em \<and> em_assert_size em = 16"
proof -
  let ?vp = "''px4/msg/versioned/A.msg''"
  let ?args = "[''--px4'', ''px4'', ''--out'', ''out'']"
  define dirs where "dirs = msg_dirs px4_tree (path_join ''px4'' ''msg'')"
  have dirs: "dirs = [path_join ''px4'' ''msg'', ''px4/msg/versioned'']"
    by (simp add: dirs_def msg_dirs_def px4_tree_def path_join_def)
  obtain em1 where em1: "generate word_lexer (files.truncate px4_tree) 0 ''px4/msg/A.msg'' dirs = Ok em1"
    using px4_tree_generates(1) by blast
  obtain em2 where em2: "generate word_lexer (files.truncate px4_tree) 0 ?vp dirs = Ok em2" and size: "em_assert_size em2 = 16"
    using px4_tree_generates(2) by blast
  have files: "entries_of px4_tree [''px4/msg/versioned''] = [?vp]"
    "read_dir px4_tree ''px4/msg'' = Ok [Ok ''px4/msg/A.msg'', Ok ''px4/msg/CMakeLists.txt'']"
    "read_dir px4_tree ''px4/msg/versioned'' = Ok [Ok ?vp]"
    by (simp_all add: entries_of_def px4_tree_def)
  have ext: "extension ''px4/msg/A.msg'' = Some ''msg''" "extension ?vp = Some ''msg''"
    "extension ''px4/msg/CMakeLists.txt'' = Some ''txt''"
    by (simp_all add: path_eval)
  have outs: "out_file ''out'' ?vp = ''out/a.rs''"
    by (simp add: out_file_def path_eval parser_eval)
  have host: "write_ok px4_tree p = Ok ()" "create_dir_all px4_tree p = Ok ()" "env_var px4_tree v = None" for p v
    by (simp_all add: px4_tree_def)
  have root: "is_dir px4_tree (path_join ''px4'' ''msg'')" by (simp add: px4_tree_def path_join_def)
  have join: "path_join ''px4'' ''msg'' = ''px4/msg''" by (simp add: path_join_def)
  have "\<exists>st. gen_msgs word_lexer px4_tree 0 ''r/xtask'' ?args = Ok st \<and> go_count st = 2 \<and> go_skipped st = []"
    using em1 em2 root
    by (simp add: gen_msgs_def host Let_def dirs [unfolded dirs_def join] dirs [unfolded join] join files gen_entry_def ext
        gen_out_new_def)
  then obtain st where st: "gen_msgs word_lexer px4_tree 0 ''r/xtask'' ?args = Ok st" "go_count st = 2" "go_skipped st = []"
    by blast
  have "left_at (go_written st) ''out/a.rs'' = Some em2"
    using gen_msgs_accounts [OF st(1) _ dirs_def] em2 dirs files(1) ext(2) outs
    by (simp add: is_msg_def out_dir_def)
  with st size show ?thesis by blast
qed

text \<open>
  But the shadowing stops at nesting: a message that nests one which both directories have is laid out and
  hashed with the legacy definition, while the generated code of the nested type is the versioned one.
\<close>

theorem nested_prefers_legacy:
  assumes "msg_dirs h msg_dir = [msg_dir, v]" and "is_file h (path_join msg_dir (name @ ''.msg''))"
  shows "find_msg (files.truncate h) (msg_dirs h msg_dir) name = Ok (path_join msg_dir (name @ ''.msg''))"
  using assms by (simp add: find_msg_def files.truncate_def)

text \<open>
  What a successful run of the build script of \<open>px4-sys\<close> has done: \<open>px4_rs_trampolines\<close> is announced
  to the crate exactly when the C++ file was compiled, and that is when both variables are set; with a PX4
  tree its \<open>uORB.h\<close> was read and has \<open>orb_id_size_t\<close>; and every include directory exists, apart from the
  crate's own and the two of the build directory.
\<close>

theorem build_script_ok:
  assumes "build_main bindgen h crate_dir = Ok b"
  shows "(RustcCfg ''px4_rs_trampolines'' \<in> set (bd_lines b) \<longleftrightarrow> bd_trampolines b \<noteq> None) \<and>
    (bd_trampolines b \<noteq> None \<longleftrightarrow> env_var h ''PX4_AUTOPILOT_DIR'' \<noteq> None \<and> env_var h ''PX4_RS_BUILD_TRAMPOLINES'' \<noteq> None) \<and>
    (\<forall>px4. env_var h ''PX4_AUTOPILOT_DIR'' = Some px4 \<longrightarrow>
       (\<exists>body a z. read_to_string h (path_join px4 MIN_PX4_MARKER_FILE) = Ok body \<and> body = a @ MIN_PX4_MARKER @ z)) \<and>
    (\<forall>settings p. bd_trampolines b = Some settings \<longrightarrow> Include p \<in> set settings \<longrightarrow>
       is_dir h p \<or> p = crate_dir \<or>
       (\<exists>bd. env_var h ''PX4_RS_BUILD_DIR'' = Some bd \<and> p \<in> {bd, path_join (path_join bd ''src'') ''lib''}))"
  using assms
proof (cases rule: build_main_cases)
  case (full px4 seen)
  then show ?thesis using verify_Ok(1) [OF full(2)] trampoline_includes [of _ h crate_dir px4] by auto
next
  case (seen px4 seen)
  then show ?thesis using verify_Ok(1) [OF seen(2)] by auto
qed auto

end
