(* ===== verification/Spec2Isabelle.thy ===== *)
theory Spec2Isabelle
  imports Msg_Emit Channel_Ra Wait_Ra Notify_Ra Cell_Ra Task_Pipe Sleep_Timer Uorb_Race Module_Entry Build_Scripts
begin

text \<open>
  A verification development for px4-rs, the Rust bindings of the PX4 flight stack. The crates under
  \<open>crates/\<close> let a PX4 module be written as \<open>async\<close> Rust: \<open>px4-msg-codegen\<close> turns PX4's \<open>.msg\<close> files into
  \<open>#[repr(C)]\<close> structs with the metadata that uORB needs, \<open>px4-uorb\<close> publishes and receives them,
  \<open>px4-workqueue\<close> runs futures as work items of PX4's work queues, \<open>px4-log\<close> is the console and the
  module's arguments, and the macro crates generate the glue. Every definition is a translation of the
  Rust source; the functions of PX4 itself are modelled where the repository has an in-process mock of them
  (the feature \<open>std\<close>), and are otherwise parameters.

  Parts and theories.

  \<^item> \<open>Px4_Prelude\<close>: \<open>Result\<close> as a sum with its \<open>?\<close> operator (\<open>res_bind\<close>), state-passing results
    (\<open>st_bind\<close>), the collections of rules, and generic facts. \<open>Rust_Str\<close>: the functions of \<open>str\<close> the parser
    calls (\<open>trim\<close>, \<open>lines\<close>, \<open>split_whitespace\<close>, \<open>parse\<close>), on lists of characters.
  \<^item> \<open>Msg_Model\<close>, \<open>Msg_Parser\<close>: \<open>px4-msg-codegen/src/model.rs\<close> and \<open>parser.rs\<close>; the parser is a fold of
    \<open>parse_line\<close> over the numbered lines, with the error of the first bad line as its result.
  \<^item> \<open>Msg_Layout\<close>, \<open>Layout_Facts\<close>, \<open>Layout_Repr\<close>: \<open>layout.rs\<close>. \<open>layout_inner\<close> lays a message out and recurses
    through the files of nested messages with the cache of the resolver; fuel bounds the depth of nesting.
    \<open>layout_terminates\<close> shows that for a file system whose nesting is well founded some fuel gives a result
    and more fuel the same one; \<open>self_nested_message_diverges\<close>, that a message that contains itself exhausts
    every fuel, as the code overflows its stack. The reference is the C layout rule of \<open>repr(C)\<close>, defined
    apart from the code's algorithm: \<open>layout_matches_repr_c\<close> is the refinement.
  \<^item> \<open>Msg_Emit\<close>: \<open>emit.rs\<close>, the generator of \<open>lib.rs\<close>, and \<open>px4-msg-macros\<close>. Token streams are trees; which
    strings \<open>proc_macro2\<close> accepts as identifiers or tokens is the record \<open>lexer\<close>, a parameter.
  \<^item> \<open>Atomic_Waker\<close>: \<open>px4-workqueue/src/atomic_waker.rs\<close> as a system of threads, each with a program counter
    between two atomic operations; one transition is one operation on the state word or the slot.
  \<^item> \<open>Wake_Protocol\<close>: the protocol all waiting futures follow (attempt, register, attempt again) against any
    number of notifiers, interleaved with the waker's atomic steps. The locale \<open>wake_source\<close> states what an
    attempt promises and \<open>wake_pair\<close> adds what a notifier promises; no wake-up is lost inside it. It is
    interpreted on the permit of \<open>Notify\<close>, on both sides of \<open>Channel\<close>, and on the uORB subscription.
  \<^item> \<open>Notify\<close> (\<open>notify.rs\<close>, \<open>yield_.rs\<close>), \<open>Channel\<close> (\<open>channel.rs\<close>): the operations run alone; \<open>Channel\<close> refines
    a bounded queue. \<open>Channel_Spsc\<close>: the producer and the consumer of a channel interleaved at every access
    to the buffer and the indices.
  \<^item> \<open>Task_Cell\<close>: \<open>cell.rs\<close>, \<open>waker.rs\<close>: spawner, dispatcher and wakers of one task, interleaved at every
    access. It sees of the work queue the number of its own entries; \<open>Wq_Mock\<close> is the whole mock queue of
    \<open>ffi.rs\<close>, which runs the callbacks in the order in which they were scheduled. \<open>Wq_System\<close> puts any number of
    cells on that queue: each runs as \<open>Task_Cell\<close> says (\<open>wq_cells_compose\<close>), the channel holds at most one entry per
    task, and no task starves (\<open>wq_task_served\<close>). The locale \<open>fifo_queue\<close> is what it relies on of the channel.
    \<open>Wq_Tasks\<close> has the calls on that queue that run to their end (spawn, wake, one poll), and \<open>Task_Pipe\<close> two tasks on it
    that talk over a \<open>Channel\<close>, the scenario of \<open>tests/channel.rs\<close>: all values arrive, in order, after at most \<open>2 * n + 2\<close> turns of the
    dispatcher (\<open>tasks_exchange_all_values\<close>).
  \<^item> \<open>Ra_Memory\<close>: atomics with the orderings of the source, as a memory that keeps the history of each location,
    with a view per thread. Over that memory: the slots of \<open>channel.rs\<close> in \<open>Channel_Ra\<close>, \<open>atomic_waker.rs\<close> for any
    number of threads in \<open>Waker_Ra\<close>, the two futures of \<open>channel.rs\<close> against \<open>try_send\<close> and \<open>try_recv\<close> in \<open>Wait_Ra\<close>,
    \<open>notify.rs\<close> with any number of notifiers in \<open>Notify_Ra\<close>, by a refinement mapping to \<open>Wake_Protocol\<close>, and what
    the notified task knows when it resumes, and \<open>cell.rs\<close> and \<open>waker.rs\<close> for any number of spawning and waking threads in \<open>Cell_Ra\<close>.
  \<^item> \<open>Sleep_Timer\<close>: \<open>timer.rs\<close> and the callout queue and worker thread of \<open>hrt.rs\<close>, with any number of sleeps.
  \<^item> \<open>Uorb_Broker\<close>: the mock broker of \<open>px4-uorb/src/ffi.rs\<close>, a store of topics and subscribers, each of its
    calls one step. \<open>Uorb_Api\<close>: \<open>pub_.rs\<close>, \<open>sub.rs\<close>, \<open>raw.rs\<close> on top of it.
    \<open>Uorb_Race\<close>: publishers that share a \<open>Publication\<close>, with the shares that the handles own, and an update beside a
    publish, at the grain of their atomic accesses and of the locks, which the code takes one after the other.
  \<^item> \<open>Module_Log\<close>: \<open>px4-log\<close>, with both builds of \<open>__log_impl\<close>, the arguments and the results of a module.
    \<open>Module_Entry\<close>: the attribute macros \<open>#[px4::main]\<close> and \<open>#[task]\<close>, the table of \<open>wq.rs\<close>, and the modules
    under \<open>examples/\<close>, whose \<open>start\<close> runs on the task cell of \<open>Task_Cell\<close>.
  \<^item> \<open>Build_Scripts\<close>: \<open>xtask/src/main.rs\<close> and \<open>px4-sys/build.rs\<close>; the host is a record of functions, and what
    a program writes, prints and compiles is its result.

  \<^item> This theory composes the components: a message file laid out, emitted, published and received
    (\<open>message_reaches_subscriber\<close>), and a task on the work queue that awaits \<open>recv\<close>, is woken by a
    publication through its \<open>AtomicWaker\<close> and its \<open>Waker\<close>, and resumes with the message
    (\<open>awaiting_task_receives\<close>).

  How the state corresponds. A struct is a record of the same fields; an atomic is a field of its value type
  at its width (\<open>8 word\<close>, \<open>32 word\<close>; the indices of \<open>Channel\<close> are words of any width, since the wrap of
  \<open>usize\<close> is what its properties turn on). An \<open>Arc\<close> or a leaked \<open>Box\<close> is an address in a store. A thread
  inside a function is a program counter that carries its local variables. Undefined behaviour (reading an
  empty slot, using a freed object, copying past a buffer) is an outcome of its own, so that memory safety
  is the theorem that it is not reached. The theories on \<open>Ra_Memory\<close> take the orderings \<open>Relaxed\<close>, \<open>Acquire\<close>,
  \<open>Release\<close> and \<open>AcqRel\<close> as the source has them: a load may return an old value, a failing
  \<open>compare_exchange\<close> too, and a plain access whose thread does not know of an earlier one is a data race. In the
  other theories memory is sequentially consistent.

  Groups of lemmas. Invariants with their preservation by every step: \<open>aw_inv\<close>, \<open>ws_inv\<close>, \<open>cell_inv\<close>,
  \<open>hrt_inv\<close>, \<open>broker_ok\<close>, \<open>sys_inv\<close>, \<open>ra_inv\<close>, \<open>ar_inv\<close>, \<open>rv_inv\<close>, \<open>nt_inv\<close>, \<open>cl_inv\<close>, \<open>pipe_inv\<close> and the invariants of the races. No lost wake-up: the locales and their
  interpretations. Functional behaviour of each operation on a state that satisfies its invariant
  (\<open>..._spec\<close>, \<open>..._eq\<close>). Round trips: rendering and parsing of messages, types and hashes. What goes wrong:
  theorems that run the code into a fault, each a finding: a channel whose length is no power of two loses
  values when the index wraps, a late waker blocks a cell and a respawn polls an unwritten future (each with the exact condition), a timer
  that fires too early is forgotten, \<open>len\<close> on a third thread returns anything, the second of two notifiers hides what the first
  one did, two publishers race with \<open>unadvertise\<close>, and keywords and sizes the
  emitter does not handle.

  Runs and their conditions. What is proved of a task cell, of the work queue and of the cell over \<open>Ra_Memory\<close> is about
  runs in which a spawn that finds the cell free finds no queue entry of an earlier life of the cell, nor a waker about to
  leave one: \<open>clean_spawns\<close>, \<open>sys_clean\<close>, \<open>cl_clean\<close> of a list of actions, \<open>cell_reach\<close>, \<open>sys_reach\<close>, \<open>cl_reach\<close> of a
  state. \<open>try_spawn\<close> does not check this. Runs without respawns keep it, and \<open>respawn_safe_iff\<close> shows that it is what the
  future's slot needs. The slots of a channel need that the capacity divides the range of the counters or that the counters do not
  wrap (\<open>fits\<close>), and the arguments of a module the contract of \<open>Args::from_raw\<close> (\<open>args_ok\<close>).

  Bounds and fuel. The only fuel is the nesting depth of \<open>layout_inner\<close>, with the theorem above; all other
  recursions are structural or have a termination proof. Interleavings are lists of actions of any length.

  Not modelled. The \<open>real\<close> modules of \<open>ffi.rs\<close> and \<open>hrt.rs\<close> and \<open>px4-sys\<close>' C++ trampolines are calls into PX4.
  Parsing of Rust by \<open>syn\<close> and printing of tokens by \<open>quote\<close> are libraries. \<open>px4/src/lib.rs\<close> only re-exports.
  The \<open>unsafe impl Send\<close> and \<open>Sync\<close> markers have no counterpart here. The timer
  and the publishers' handle are not repeated over \<open>Ra_Memory\<close>.
\<close>

section \<open>From a message file to a subscriber\<close>

text \<open>
  The static metadata of an emitted topic, as the target links it; \<open>queue\<close> is the value of its queue
  expression.
\<close>

definition topic_metadata :: "8 word \<Rightarrow> emitted_topic \<Rightarrow> orb_metadata" where
  "topic_metadata queue e =
     \<lparr>o_name = takeWhile (\<lambda>c. c \<noteq> CHR 0x00) (et_cstr e), o_size = et_size e, o_size_no_padding = et_size_no_padding e,
      o_message_hash = et_hash e, o_id = et_id e, o_queue = queue\<rparr>"

lemma emitted_topic_size:
  assumes "emit_with_paths lx l paths = Ok em" and "e \<in> set (em_items em)"
  shows "et_size e = of_nat (l_size l)"
proof -
  obtain t where "emit_topic lx (l_name l) (l_size l) (l_message_hash l) (l_constants l) paths t = Ok e"
    using emit_Ok(6) [OF assms(1)] assms(2) by (auto simp: list_all2_conv_all_nth in_set_conv_nth)
  then show ?thesis by (auto simp: emit_topic_def)
qed

text \<open>The size in the metadata is the size rustc gives the struct, when that fits 16 bits.\<close>

lemma metadata_size:
  assumes "resolves fs search name l" and "rustc_sizes fs search salign env" and "\<And>s. salign s dvd scalar_size s"
    and "emit_with_paths lx l paths = Ok em" and "e \<in> set (em_items em)" and "fst (env name) < 2 ^ 16"
  shows "unat (o_size (topic_metadata queue e)) = fst (env name)"
proof -
  have "l_size l = fst (env name)"
    using pure_env_ok [OF assms(2,3)] assms(1) unfolding resolves_pure by fastforce
  then show ?thesis
    using emitted_topic_size [OF assms(4,5)] assms(6) by (simp add: topic_metadata_def unat_of_nat)
qed

section \<open>A task that waits for a message\<close>

text \<open>
  One task of the work queue that awaits \<open>recv\<close> on one subscription. A publication fires the callbacks
  in \<open>b_woken\<close>; the callback with the subscription's address wakes its \<open>AtomicWaker\<close>, and each task
  waker that this calls goes through \<open>wake_by_ref\<close> to the work queue.
\<close>

record 'f recv_task =
  rt_sub :: subscription
  rt_broker :: broker
  rt_cell :: "'f task_cell"

definition fire_callbacks :: "addr list \<Rightarrow> subscription \<Rightarrow> subscription" where
  "fire_callbacks ctxs s = fold (\<lambda>ctx s. if ctx = sb_addr s then wake_trampoline 1 s else s) ctxs s"

definition task_publish ::
  "orb_metadata \<Rightarrow> bytes \<Rightarrow> publication \<Rightarrow> 'f recv_task \<Rightarrow> orb_fault + (pub_error + unit) \<times> publication \<times> 'f recv_task" where
  "task_publish meta msg p t =
     res_bind (pub_publish meta msg (p, rt_broker t)) (\<lambda>(r, p, b).
       let s = fire_callbacks (drop (length (b_woken (rt_broker t))) (b_woken b)) (rt_sub t);
           calls = length (aw_woken (sb_waker s)) - length (aw_woken (sb_waker (rt_sub t)))
       in Ok (r, p, \<lparr>rt_sub = s, rt_broker = b, rt_cell = (cell_run [WakeByRef, WakeSchedule] ^^ calls) (rt_cell t)\<rparr>))"

text \<open>The dispatcher runs the task, which polls its \<open>recv\<close> again with its waker \<open>w\<close>.\<close>

definition task_turn ::
  "orb_metadata \<Rightarrow> waker \<Rightarrow> bytes \<Rightarrow> 'f recv_task \<Rightarrow> orb_fault + bytes poll option \<times> 'f recv_task" where
  "task_turn meta w buf t =
     (let c = cell_do Dispatch (rt_cell t)
      in if tc_disp c \<noteq> DPoll then Ok (None, t\<lparr>rt_cell := c\<rparr>)
         else res_bind (sub_recv_poll meta 0 w buf (rt_sub t, rt_broker t))
                (\<lambda>(r, s, b). Ok (Some r, \<lparr>rt_sub = s, rt_broker = b, rt_cell = c\<rparr>)))"

lemma fire_nobody:
  assumes "waker_idle (sb_waker s)" and "aw_slot (sb_waker s) = None"
  shows "fire_callbacks ctxs s = s"
  using assms
proof (induction ctxs)
  case (Cons c cs)
  have "wake_trampoline 1 s = s"
    using Cons.prems by (simp add: wake_trampoline_def waker_idle_def aw_run_wake)
  with Cons show ?case by (simp add: fire_callbacks_def)
qed (simp add: fire_callbacks_def)

lemma fire_waiting:
  assumes "waker_idle (sb_waker s)" and "aw_slot (sb_waker s) = Some w" and "sb_addr s \<in> set ctxs"
  shows "fire_callbacks ctxs s = s\<lparr>sb_waker := (sb_waker s)\<lparr>aw_slot := None, aw_woken := aw_woken (sb_waker s) @ [w]\<rparr>\<rparr>"
  using assms(3)
proof (induction ctxs)
  case (Cons c cs)
  have wake: "wake_trampoline 1 s = s\<lparr>sb_waker := (sb_waker s)\<lparr>aw_slot := None, aw_woken := aw_woken (sb_waker s) @ [w]\<rparr>\<rparr>"
    using assms(1,2) by (simp add: wake_trampoline_def waker_idle_def aw_run_wake)
  show ?case
  proof (cases "c = sb_addr s")
    case True
    then have "fire_callbacks (c # cs) s = fire_callbacks cs (wake_trampoline 1 s)" by (simp add: fire_callbacks_def)
    also have "\<dots> = wake_trampoline 1 s"
      unfolding wake by (rule fire_nobody) (use assms(1) in \<open>simp_all add: waker_idle_def\<close>)
    finally show ?thesis unfolding wake .
  next
    case False
    with Cons show ?thesis by (simp add: fire_callbacks_def)
  qed
qed simp

text \<open>What a poll of a new subscription that returns \<open>Pending\<close> leaves.\<close>

lemma recv_pending:
  assumes ok: "broker_ok b" and new: "sb_cb s = None" and idle: "waker_idle (sb_waker s)"
    and fits: "meta_fits 2 meta b" and len: "length buf = unat (o_size meta)"
    and poll: "sub_recv_poll meta 0 w buf (s, b) = Ok (Pending, s1, b1)"
  shows "broker_ok b1 \<and> subscribed meta s1 b1 \<and> meta_fits 2 meta b1 \<and> waker_idle (sb_waker s1) \<and>
    aw_slot (sb_waker s1) = Some w \<and> (\<forall>n u. b_names b n = Some u \<longrightarrow> b_names b1 n = Some u)"
proof -
  from ensure_registered_fresh [OF ok new, of meta] fits obtain c b0
    where e: "ensure_registered meta (s, b) = Ok (s\<lparr>sb_cb := Some c\<rparr>, b0)" and ok0: "broker_ok b0"
      and sub0: "subscribed meta (s\<lparr>sb_cb := Some c\<rparr>) b0" and fits0: "meta_fits 2 meta b0"
      and keep: "\<forall>n u. b_names b n = Some u \<longrightarrow> b_names b0 n = Some u"
    by blast
  let ?s = "s\<lparr>sb_cb := Some c\<rparr>"
  let ?r = "?s\<lparr>sb_waker := aw_run 0 (aw_register 0 w (sb_waker ?s))\<rparr>"
  have first: "sub_try_recv meta buf (s, b) = sub_try_recv meta buf (?s, b0)"
    using e ensure_registered_subscribed [OF sub0] by (simp add: sub_try_recv_def)
  from sub_try_recv_settles [OF ok0 sub0 fits0 len] obtain r b0'
    where r: "sub_try_recv meta buf (?s, b0) = Ok (r, ?s, b0')" and ok0': "broker_ok b0'"
      and sub0': "subscribed meta ?s b0'" and same: "b_names b0' = b_names b0" "b_topics b0' = b_topics b0"
    by metis
  have fits0': "meta_fits 2 meta b0'" using fits0 same by (simp add: meta_fits_def)
  have subr: "subscribed meta ?r b0'" using sub0' by (simp add: subscribed_def)
  from sub_try_recv_settles [OF ok0' subr fits0' len] obtain r' b2
    where r': "sub_try_recv meta buf (?r, b0') = Ok (r', ?r, b2)" and ok2: "broker_ok b2"
      and sub2: "subscribed meta ?r b2" and same2: "b_names b2 = b_names b0'" "b_topics b2 = b_topics b0'"
    by metis
  from poll r r' first have "s1 = ?r" "b1 = b2"
    by (auto simp: sub_recv_poll_def Let_def split: option.splits)
  moreover have "meta_fits 2 meta b2" using fits0' same2 by (simp add: meta_fits_def)
  moreover have "waker_idle (sb_waker ?r) \<and> aw_slot (sb_waker ?r) = Some w"
    using idle by (simp add: waker_idle_def aw_run_register)
  ultimately show ?thesis using ok2 sub2 keep same same2 by simp
qed

section \<open>Properties\<close>

text \<open>
  C3: from a \<open>.msg\<close> file to a subscriber: when a message resolves, its struct is smaller than 64 KiB and the
  emitter accepts it, then every topic it declares carries it: through the emitted metadata, publishing the
  bytes of a struct is \<open>Ok\<close>, wakes a subscription that has looked once, and the next \<open>try_recv\<close> into a
  buffer of the struct's size yields exactly these bytes, on any reachable broker that has no other idea
  of the topic.
\<close>

theorem message_reaches_subscriber:
  assumes "resolves fs search name l" and "rustc_sizes fs search salign env" and "\<And>s. salign s dvd scalar_size s"
    and "emit_with_paths lx l paths = Ok em" and "e \<in> set (em_items em)" and "fst (env name) < 2 ^ 16"
    and "meta = topic_metadata queue e" and "broker_reach b" and "meta_fits 2 meta b"
    and "length msg = fst (env name)" and "length buf = fst (env name)"
  shows "\<exists>r s b1 p b2 b3. sub_try_recv meta buf (sub_new ad, b) = Ok (r, s, b1) \<and>
    pub_publish meta msg (publication_new, b1) = Ok (Ok (), p, b2) \<and>
    (\<exists>woken. b_woken b2 = b_woken b1 @ woken \<and> ad \<in> set woken) \<and>
    sub_try_recv meta buf (s, b2) = Ok (Some msg, s, b3) \<and> sub_try_recv meta buf (s, b3) = Ok (None, s, b3)"
proof -
  have size: "unat (o_size meta) = fst (env name)" unfolding assms(7) by (rule metadata_size [OF assms(1-6)])
  have "on_topic meta (pb_handle publication_new) b" "sb_cb (sub_new ad) = None" "sb_addr (sub_new ad) = ad"
    by (simp_all add: on_topic_def publication_new_def sub_new_def sub_new_with_def)
  with pub_sub_delivers [OF assms(8,9), of msg buf "sub_new ad" publication_new] assms(10,11) size show ?thesis
    by metis
qed

theorem message_reaches_subscriber_witness:
  "\<exists>em e. emit_with_paths word_lexer demo_outer default_paths = Ok em \<and> em_items em = [e] \<and>
     (\<exists>r s b1 p b2 b3. sub_try_recv (topic_metadata 1 e) (replicate 40 0) (sub_new 7, broker_new) = Ok (r, s, b1) \<and>
        pub_publish (topic_metadata 1 e) (replicate 40 5) (publication_new, b1) = Ok (Ok (), p, b2) \<and>
        sub_try_recv (topic_metadata 1 e) (replicate 40 0) (s, b2) = Ok (Some (replicate 40 5), s, b3))"
proof -
  obtain em e where em: "emit_with_paths word_lexer demo_outer default_paths = Ok em" "em_items em = [e]"
    using demo_emit by simp
  have size: "fst (demo_env ''Outer'') = 40" by (simp add: demo_env_def)
  have "meta_fits 2 (topic_metadata 1 e) broker_new" by (simp add: meta_fits_def broker_new_def)
  from message_reaches_subscriber [OF demo_resolves demo_sizes dvd_refl em(1) _ _ refl broker_reach.reach_new this,
      of "replicate 40 5" "replicate 40 0" 7] em size
  show ?thesis by (simp, blast)
qed

text \<open>
  C2: a task that awaits \<open>recv\<close> resumes with the message: when the poll of a new subscription was \<open>Pending\<close>
  and the task is live and idle, a publication on the topic puts the task on the work queue, the dispatcher
  polls it in its next turn, and that poll is \<open>Ready\<close> with exactly the published bytes.
\<close>

theorem awaiting_task_receives:
  assumes "broker_reach b" and "sb_cb s = None" and "waker_idle (sb_waker s)" and "meta_fits 2 meta b"
    and "length msg = unat (o_size meta)" and "length buf = unat (o_size meta)"
    and "sub_recv_poll meta 0 w buf (s, b) = Ok (Pending, s1, b1)"
    and "on_topic meta (pb_handle p) b1"
    and "cell_reach c" and "tc_spawn c = SpIdle" and "tc_disp c = DIdle" and "tc_state c AND SPAWNED \<noteq> 0"
  shows "\<exists>p' t t'. task_publish meta msg p \<lparr>rt_sub = s1, rt_broker = b1, rt_cell = c\<rparr> = Ok (Ok (), p', t) \<and>
    task_turn meta w buf t = Ok (Some (Ready msg), t') \<and> tc_disp (rt_cell t') = DPoll"
proof -
  from recv_pending [OF broker_reach_ok [OF assms(1)] assms(2-4,6,7)]
  have ok1: "broker_ok b1" and sub1: "subscribed meta s1 b1" and fits1: "meta_fits 2 meta b1"
    and idle1: "waker_idle (sb_waker s1)" and slot1: "aw_slot (sb_waker s1) = Some w" by blast+
  from pub_publish_fits [OF ok1 fits1 assms(5,8)] obtain b2 h ts
    where pub: "pub_publish meta msg (p, b1) = Ok (Ok (), p\<lparr>pb_handle := Some h\<rparr>, b2)" and ok2: "broker_ok b2"
      and n2: "b_names b2 (o_name meta) = Some h" and s2: "b_subs b2 = b_subs b1" and ts: "b_topics b2 h = Some ts"
      and data: "t_data ts = msg" "t_size ts = unat (o_size meta)"
      and keep2: "\<forall>n u. b_names b1 n = Some u \<longrightarrow> b_names b2 n = Some u"
      and wake: "\<forall>c x. b_subs b1 c = Some x \<longrightarrow> s_registered x \<longrightarrow> s_topic x = h \<longrightarrow>
        s_last_seen x < t_seq ts \<and> (\<exists>cs. b_woken b2 = b_woken b1 @ cs \<and> s_ctx x \<in> set cs)"
    by blast
  from sub1 obtain cb x where cb: "sb_cb s1 = Some cb" and x: "b_subs b1 cb = Some x" "s_registered x"
    and ctx: "s_ctx x = sb_addr s1" and nx: "b_names b1 (o_name meta) = Some (s_topic x)"
    by (auto simp: subscribed_def)
  have h: "s_topic x = h" using keep2 nx n2 by fastforce
  from wake x h ctx obtain cs where seen: "s_last_seen x < t_seq ts"
    and cs: "b_woken b2 = b_woken b1 @ cs" "sb_addr s1 \<in> set cs" by metis
  let ?s = "s1\<lparr>sb_waker := (sb_waker s1)\<lparr>aw_slot := None, aw_woken := aw_woken (sb_waker s1) @ [w]\<rparr>\<rparr>"
  let ?c = "cell_run [WakeByRef, WakeSchedule] c"
  let ?t = "\<lparr>rt_sub = ?s, rt_broker = b2, rt_cell = ?c\<rparr>"
  have "task_publish meta msg p \<lparr>rt_sub = s1, rt_broker = b1, rt_cell = c\<rparr> = Ok (Ok (), p\<lparr>pb_handle := Some h\<rparr>, ?t)"
    using fire_waiting [OF idle1 slot1 cs(2)] by (simp add: task_publish_def pub cs(1) Let_def)
  moreover have run: "tc_disp (cell_do Dispatch ?c) = DPoll"
    using task_woken_runs [OF assms(9-12)] by simp
  have "sub_recv_poll meta 0 w buf (?s, b2) = Ok (Ready msg, ?s, set_sub cb (caught_up x ts) b2)"
    using sub_try_recv_eq [OF ok2, of ?s cb x ts buf meta] cb x s2 h ts assms(6) data seen
    by (simp add: sub_recv_poll_def)
  with run have "task_turn meta w buf ?t =
      Ok (Some (Ready msg), \<lparr>rt_sub = ?s, rt_broker = set_sub cb (caught_up x ts) b2, rt_cell = cell_do Dispatch ?c\<rparr>)"
    by (simp add: task_turn_def Let_def)
  ultimately show ?thesis using run by force
qed

theorem awaiting_task_receives_witness:
  "\<exists>s1 b1 p' t t'. sub_recv_poll gyro_meta 0 3 [0, 0] (sub_new 7, broker_new) = Ok (Pending, s1, b1) \<and>
     task_publish gyro_meta [1, 2] publication_new
       \<lparr>rt_sub = s1, rt_broker = b1, rt_cell = cell_do (PollReturns False) polling_cell\<rparr> = Ok (Ok (), p', t) \<and>
     task_turn gyro_meta 3 [0, 0] t = Ok (Some (Ready [1, 2]), t')"
proof -
  let ?c = "cell_do (PollReturns False) polling_cell"
  have cell: "cell_reach ?c" "tc_spawn ?c = SpIdle" "tc_disp ?c = DIdle" "tc_state ?c AND SPAWNED \<noteq> 0"
    using cell_act [OF polling_cell_reach, of "PollReturns False"]
    by (simp_all add: quiet_def polling_cell_eq cell_defs)
  have new: "sb_cb (sub_new 7) = None" "waker_idle (sb_waker (sub_new 7))"
    by (simp_all add: sub_new_def sub_new_with_def waker_idle_def aw_new_def)
  have len: "length [1, 2 :: 8 word] = unat (o_size gyro_meta)" "length [0, 0 :: 8 word] = unat (o_size gyro_meta)"
    by (simp_all add: gyro_meta_def)
  obtain s1 b1 where poll: "sub_recv_poll gyro_meta 0 3 [0, 0] (sub_new 7, broker_new) = Ok (Pending, s1, b1)"
    by (simp add: sub_recv_poll_def sub_try_recv_def ensure_registered_def sub_new_def sub_new_with_def raw_eval
        set_topic_def set_sub_def new_topic_def gyro_meta_def)
  have "on_topic gyro_meta (pb_handle publication_new) b1" by (simp add: on_topic_def publication_new_def)
  from awaiting_task_receives [OF broker_reach.reach_new new gyro_fits len poll this cell] poll show ?thesis by blast
qed

end
